(* ===== verification/Prelude.thy ===== *)
theory Prelude
  imports Main "HOL-Library.Word" "HOL-Library.Monad_Syntax" "HOL-Library.Multiset"
begin

text \<open>
  Shared vocabulary of the development.  The engine is written in C++; whatever is undefined
  behaviour, a failed \<^verbatim>\<open>assert\<close> or a loop that does not stop is the value \<^const>\<open>None\<close> of the
  option monad, so that a theorem \<^prop>\<open>f x = Some y\<close> says that the code runs to completion
  without touching memory it must not touch.  This theory holds the theorem collections, the
  lemmas on lists, options and words that several components use.
\<close>

unbundle bit_operations_syntax

section \<open>Theorem collections\<close>

named_theorems mem_simps \<open>reading and writing the object store\<close>
named_theorems run_simps \<open>operations evaluated under their precondition\<close>
named_theorems abs_simps \<open>operations seen through an abstraction function\<close>

section \<open>Machine integers\<close>

type_synonym u64 = "64 word"

text \<open>
  \<^verbatim>\<open>std::int64_t\<close> arithmetic is undefined on overflow, so signed values are integers, and every
  operation whose exact result does not fit its type is \<^const>\<open>None\<close>.
\<close>

definition fits_int64 :: "int \<Rightarrow> bool" where
  "fits_int64 x \<longleftrightarrow> - (2 ^ 63) \<le> x \<and> x < 2 ^ 63"

definition checked64 :: "int \<Rightarrow> int option" where
  "checked64 x = (if fits_int64 x then Some x else None)"

lemma checked64_Some [run_simps]: "fits_int64 x \<Longrightarrow> checked64 x = Some x"
  by (simp add: checked64_def)

lemma fits_int64_iff: "fits_int64 x \<longleftrightarrow> -9223372036854775808 \<le> x \<and> x < 9223372036854775808"
  by (simp add: fits_int64_def)

lemma fits_int64_between: "fits_int64 a \<Longrightarrow> fits_int64 b \<Longrightarrow> a \<le> x \<Longrightarrow> x \<le> b \<Longrightarrow> fits_int64 x"
  by (simp add: fits_int64_def)

lemma fits_int64_nonneg: "0 \<le> x \<Longrightarrow> fits_int64 x \<longleftrightarrow> x < 2 ^ 63"
  by (simp add: fits_int64_def)

definition fits_int128 :: "int \<Rightarrow> bool" where
  "fits_int128 x \<longleftrightarrow> - (2 ^ 127) \<le> x \<and> x < 2 ^ 127"

text \<open>The conversion \<^verbatim>\<open>static_cast<std::int64_t>\<close> of a wider integer (modulo $2^{64}$ since C++20).\<close>

definition to_int64 :: "int \<Rightarrow> int" where
  "to_int64 x = signed_take_bit 63 x"

text \<open>C++ integer division truncates towards zero.\<close>

definition trunc_div :: "int \<Rightarrow> int \<Rightarrow> int" where
  "trunc_div a b = sgn a * sgn b * (\<bar>a\<bar> div \<bar>b\<bar>)"

text \<open>The power-of-two test the sources use for capacities, and what masking with \<open>n - 1\<close> does.\<close>

definition is_pow2 :: "nat \<Rightarrow> bool" where
  "is_pow2 n \<longleftrightarrow> n \<noteq> 0 \<and> n AND (n - 1) = 0"

section \<open>Options\<close>

lemma bind_eq_Some_iff: "Option.bind x f = Some y \<longleftrightarrow> (\<exists>a. x = Some a \<and> f a = Some y)"
  by (cases x) auto

lemma bind_SomeI: "x = Some a \<Longrightarrow> f a = r \<Longrightarrow> Option.bind x f = r"
  by simp

lemma map_eqI: "(\<And>k v. f k = Some v \<longleftrightarrow> g k = Some v) \<Longrightarrow> f = g"
  by (rule ext) (metis not_None_eq)

section \<open>Lists\<close>

text \<open>First and last element as C++ returns them: a null pointer for the empty list.\<close>

definition first_opt :: "'a list \<Rightarrow> 'a option" where
  "first_opt xs = (case xs of [] \<Rightarrow> None | x # _ \<Rightarrow> Some x)"

definition last_opt :: "'a list \<Rightarrow> 'a option" where
  "last_opt xs = (if xs = [] then None else Some (last xs))"

lemma first_opt_simps [simp]:
  "first_opt [] = None" "first_opt (x # xs) = Some x"
  by (simp_all add: first_opt_def)

lemma first_opt_append [simp]:
  "first_opt (xs @ ys) = (if xs = [] then first_opt ys else first_opt xs)"
  by (cases xs) simp_all

lemma first_opt_None [simp]: "first_opt xs = None \<longleftrightarrow> xs = []"
  by (cases xs) simp_all

lemma last_opt_simps [simp]:
  "last_opt [] = None" "last_opt (xs @ [x]) = Some x"
  "last_opt (x # xs) = (if xs = [] then Some x else last_opt xs)"
  by (simp_all add: last_opt_def)

lemma last_opt_append [simp]:
  "last_opt (xs @ ys) = (if ys = [] then last_opt xs else last_opt ys)"
  by (simp add: last_opt_def)

lemma last_opt_None [simp]: "last_opt xs = None \<longleftrightarrow> xs = []"
  by (simp add: last_opt_def)

lemma first_opt_in_set: "first_opt xs = Some x \<Longrightarrow> x \<in> set xs"
  by (cases xs) auto

lemma last_opt_in_set: "last_opt xs = Some x \<Longrightarrow> x \<in> set xs"
  by (auto simp: last_opt_def split: if_splits)

text \<open>Array accesses with the bounds written out: outside the array the behaviour is undefined.\<close>

definition vread :: "'a list \<Rightarrow> nat \<Rightarrow> 'a option" where
  "vread xs i = (if i < length xs then Some (xs ! i) else None)"

definition vwrite :: "'a list \<Rightarrow> nat \<Rightarrow> 'a \<Rightarrow> 'a list option" where
  "vwrite xs i v = (if i < length xs then Some (xs[i := v]) else None)"

lemma vread_Some [run_simps]: "i < length xs \<Longrightarrow> vread xs i = Some (xs ! i)"
  by (simp add: vread_def)

lemma vwrite_Some [run_simps]: "i < length xs \<Longrightarrow> vwrite xs i v = Some (xs[i := v])"
  by (simp add: vwrite_def)

text \<open>A loop whose body may be stuck.\<close>

primrec foldM :: "('a \<Rightarrow> 's \<Rightarrow> 's option) \<Rightarrow> 'a list \<Rightarrow> 's \<Rightarrow> 's option" where
  "foldM f [] s = Some s"
| "foldM f (x # xs) s = Option.bind (f x s) (foldM f xs)"

lemma foldM_append: "foldM f (xs @ ys) s = Option.bind (foldM f xs s) (foldM f ys)"
  by (induction xs arbitrary: s) (auto split: bind_split)

lemma foldM_snoc: "foldM f (xs @ [x]) s = Option.bind (foldM f xs s) (f x)"
  by (induction xs arbitrary: s) (auto split: bind_split)

lemma foldM_map: "foldM f (map g xs) s = foldM (\<lambda>x. f (g x)) xs s"
  by (induction xs arbitrary: s) (auto split: bind_split)

section \<open>Powers of two\<close>

lemma and_mask_mod: "n = 2 ^ k \<Longrightarrow> x AND (n - 1) = x mod (n::nat)"
  by (simp add: take_bit_eq_mod [symmetric] take_bit_eq_mask mask_eq_exp_minus_1)

lemma and_pred_even: "m \<noteq> 0 \<Longrightarrow> (2 * m) AND (2 * m - 1) = 2 * (m AND (m - 1 :: nat))"
  by (subst and_nat_rec) (cases m; auto)
lemma and_pred_odd: "(2 * m + 1) AND (2 * m) = 2 * (m::nat)"
  by (subst and_nat_rec) (cases m; auto)

lemma is_pow2_iff: "is_pow2 n \<longleftrightarrow> (\<exists>k. n = 2 ^ k)"
proof (induction n rule: less_induct)
  case (less n)
  consider "n = 0" | m where "n = 2 * m" "m \<noteq> 0" | m where "n = 2 * m + 1"
    by (metis add.commute evenE mult_0_right oddE)
  then show ?case
  proof cases
    case 1
    then show ?thesis by (simp add: is_pow2_def)
  next
    case 2
    then have "is_pow2 n \<longleftrightarrow> is_pow2 m" using and_pred_even [of m] by (simp add: is_pow2_def)
    also have "\<dots> \<longleftrightarrow> (\<exists>k. m = 2 ^ k)" using 2 less by simp
    also have "\<dots> \<longleftrightarrow> (\<exists>k. n = 2 ^ k)"
    proof
      assume "\<exists>k. m = 2 ^ k"
      with 2 show "\<exists>k. n = 2 ^ k" by (metis power_Suc)
    next
      assume "\<exists>k. n = 2 ^ k"
      then obtain k where k: "n = 2 ^ k" ..
      with 2 obtain j where "k = Suc j" by (cases k) auto
      with 2 k show "\<exists>k. m = 2 ^ k" by auto
    qed
    finally show ?thesis .
  next
    case 3
    then have "is_pow2 n \<longleftrightarrow> n = 1" using and_pred_odd [of m] by (auto simp: is_pow2_def)
    also have "\<dots> \<longleftrightarrow> (\<exists>k. n = 2 ^ k)"
    proof
      assume "\<exists>k. n = 2 ^ k"
      with 3 show "n = 1"
        by (metis even_plus_one_iff even_power dvd_triv_left even_numeral power_0 zero_less_iff_neq_zero)
    qed (auto intro: exI [of _ 0])
    finally show ?thesis .
  qed
qed

lemma and_pred_mod:
  assumes "is_pow2 n"
  shows "x AND (n - 1) = x mod n" and "x AND (n - Suc 0) = x mod n"
  using assms and_mask_mod [of n _ x] by (auto simp: is_pow2_iff)

lemma is_pow2_pos: "is_pow2 n \<Longrightarrow> 0 < n"
  by (simp add: is_pow2_def)

lemma is_pow2_power [simp]: "is_pow2 (2 ^ k)"
  by (auto simp: is_pow2_iff)

end
