(* ===== verification/Order_Types.thy ===== *)
theory Order_Types
  imports Prelude
begin

text \<open>
  The data types of \<^verbatim>\<open>include/order.hpp\<close>, \<^verbatim>\<open>include/price_level.hpp\<close> and
  \<^verbatim>\<open>include/order_book.hpp\<close>, and the object store that the orders live in.  An \<^verbatim>\<open>Order*\<close> is the
  index of the order's slot in the pool; a null pointer is \<^const>\<open>None\<close>.
\<close>

section \<open>Data\<close>

datatype side = Buy | Sell

type_synonym price = int
type_synonym quantity = int
type_synonym order_id = u64
type_synonym nanos = u64
type_synonym ptr = nat

record order =
  o_id :: order_id
  o_side :: side
  o_price :: price
  o_quantity :: quantity
  o_timestamp :: nanos
  o_prev :: "ptr option"
  o_next :: "ptr option"

record price_level =
  l_price :: price
  total_qty :: quantity
  l_head :: "ptr option"
  l_tail :: "ptr option"

record fill =
  resting_id :: order_id
  incoming_id :: order_id
  f_price :: price
  f_qty :: quantity

record level_qty =
  lq_price :: price
  lq_qty :: quantity

text \<open>The two sides can be enumerated, so statements about every side are executable.\<close>

instantiation side :: enum
begin

definition enum_side :: "side list" where
  "enum_side = [Buy, Sell]"

definition enum_all_side :: "(side \<Rightarrow> bool) \<Rightarrow> bool" where
  "enum_all_side P \<longleftrightarrow> P Buy \<and> P Sell"

definition enum_ex_side :: "(side \<Rightarrow> bool) \<Rightarrow> bool" where
  "enum_ex_side P \<longleftrightarrow> P Buy \<or> P Sell"

instance
proof
  show "UNIV = set (enum_class.enum :: side list)"
    using side.exhaust by (auto simp: enum_side_def)
  show "distinct (enum_class.enum :: side list)"
    by (simp add: enum_side_def)
  show "enum_class.enum_all P = Ball UNIV P" for P :: "side \<Rightarrow> bool"
    by (auto simp: enum_all_side_def) (metis side.exhaust)
  show "enum_class.enum_ex P = Bex UNIV P" for P :: "side \<Rightarrow> bool"
    by (auto simp: enum_ex_side_def) (metis side.exhaust)
qed

end

fun opposite :: "side \<Rightarrow> side" where
  "opposite Buy = Sell"
| "opposite Sell = Buy"

lemma opposite_opposite [simp]: "opposite (opposite s) = s"
  by (cases s) simp_all

lemma opposite_neq [simp]: "opposite s \<noteq> s" "s \<noteq> opposite s"
  by (cases s; simp)+

section \<open>The object store\<close>

text \<open>
  A slot holds an order exactly while the object is alive, that is, between \<^verbatim>\<open>allocate\<close> and
  \<^verbatim>\<open>release\<close>.  Reading or writing through a pointer to a dead slot is stuck.
\<close>

type_synonym heap = "ptr \<rightharpoonup> order"

definition modify :: "heap \<Rightarrow> ptr \<Rightarrow> (order \<Rightarrow> order) \<Rightarrow> heap option" where
  "modify h p f = (case h p of None \<Rightarrow> None | Some r \<Rightarrow> Some (h(p \<mapsto> f r)))"

lemma modify_Some [mem_simps]: "h p = Some r \<Longrightarrow> modify h p f = Some (h(p \<mapsto> f r))"
  by (simp add: modify_def)

lemma modify_eq_Some: "modify h p f = Some h' \<longleftrightarrow> (\<exists>r. h p = Some r \<and> h' = h(p \<mapsto> f r))"
  by (auto simp: modify_def split: option.splits)

end
