(* ===== verification/Price_Level.thy ===== *)
theory Price_Level
  imports Order_Types
begin

text \<open>
  \<^verbatim>\<open>include/price_level.hpp\<close>: the intrusive doubly linked FIFO of the orders resting at one
  price.  The operations change the links inside the orders, so they take and return the
  object store together with the level.  The abstraction of a level is the list of the pointers
  in queue order.
\<close>

section \<open>Operations\<close>

definition empty_level :: "price \<Rightarrow> price_level" where
  "empty_level p = \<lparr>l_price = p, total_qty = 0, l_head = None, l_tail = None\<rparr>"

definition level_empty :: "price_level \<Rightarrow> bool" where
  "level_empty l \<longleftrightarrow> l_head l = None"

definition push_back :: "heap \<Rightarrow> price_level \<Rightarrow> ptr \<Rightarrow> (heap \<times> price_level) option" where
  "push_back h l p = do {
     h \<leftarrow> modify h p (\<lambda>r. r\<lparr>o_prev := l_tail l, o_next := None\<rparr>);
     (h, l) \<leftarrow> (case l_tail l of
         Some t \<Rightarrow> do { h \<leftarrow> modify h t (\<lambda>r. r\<lparr>o_next := Some p\<rparr>); Some (h, l) }
       | None \<Rightarrow> Some (h, l\<lparr>l_head := Some p\<rparr>));
     r \<leftarrow> h p;
     total \<leftarrow> checked64 (total_qty l + o_quantity r);
     Some (h, l\<lparr>l_tail := Some p, total_qty := total\<rparr>)
   }"

definition remove :: "heap \<Rightarrow> price_level \<Rightarrow> ptr \<Rightarrow> (heap \<times> price_level) option" where
  "remove h l p = do {
     r \<leftarrow> h p;
     total \<leftarrow> checked64 (total_qty l - o_quantity r);
     let l = l\<lparr>total_qty := total\<rparr>;
     (h, l) \<leftarrow> (case o_prev r of
         Some a \<Rightarrow> do { h \<leftarrow> modify h a (\<lambda>x. x\<lparr>o_next := o_next r\<rparr>); Some (h, l) }
       | None \<Rightarrow> Some (h, l\<lparr>l_head := o_next r\<rparr>));
     (h, l) \<leftarrow> (case o_next r of
         Some b \<Rightarrow> do { h \<leftarrow> modify h b (\<lambda>x. x\<lparr>o_prev := o_prev r\<rparr>); Some (h, l) }
       | None \<Rightarrow> Some (h, l\<lparr>l_tail := o_prev r\<rparr>));
     h \<leftarrow> modify h p (\<lambda>x. x\<lparr>o_prev := None, o_next := None\<rparr>);
     Some (h, l)
   }"

definition reduce_head :: "heap \<Rightarrow> price_level \<Rightarrow> quantity \<Rightarrow> (heap \<times> price_level) option" where
  "reduce_head h l filled = do {
     p \<leftarrow> l_head l;
     r \<leftarrow> h p;
     open_qty \<leftarrow> checked64 (o_quantity r - filled);
     h \<leftarrow> modify h p (\<lambda>r. r\<lparr>o_quantity := open_qty\<rparr>);
     total \<leftarrow> checked64 (total_qty l - filled);
     Some (h, l\<lparr>total_qty := total\<rparr>)
   }"

section \<open>The queue a level stands for\<close>

text \<open>
  \<open>seg h a ps b\<close>: the orders \<open>ps\<close> are alive and linked in this order, the first one's
  \<open>prev\<close> being \<open>a\<close> and the last one's \<open>next\<close> being \<open>b\<close>.
\<close>

primrec seg :: "heap \<Rightarrow> ptr option \<Rightarrow> ptr list \<Rightarrow> ptr option \<Rightarrow> bool" where
  "seg h a [] b \<longleftrightarrow> True"
| "seg h a (p # ps) b \<longleftrightarrow> (case h p of
      None \<Rightarrow> False
    | Some r \<Rightarrow> o_prev r = a \<and> o_next r = (if ps = [] then b else first_opt ps) \<and> seg h (Some p) ps b)"

definition qty_at :: "heap \<Rightarrow> ptr \<Rightarrow> quantity" where
  "qty_at h p = (case h p of None \<Rightarrow> 0 | Some r \<Rightarrow> o_quantity r)"

text \<open>A level that represents the queue \<open>ps\<close>; its total is a value of its type.\<close>

definition level_rep :: "heap \<Rightarrow> price_level \<Rightarrow> ptr list \<Rightarrow> bool" where
  "level_rep h l ps \<longleftrightarrow>
     distinct ps \<and> l_head l = first_opt ps \<and> l_tail l = last_opt ps \<and> seg h None ps None \<and>
     (\<forall>p \<in> set ps. 0 \<le> qty_at h p) \<and> total_qty l = (\<Sum>p\<leftarrow>ps. qty_at h p) \<and> total_qty l < 2 ^ 63"

text \<open>What an order carries beside its links: no operation of a level changes it but \<open>reduce_head\<close>.\<close>

definition payload :: "order \<Rightarrow> order" where
  "payload r = r\<lparr>o_prev := None, o_next := None\<rparr>"

definition data :: "heap \<Rightarrow> ptr \<rightharpoonup> order" where
  "data h p = map_option payload (h p)"

section \<open>Segments\<close>

lemma seg_append:
  "seg h a (xs @ ys) b \<longleftrightarrow>
     seg h a xs (if ys = [] then b else first_opt ys) \<and>
     seg h (if xs = [] then a else last_opt xs) ys b"
  by (induction xs arbitrary: a) (auto split: option.splits)

lemma seg_alive: "seg h a ps b \<Longrightarrow> p \<in> set ps \<Longrightarrow> \<exists>r. h p = Some r"
  by (induction ps arbitrary: a) (auto split: option.splits)

text \<open>Frame rule: a segment only depends on the links of its own orders.\<close>

lemma seg_cong:
  assumes "\<And>p. p \<in> set ps \<Longrightarrow>
      map_option (\<lambda>r. (o_prev r, o_next r)) (h' p) = map_option (\<lambda>r. (o_prev r, o_next r)) (h p)"
  shows "seg h' a ps b = seg h a ps b"
  using assms
proof (induction ps arbitrary: a)
  case Nil
  then show ?case by simp
next
  case (Cons p ps)
  from Cons.prems[of p] have p:
    "map_option (\<lambda>r. (o_prev r, o_next r)) (h' p) = map_option (\<lambda>r. (o_prev r, o_next r)) (h p)"
    by simp
  from Cons have "seg h' (Some p) ps b = seg h (Some p) ps b" by simp
  with p show ?case by (cases "h p"; cases "h' p") auto
qed

lemma seg_upd_other [simp]: "p \<notin> set ps \<Longrightarrow> seg (h(p := v)) a ps b = seg h a ps b"
  by (rule seg_cong) auto

lemma qty_at_upd: "qty_at (h(p := v)) q = (if q = p then (case v of None \<Rightarrow> 0 | Some r \<Rightarrow> o_quantity r) else qty_at h q)"
  by (simp add: qty_at_def)

lemma sum_qty_cong: "(\<And>p. p \<in> set ps \<Longrightarrow> qty_at h' p = qty_at h p) \<Longrightarrow>
    (\<Sum>p\<leftarrow>ps. qty_at h' p) = (\<Sum>p\<leftarrow>ps. qty_at h p)"
  by (rule arg_cong [where f = sum_list]) simp

lemma level_rep_cong:
  assumes "\<And>p. p \<in> set ps \<Longrightarrow> h' p = h p"
  shows "level_rep h' l ps = level_rep h l ps"
proof -
  have "seg h' None ps None = seg h None ps None"
    by (rule seg_cong) (simp add: assms)
  moreover have "(\<Sum>p\<leftarrow>ps. qty_at h' p) = (\<Sum>p\<leftarrow>ps. qty_at h p)"
    by (rule sum_qty_cong) (simp add: assms qty_at_def)
  moreover have "(\<forall>p \<in> set ps. 0 \<le> qty_at h' p) \<longleftrightarrow> (\<forall>p \<in> set ps. 0 \<le> qty_at h p)"
    using assms by (auto simp: qty_at_def)
  ultimately show ?thesis by (simp add: level_rep_def)
qed

lemma level_rep_unique: "level_rep h l ps \<Longrightarrow> level_rep h l qs \<Longrightarrow> ps = qs"
proof -
  have "seg h a ps None \<Longrightarrow> seg h a qs None \<Longrightarrow> first_opt ps = first_opt qs \<Longrightarrow> ps = qs" for a
  proof (induction ps arbitrary: a qs)
    case Nil
    then show ?case by (cases qs) auto
  next
    case (Cons p ps)
    from Cons.prems(3) obtain qs' where qs: "qs = p # qs'" by (cases qs) auto
    from Cons.prems(1,2) qs have s: "seg h (Some p) ps None" "seg h (Some p) qs' None"
      and "(if ps = [] then None else first_opt ps) = (if qs' = [] then None else first_opt qs')"
      by (auto split: option.splits)
    then have "first_opt ps = first_opt qs'" by (auto split: if_splits)
    with s Cons.IH qs show ?case by blast
  qed
  then show "level_rep h l ps \<Longrightarrow> level_rep h l qs \<Longrightarrow> ps = qs"
    by (auto simp: level_rep_def)
qed

lemma level_rep_empty_level [simp]: "level_rep h (empty_level p) []"
  by (simp add: level_rep_def empty_level_def)

lemma level_rep_empty_iff: "level_rep h l ps \<Longrightarrow> level_empty l \<longleftrightarrow> ps = []"
  by (auto simp: level_rep_def level_empty_def)

lemma level_rep_alive: "level_rep h l ps \<Longrightarrow> p \<in> set ps \<Longrightarrow> \<exists>r. h p = Some r"
  by (auto simp: level_rep_def dest: seg_alive)

section \<open>Payloads\<close>

lemma payload_sel [simp]:
  "o_id (payload r) = o_id r" "o_side (payload r) = o_side r" "o_price (payload r) = o_price r"
  "o_quantity (payload r) = o_quantity r" "o_timestamp (payload r) = o_timestamp r"
  by (simp_all add: payload_def)

lemma payload_links [simp]:
  "payload (r\<lparr>o_prev := x\<rparr>) = payload r" "payload (r\<lparr>o_next := y\<rparr>) = payload r"
  by (simp_all add: payload_def)

lemma payload_eqD:
  assumes "payload r = payload r'"
  shows "o_id r = o_id r'" "o_side r = o_side r'" "o_price r = o_price r'"
    "o_quantity r = o_quantity r'" "o_timestamp r = o_timestamp r'"
  using assms by (metis payload_sel)+

lemma data_upd: "data (h(p := v)) = (data h)(p := map_option payload v)"
  by (auto simp: data_def)

lemma data_upd_same: "h p = Some r \<Longrightarrow> payload r' = payload r \<Longrightarrow> data (h(p \<mapsto> r')) = data h"
  by (auto simp: data_def)

lemma data_eq_Some: "data h' = data h \<Longrightarrow> h p = Some r \<Longrightarrow> \<exists>r'. h' p = Some r' \<and> payload r' = payload r"
  by (drule fun_cong [where x = p]) (auto simp: data_def)

lemma data_qty_at: "data h' = data h \<Longrightarrow> qty_at h' = qty_at h"
  by (rule ext, drule_tac x = x in fun_cong)
    (auto simp: data_def qty_at_def split: option.splits dest: payload_eqD)

section \<open>Effect of the operations\<close>

lemma sum_qty_nonneg: "\<forall>p \<in> set ps. 0 \<le> qty_at h p \<Longrightarrow> 0 \<le> (\<Sum>p\<leftarrow>ps. qty_at h p)"
  by (intro sum_list_nonneg) auto

lemma level_rep_total: "level_rep h l ps \<Longrightarrow> 0 \<le> total_qty l \<and> total_qty l < 2 ^ 63"
  by (simp add: level_rep_def sum_qty_nonneg)

lemma push_back_rep:
  assumes rep: "level_rep h l ps" and new: "p \<notin> set ps" and alive: "h p = Some r"
    and qty: "0 \<le> o_quantity r" "total_qty l + o_quantity r < 2 ^ 63"
  shows "\<exists>h' l'. push_back h l p = Some (h', l') \<and> level_rep h' l' (ps @ [p]) \<and>
    l_price l' = l_price l \<and> data h' = data h \<and> (\<forall>q. q \<notin> set (ps @ [p]) \<longrightarrow> h' q = h q)"
proof (cases ps rule: rev_cases)
  case Nil
  with rep alive qty show ?thesis
    by (auto simp: level_rep_def push_back_def mem_simps qty_at_def data_upd_same checked64_def fits_int64_nonneg)
next
  case (snoc qs t)
  from rep snoc obtain rt where rt: "h t = Some rt" by (auto dest: level_rep_alive)
  let ?h1 = "h(p \<mapsto> r\<lparr>o_prev := Some t, o_next := None\<rparr>)"
  let ?h2 = "?h1(t \<mapsto> rt\<lparr>o_next := Some p\<rparr>)"
  let ?l = "l\<lparr>l_tail := Some p, total_qty := total_qty l + o_quantity r\<rparr>"
  from new snoc have "t \<noteq> p" "p \<notin> set qs" by auto
  from rep snoc have d: "t \<notin> set qs" by (simp add: level_rep_def)
  have "fits_int64 (total_qty l + o_quantity r)"
    using qty level_rep_total [OF rep] by (simp add: fits_int64_nonneg)
  then have run: "push_back h l p = Some (?h2, ?l)"
    using rep snoc alive rt \<open>t \<noteq> p\<close> by (simp add: push_back_def level_rep_def mem_simps checked64_Some)
  have seg: "seg ?h2 None (ps @ [p]) None"
    using rep snoc rt d \<open>t \<noteq> p\<close> \<open>p \<notin> set qs\<close>
    by (simp add: level_rep_def seg_append)
  have dat: "data ?h2 = data h"
    using alive rt \<open>t \<noteq> p\<close> by (simp add: data_upd_same)
  have "level_rep ?h2 ?l (ps @ [p])"
    using rep snoc new seg data_qty_at [OF dat] alive qty by (auto simp: level_rep_def qty_at_def)
  with run dat snoc show ?thesis by auto
qed

text \<open>The total overflows when the exact sum does not fit.\<close>

lemma push_back_overflow:
  assumes rep: "level_rep h l ps" and new: "p \<notin> set ps" and alive: "h p = Some r" and qty: "2 ^ 63 \<le> total_qty l + o_quantity r"
  shows "push_back h l p = None"
proof (cases ps rule: rev_cases)
  case Nil
  with rep alive qty show ?thesis by (simp add: level_rep_def push_back_def mem_simps checked64_def fits_int64_def)
next
  case (snoc qs t)
  from rep snoc obtain rt where "h t = Some rt" by (auto dest: level_rep_alive)
  with rep snoc new alive qty show ?thesis by (auto simp: level_rep_def push_back_def mem_simps checked64_def fits_int64_def)
qed

lemma remove_rep:
  assumes rep: "level_rep h l (xs @ p # ys)"
  shows "\<exists>h' l'. remove h l p = Some (h', l') \<and> level_rep h' l' (xs @ ys) \<and>
    l_price l' = l_price l \<and> data h' = data h \<and> (\<forall>q. q \<notin> set (xs @ p # ys) \<longrightarrow> h' q = h q)"
proof -
  from rep obtain r where r: "h p = Some r" by (auto dest: level_rep_alive)
  from rep have dist: "distinct (xs @ p # ys)" by (simp add: level_rep_def)
  from rep r have links: "o_prev r = last_opt xs" "o_next r = first_opt ys"
    by (auto simp: level_rep_def seg_append split: if_splits)
  have alive: "\<And>q. q \<in> set xs \<union> set ys \<Longrightarrow> \<exists>x. h q = Some x"
    using rep by (auto dest: level_rep_alive)
  have tot: "total_qty l - o_quantity r = (\<Sum>q\<leftarrow>xs @ ys. qty_at h q)"
    using rep r by (simp add: level_rep_def qty_at_def)
  have nn: "\<forall>q \<in> set (xs @ ys). 0 \<le> qty_at h q" "0 \<le> o_quantity r" using rep r by (auto simp: level_rep_def qty_at_def [of h p])
  then have lt: "(\<Sum>q\<leftarrow>xs @ ys. qty_at h q) < 2 ^ 63" using tot level_rep_total [OF rep] by linarith
  then have chk: "checked64 (total_qty l - o_quantity r) = Some (\<Sum>q\<leftarrow>xs @ ys. qty_at h q)"
    using sum_qty_nonneg [OF nn(1)] tot by (simp add: checked64_def fits_int64_nonneg)
  let ?dead = "r\<lparr>o_prev := None, o_next := None\<rparr>"
  show ?thesis
  proof (cases xs rule: rev_cases; cases ys)
    assume "xs = []" "ys = []"
    with rep r links chk nn lt show ?thesis
      by (simp add: remove_def level_rep_def mem_simps data_upd_same)
  next
    fix b zs assume xs: "xs = []" and ys: "ys = b # zs"
    from alive ys obtain rb where rb: "h b = Some rb" by auto
    let ?h = "h(b \<mapsto> rb\<lparr>o_prev := None\<rparr>, p \<mapsto> ?dead)"
    have dat: "data ?h = data h" using r rb dist ys by (simp add: data_upd_same)
    with rep r rb links chk nn lt dist xs ys data_qty_at [OF dat] show ?thesis
      by (simp add: remove_def level_rep_def mem_simps)
  next
    fix ws a assume xs: "xs = ws @ [a]" and ys: "ys = []"
    from alive xs obtain ra where ra: "h a = Some ra" by auto
    let ?h = "h(a \<mapsto> ra\<lparr>o_next := None\<rparr>, p \<mapsto> ?dead)"
    have dat: "data ?h = data h" using r ra dist xs by (simp add: data_upd_same)
    with rep r ra links chk nn lt dist xs ys data_qty_at [OF dat] show ?thesis
      by (simp add: remove_def level_rep_def mem_simps seg_append)
  next
    fix ws a b zs assume xs: "xs = ws @ [a]" and ys: "ys = b # zs"
    from alive [of a] alive [of b] xs ys
    obtain ra rb where ra: "h a = Some ra" and rb: "h b = Some rb" by auto
    let ?h = "h(a \<mapsto> ra\<lparr>o_next := Some b\<rparr>, b \<mapsto> rb\<lparr>o_prev := Some a\<rparr>, p \<mapsto> ?dead)"
    have dat: "data ?h = data h" using r ra rb dist xs ys by (simp add: data_upd_same)
    with rep r ra rb links chk nn lt dist xs ys data_qty_at [OF dat] show ?thesis
      by (simp add: remove_def level_rep_def mem_simps seg_append)
  qed
qed

lemma reduce_head_rep:
  assumes rep: "level_rep h l (p # ps)" and r: "h p = Some r" and q: "0 \<le> q" "q \<le> o_quantity r"
  shows "\<exists>l'. reduce_head h l q = Some (h(p \<mapsto> r\<lparr>o_quantity := o_quantity r - q\<rparr>), l') \<and>
    level_rep (h(p \<mapsto> r\<lparr>o_quantity := o_quantity r - q\<rparr>)) l' (p # ps) \<and> l_price l' = l_price l"
proof -
  let ?h = "h(p \<mapsto> r\<lparr>o_quantity := o_quantity r - q\<rparr>)"
  have "p \<notin> set ps" using rep by (simp add: level_rep_def)
  then have eq: "\<forall>x \<in> set ps. qty_at ?h x = qty_at h x" "qty_at ?h p = o_quantity r - q" by (auto simp: qty_at_upd)
  then have sum: "(\<Sum>x\<leftarrow>ps. qty_at ?h x) = (\<Sum>x\<leftarrow>ps. qty_at h x)" by (intro sum_qty_cong) simp
  have nn: "\<forall>x \<in> set ps. 0 \<le> qty_at h x" "total_qty l = o_quantity r + (\<Sum>x\<leftarrow>ps. qty_at h x)" "total_qty l < 2 ^ 63"
    using rep r by (auto simp: level_rep_def qty_at_def [of h p])
  have chk: "checked64 (o_quantity r - q) = Some (o_quantity r - q)" "checked64 (total_qty l - q) = Some (total_qty l - q)"
    using q nn sum_qty_nonneg [OF nn(1)] by (simp_all add: checked64_def fits_int64_nonneg)
  have "level_rep ?h (l\<lparr>total_qty := total_qty l - q\<rparr>) (p # ps)"
    using rep r q nn eq sum \<open>p \<notin> set ps\<close> by (simp add: level_rep_def)
  with rep r chk show ?thesis by (simp add: reduce_head_def level_rep_def mem_simps)
qed

end
