(* ===== verification/Level_Tail.thy ===== *)
theory Level_Tail
  imports Price_Level
begin

text \<open>
  The class \<^verbatim>\<open>LevelTail\<close> of \<^verbatim>\<open>include/level_ladder.hpp\<close>: the sorted, preallocated array of the
  price levels of one side that lie outside the ladder's window, worst level first, followed by
  a staging area for a recenter.  The template parameters \<^verbatim>\<open>IsBid\<close>, \<^verbatim>\<open>Capacity\<close> and
  \<^verbatim>\<open>ScratchSize\<close> are the constant fields \<open>t_is_bid\<close>, \<open>t_capacity\<close> and \<open>t_scratch\<close>.  A
  \<^verbatim>\<open>PriceLevel*\<close> into the array is an index.
\<close>

section \<open>State and operations\<close>

record level_tail =
  t_is_bid :: bool
  t_capacity :: nat
  t_scratch :: nat
  t_buf :: "price_level list"
  t_n :: nat
  t_staged :: nat

definition blank_level :: price_level where
  "blank_level = \<lparr>l_price = 0, total_qty = 0, l_head = None, l_tail = None\<rparr>"

definition new_tail :: "bool \<Rightarrow> nat \<Rightarrow> nat \<Rightarrow> level_tail" where
  "new_tail b cap scratch = \<lparr>t_is_bid = b, t_capacity = cap, t_scratch = scratch,
     t_buf = replicate (cap + scratch) blank_level, t_n = 0, t_staged = 0\<rparr>"

definition worse :: "bool \<Rightarrow> price \<Rightarrow> price \<Rightarrow> bool" where
  "worse is_bid a b = (if is_bid then a < b else a > b)"

text \<open>\<^verbatim>\<open>std::lower_bound\<close> on \<open>[first, first + len)\<close>: the binary search of the standard library.\<close>

function lower_bound :: "('a \<Rightarrow> bool) \<Rightarrow> 'a list \<Rightarrow> nat \<Rightarrow> nat \<Rightarrow> nat" where
  "lower_bound lt buf first len =
     (if len = 0 then first
      else let half = len div 2; mid = first + half in
        if lt (buf ! mid) then lower_bound lt buf (mid + 1) (len - half - 1)
        else lower_bound lt buf first half)"
  by pat_completeness auto
termination
  by (relation "measure (\<lambda>(lt, buf, first, len). len)") auto

definition lower :: "level_tail \<Rightarrow> price \<Rightarrow> nat" where
  "lower t price = lower_bound (\<lambda>l. worse (t_is_bid t) (l_price l) price) (t_buf t) 0 (t_n t)"

text \<open>\<^verbatim>\<open>std::move\<close> and \<^verbatim>\<open>std::move_backward\<close> of \<open>[first, stop)\<close> within an array, to start at \<open>dst\<close>.\<close>

definition block_move :: "'a list \<Rightarrow> nat \<Rightarrow> nat \<Rightarrow> nat \<Rightarrow> 'a list" where
  "block_move buf first stop dst =
     take dst buf @ take (stop - first) (drop first buf) @ drop (dst + (stop - first)) buf"

definition tail_empty :: "level_tail \<Rightarrow> bool" where
  "tail_empty t \<longleftrightarrow> t_n t = 0"

definition tail_best :: "level_tail \<Rightarrow> nat option" where
  "tail_best t = (if t_n t = 0 then None else Some (t_n t - 1))"

definition tail_find :: "level_tail \<Rightarrow> price \<Rightarrow> nat option" where
  "tail_find t price = (let i = lower t price in
     if i < t_n t \<and> l_price (t_buf t ! i) = price then Some i else None)"

definition find_or_insert :: "level_tail \<Rightarrow> price \<Rightarrow> (level_tail \<times> nat) option" where
  "find_or_insert t price = (let i = lower t price in
     if i < t_n t \<and> l_price (t_buf t ! i) = price then Some (t, i)
     else if \<not> t_n t < t_capacity t then None
     else let buf = block_move (t_buf t) i (t_n t) (i + 1) in
       Some (t\<lparr>t_buf := buf[i := empty_level price], t_n := t_n t + 1\<rparr>, i))"

definition tail_erase :: "level_tail \<Rightarrow> price \<Rightarrow> level_tail" where
  "tail_erase t price = (let i = lower t price in
     if i < t_n t \<and> l_price (t_buf t ! i) = price
     then t\<lparr>t_buf := block_move (t_buf t) (i + 1) (t_n t) i, t_n := t_n t - 1\<rparr>
     else t)"

definition nth_best :: "level_tail \<Rightarrow> nat \<Rightarrow> price_level" where
  "nth_best t k = t_buf t ! (t_n t - 1 - k)"

definition tail_for_each :: "level_tail \<Rightarrow> (price_level \<Rightarrow> 's \<Rightarrow> 's) \<Rightarrow> 's \<Rightarrow> 's" where
  "tail_for_each t f = fold f (map (\<lambda>i. t_buf t ! i) [0..<t_n t])"

definition stage :: "level_tail \<Rightarrow> price_level \<Rightarrow> level_tail option" where
  "stage t l =
     (if \<not> t_staged t < t_scratch t then None
      else Some (t\<lparr>t_buf := (t_buf t)[t_capacity t + t_staged t := l], t_staged := t_staged t + 1\<rparr>))"

text \<open>
  \<^verbatim>\<open>std::sort\<close> with the comparison \<open>worse\<close>.  Its result is determined because no two staged
  levels have the same price; \<open>price_key\<close> turns the comparison of a side into the order of the
  integers.
\<close>

definition price_key :: "bool \<Rightarrow> price \<Rightarrow> int" where
  "price_key is_bid p = (if is_bid then p else - p)"

definition sort_levels :: "bool \<Rightarrow> price_level list \<Rightarrow> price_level list" where
  "sort_levels is_bid = sort_key (\<lambda>l. price_key is_bid (l_price l))"

text \<open>The backward merge; \<open>s\<close> is where the staging area starts.\<close>

fun merge_loop :: "bool \<Rightarrow> nat \<Rightarrow> price_level list \<Rightarrow> nat \<Rightarrow> nat \<Rightarrow> nat \<Rightarrow> price_level list" where
  "merge_loop b s buf i j out =
     (if j = 0 then buf
      else if 0 < i \<and> worse b (l_price (buf ! (s + (j - 1)))) (l_price (buf ! (i - 1)))
      then merge_loop b s (buf[out - 1 := buf ! (i - 1)]) (i - 1) j (out - 1)
      else merge_loop b s (buf[out - 1 := buf ! (s + (j - 1))]) i (j - 1) (out - 1))"

definition merge_staged :: "level_tail \<Rightarrow> level_tail option" where
  "merge_staged t =
     (if t_staged t = 0 then Some t
      else if \<not> t_n t + t_staged t \<le> t_capacity t then None
      else let c = t_capacity t; k = t_staged t;
               buf = take c (t_buf t) @ sort_levels (t_is_bid t) (take k (drop c (t_buf t))) @
                 drop (c + k) (t_buf t)
        in Some (t\<lparr>t_buf := merge_loop (t_is_bid t) c buf (t_n t) k (t_n t + k),
             t_n := t_n t + k, t_staged := 0\<rparr>))"

text \<open>The loop of \<^verbatim>\<open>extract_range\<close> finds the end of the run of levels with a price in \<open>[lo, hi]\<close>.\<close>

function extract_end :: "price_level list \<Rightarrow> nat \<Rightarrow> price \<Rightarrow> price \<Rightarrow> nat \<Rightarrow> nat" where
  "extract_end buf n lo hi stop =
     (if stop < n \<and> lo \<le> l_price (buf ! stop) \<and> l_price (buf ! stop) \<le> hi
      then extract_end buf n lo hi (stop + 1) else stop)"
  by pat_completeness auto
termination
  by (relation "measure (\<lambda>(buf, n, lo, hi, stop). n - stop)") auto

text \<open>The levels are handed to the callback in array order, before they are removed.\<close>

definition extract_range :: "level_tail \<Rightarrow> price \<Rightarrow> price \<Rightarrow> price_level list \<times> level_tail" where
  "extract_range t lo hi =
     (let first = lower t (if t_is_bid t then lo else hi);
          stop = extract_end (t_buf t) (t_n t) lo hi first
      in (map (\<lambda>i. t_buf t ! i) [first..<stop],
          t\<lparr>t_buf := block_move (t_buf t) stop (t_n t) first, t_n := t_n t - (stop - first)\<rparr>))"

section \<open>Abstraction and invariant\<close>

definition lkey :: "bool \<Rightarrow> price_level \<Rightarrow> int" where
  "lkey b l = price_key b (l_price l)"

definition tail_list :: "level_tail \<Rightarrow> price_level list" where
  "tail_list t = take (t_n t) (t_buf t)"

definition staged_list :: "level_tail \<Rightarrow> price_level list" where
  "staged_list t = take (t_staged t) (drop (t_capacity t) (t_buf t))"

definition tail_shape :: "level_tail \<Rightarrow> bool" where
  "tail_shape t \<longleftrightarrow> length (t_buf t) = t_capacity t + t_scratch t \<and> t_n t \<le> t_capacity t \<and>
     t_staged t \<le> t_scratch t"

definition tail_inv :: "level_tail \<Rightarrow> bool" where
  "tail_inv t \<longleftrightarrow> tail_shape t \<and> sorted_wrt (<) (map (lkey (t_is_bid t)) (tail_list t))"

definition level_map :: "price_level list \<Rightarrow> price \<rightharpoonup> price_level" where
  "level_map ls = map_of (map (\<lambda>l. (l_price l, l)) ls)"

section \<open>Searching\<close>

declare lower_bound.simps [simp del] extract_end.simps [simp del] merge_loop.simps [simp del]

lemma worse_key: "worse b x y \<longleftrightarrow> price_key b x < price_key b y"
  by (simp add: worse_def price_key_def)

lemma price_key_inj [simp]: "price_key b x = price_key b y \<longleftrightarrow> x = y"
  by (simp add: price_key_def)

text \<open>The result of a search in a partitioned range: the first position where the test fails.\<close>

definition partition_point :: "('a \<Rightarrow> bool) \<Rightarrow> 'a list \<Rightarrow> nat \<Rightarrow> nat \<Rightarrow> nat \<Rightarrow> bool" where
  "partition_point lt buf first len r \<longleftrightarrow> first \<le> r \<and> r \<le> first + len \<and>
     (\<forall>i. first \<le> i \<longrightarrow> i < r \<longrightarrow> lt (buf ! i)) \<and> (\<forall>i. r \<le> i \<longrightarrow> i < first + len \<longrightarrow> \<not> lt (buf ! i))"

lemma lower_bound_spec:
  assumes "\<And>i j. first \<le> i \<Longrightarrow> i \<le> j \<Longrightarrow> j < first + len \<Longrightarrow> lt (buf ! j) \<Longrightarrow> lt (buf ! i)"
  shows "partition_point lt buf first len (lower_bound lt buf first len)"
  using assms
proof (induction lt buf first len rule: lower_bound.induct)
  case (1 lt buf first len)
  show ?case
  proof (cases "len = 0")
    case True
    then show ?thesis by (simp add: lower_bound.simps partition_point_def)
  next
    case False
    let ?half = "len div 2" and ?mid = "first + len div 2"
    have mid: "?half < len" using False by simp
    show ?thesis
    proof (cases "lt (buf ! ?mid)")
      case True
      have lo: "lt (buf ! i)" if "first \<le> i" "i \<le> ?mid" for i
        using "1.prems" [of i ?mid] that mid True by simp
      have "partition_point lt buf (?mid + 1) (len - ?half - 1) (lower_bound lt buf (?mid + 1) (len - ?half - 1))"
        using "1.prems" mid by (intro "1.IH"(1) [OF False refl refl True]) auto
      with lo mid False True show ?thesis
        unfolding partition_point_def lower_bound.simps [of lt buf first len]
        by (auto simp: Let_def) (metis Suc_leI linorder_not_le)
    next
      case F: False
      have hi: "\<not> lt (buf ! i)" if "?mid \<le> i" "i < first + len" for i
        using "1.prems" [of ?mid i] that F by auto
      have "partition_point lt buf first ?half (lower_bound lt buf first ?half)"
        using "1.prems" mid by (intro "1.IH"(2) [OF False refl refl F]) auto
      with hi mid False F show ?thesis
        unfolding partition_point_def lower_bound.simps [of lt buf first len]
        by (auto simp: Let_def)
    qed
  qed
qed

lemma tail_nth: "tail_shape t \<Longrightarrow> i < t_n t \<Longrightarrow> tail_list t ! i = t_buf t ! i"
  by (simp add: tail_list_def)

lemma length_tail_list [simp]: "tail_shape t \<Longrightarrow> length (tail_list t) = t_n t"
  by (simp add: tail_list_def tail_shape_def)

lemma tail_sorted_nth:
  assumes "tail_inv t" "i < j" "j < t_n t"
  shows "lkey (t_is_bid t) (t_buf t ! i) < lkey (t_is_bid t) (t_buf t ! j)"
  using assms sorted_wrt_nth_less [of "(<)" "map (lkey (t_is_bid t)) (tail_list t)" i j]
  by (auto simp: tail_inv_def tail_nth)

lemma lower_spec:
  assumes inv: "tail_inv t"
  shows "lower t p \<le> t_n t \<and> (\<forall>i < lower t p. lkey (t_is_bid t) (t_buf t ! i) < price_key (t_is_bid t) p) \<and>
    (\<forall>i. lower t p \<le> i \<longrightarrow> i < t_n t \<longrightarrow> price_key (t_is_bid t) p \<le> lkey (t_is_bid t) (t_buf t ! i))"
proof -
  have "partition_point (\<lambda>l. worse (t_is_bid t) (l_price l) p) (t_buf t) 0 (t_n t) (lower t p)"
    unfolding lower_def
  proof (rule lower_bound_spec)
    fix i j assume "i \<le> j" "j < 0 + t_n t" "worse (t_is_bid t) (l_price (t_buf t ! j)) p"
    moreover from this tail_sorted_nth [OF inv, of i j]
    have "lkey (t_is_bid t) (t_buf t ! i) \<le> lkey (t_is_bid t) (t_buf t ! j)" by (cases "i = j") auto
    ultimately show "worse (t_is_bid t) (l_price (t_buf t ! i)) p"
      by (simp add: worse_key lkey_def)
  qed
  then show ?thesis by (simp add: partition_point_def worse_key lkey_def not_less)
qed

section \<open>Levels as a map from prices\<close>

text \<open>A list of levels that is sorted worst first, with no price twice.\<close>

definition level_sorted :: "bool \<Rightarrow> price_level list \<Rightarrow> bool" where
  "level_sorted b ls \<longleftrightarrow> sorted_wrt (\<lambda>x y. lkey b x < lkey b y) ls"

lemma tail_inv_level_sorted: "tail_inv t \<longleftrightarrow> tail_shape t \<and> level_sorted (t_is_bid t) (tail_list t)"
  by (simp add: tail_inv_def level_sorted_def sorted_wrt_map)

lemma level_sorted_append:
  "level_sorted b (xs @ ys) \<longleftrightarrow> level_sorted b xs \<and> level_sorted b ys \<and>
     (\<forall>x \<in> set xs. \<forall>y \<in> set ys. lkey b x < lkey b y)"
  by (simp add: level_sorted_def sorted_wrt_append)

lemma level_sorted_Cons:
  "level_sorted b (x # xs) \<longleftrightarrow> (\<forall>y \<in> set xs. lkey b x < lkey b y) \<and> level_sorted b xs"
  by (simp add: level_sorted_def)

lemma level_sorted_Nil [simp]: "level_sorted b []"
  by (simp add: level_sorted_def)

lemma level_sorted_distinct: "level_sorted b ls \<Longrightarrow> distinct (map l_price ls)"
  by (induction ls) (auto simp: level_sorted_Cons lkey_def)

lemma level_map_Some_iff:
  "distinct (map l_price ls) \<Longrightarrow> level_map ls p = Some l \<longleftrightarrow> l \<in> set ls \<and> l_price l = p"
  unfolding level_map_def by (subst map_of_eq_Some_iff) (auto simp: o_def)

lemma level_map_simps [simp]:
  "level_map [] = Map.empty" "level_map (l # ls) = (level_map ls)(l_price l \<mapsto> l)"
  by (auto simp: level_map_def)

lemma level_map_None_iff: "level_map ls p = None \<longleftrightarrow> (\<forall>l \<in> set ls. l_price l \<noteq> p)"
  by (induction ls) auto

lemma level_map_price: "level_map ls p = Some l \<Longrightarrow> l_price l = p"
  by (auto simp: level_map_def dest!: map_of_SomeD)

lemma dom_level_map: "dom (level_map ls) = l_price ` set ls"
  by (auto simp: level_map_def dom_map_of_conv_image_fst image_image)

lemma level_map_split: "l_price l \<notin> l_price ` set xs \<Longrightarrow>
    level_map (xs @ l # ys) = (level_map (xs @ ys))(l_price l \<mapsto> l)"
  by (induction xs) (auto simp: fun_upd_twist)

lemma level_map_sorted_split:
  "level_sorted b (xs @ l # ys) \<Longrightarrow> level_map (xs @ l # ys) = (level_map (xs @ ys))(l_price l \<mapsto> l)"
  by (rule level_map_split) (auto simp: level_sorted_append lkey_def)

section \<open>Moving blocks\<close>

lemma length_block_move:
  "stop \<le> length buf \<Longrightarrow> dst + (stop - first) \<le> length buf \<Longrightarrow> length (block_move buf first stop dst) = length buf"
  by (simp add: block_move_def)

lemma block_move_insert:
  "i \<le> n \<Longrightarrow> n < length buf \<Longrightarrow>
     take (Suc n) ((block_move buf i n (Suc i))[i := v]) = take i buf @ v # drop i (take n buf)"
proof -
  assume i: "i \<le> n" "n < length buf"
  then have "take (Suc i) buf = take i buf @ [buf ! i]" by (simp add: take_Suc_conv_app_nth)
  with i have "(block_move buf i n (Suc i))[i := v] = take i buf @ v # take (n - i) (drop i buf) @ drop (Suc n) buf"
    by (simp add: block_move_def list_update_append)
  with i show ?thesis by (simp add: drop_take Suc_diff_le)
qed

lemma block_move_down:
  "first \<le> stop \<Longrightarrow> stop \<le> n \<Longrightarrow> n \<le> length buf \<Longrightarrow>
     take (n - (stop - first)) (block_move buf stop n first) = take first buf @ drop stop (take n buf)"
proof -
  assume *: "first \<le> stop" "stop \<le> n" "n \<le> length buf"
  let ?a = "take first buf" and ?b = "take (n - stop) (drop stop buf)"
  have len: "length (?a @ ?b) = n - (stop - first)" using * by simp
  have "block_move buf stop n first = (?a @ ?b) @ drop (first + (n - stop)) buf"
    by (simp add: block_move_def)
  then have "take (n - (stop - first)) (block_move buf stop n first) = ?a @ ?b"
    using len by (metis append_eq_conv_conj)
  then show ?thesis by (simp add: drop_take)
qed

section \<open>Effect of the operations\<close>

lemma tail_split:
  assumes inv: "tail_inv t"
  shows "tail_list t = take (lower t p) (t_buf t) @ drop (lower t p) (tail_list t)"
    and "\<forall>l \<in> set (take (lower t p) (t_buf t)). lkey (t_is_bid t) l < price_key (t_is_bid t) p"
    and "\<forall>l \<in> set (drop (lower t p) (tail_list t)). price_key (t_is_bid t) p \<le> lkey (t_is_bid t) l"
proof -
  note L = lower_spec [OF inv, of p]
  have len: "t_n t \<le> length (t_buf t)" using inv by (simp add: tail_inv_def tail_shape_def)
  have "take (lower t p) (t_buf t) = take (lower t p) (tail_list t)"
    using L by (simp add: tail_list_def min_def)
  then show "tail_list t = take (lower t p) (t_buf t) @ drop (lower t p) (tail_list t)"
    by (simp only: append_take_drop_id)
  show "\<forall>l \<in> set (take (lower t p) (t_buf t)). lkey (t_is_bid t) l < price_key (t_is_bid t) p"
    using L len by (auto simp: in_set_conv_nth)
  show "\<forall>l \<in> set (drop (lower t p) (tail_list t)). price_key (t_is_bid t) p \<le> lkey (t_is_bid t) l"
    using L len by (auto simp: in_set_conv_nth tail_list_def)
qed

lemma tail_find_spec:
  assumes inv: "tail_inv t"
  shows "case tail_find t p of
      None \<Rightarrow> level_map (tail_list t) p = None \<and>
        (lower t p < t_n t \<longrightarrow> l_price (t_buf t ! lower t p) \<noteq> p)
    | Some i \<Rightarrow> i = lower t p \<and> i < t_n t \<and> l_price (t_buf t ! i) = p \<and>
        level_map (tail_list t) p = Some (t_buf t ! i)"
proof (cases "lower t p < t_n t \<and> l_price (t_buf t ! lower t p) = p")
  case True
  have len: "t_n t \<le> length (t_buf t)" using inv by (simp add: tail_inv_def tail_shape_def)
  have "t_buf t ! lower t p \<in> set (tail_list t)"
    using True len by (auto simp: tail_list_def in_set_conv_nth)
  moreover have "distinct (map l_price (tail_list t))"
    using inv level_sorted_distinct by (auto simp: tail_inv_level_sorted)
  ultimately show ?thesis using True by (simp add: tail_find_def Let_def level_map_Some_iff)
next
  case False
  have "l_price l \<noteq> p" if l: "l \<in> set (tail_list t)" for l
  proof
    assume eq: "l_price l = p"
    from l inv obtain i where i: "i < t_n t" "l = t_buf t ! i"
      by (auto simp: tail_inv_def in_set_conv_nth tail_nth)
    then have k: "lkey (t_is_bid t) (t_buf t ! i) = price_key (t_is_bid t) p"
      using eq by (simp add: lkey_def)
    with lower_spec [OF inv, of p] have "lower t p \<le> i" by (metis less_irrefl not_le)
    moreover have "i \<noteq> lower t p" using False i eq by auto
    ultimately have "lkey (t_is_bid t) (t_buf t ! lower t p) < price_key (t_is_bid t) p"
      using tail_sorted_nth [OF inv, of "lower t p" i] i(1) k by simp
    with lower_spec [OF inv, of p] \<open>lower t p \<le> i\<close> i(1) show False by fastforce
  qed
  with False show ?thesis by (auto simp: tail_find_def Let_def level_map_None_iff)
qed

text \<open>The parameters and the staging area are not touched by insertion and deletion.\<close>

definition tail_same :: "level_tail \<Rightarrow> level_tail \<Rightarrow> bool" where
  "tail_same t t' \<longleftrightarrow> t_is_bid t' = t_is_bid t \<and> t_capacity t' = t_capacity t \<and>
     t_scratch t' = t_scratch t \<and> t_staged t' = t_staged t"

lemma find_or_insert_hit:
  assumes inv: "tail_inv t" and mem: "level_map (tail_list t) p = Some l"
  shows "\<exists>i. find_or_insert t p = Some (t, i) \<and> i < t_n t \<and> t_buf t ! i = l"
  using tail_find_spec [OF inv, of p] mem
  by (auto simp: find_or_insert_def tail_find_def Let_def split: if_splits)

lemma find_or_insert_new:
  assumes inv: "tail_inv t" and new: "level_map (tail_list t) p = None" and room: "t_n t < t_capacity t"
  shows "\<exists>t' i. find_or_insert t p = Some (t', i) \<and> tail_inv t' \<and> i < t_n t' \<and>
    t_buf t' ! i = empty_level p \<and> t_n t' = t_n t + 1 \<and> tail_same t t' \<and>
    level_map (tail_list t') = (level_map (tail_list t))(p \<mapsto> empty_level p)"
proof -
  let ?i = "lower t p" and ?n = "t_n t"
  let ?buf = "(block_move (t_buf t) ?i ?n (Suc ?i))[?i := empty_level p]"
  let ?t = "t\<lparr>t_buf := ?buf, t_n := ?n + 1\<rparr>"
  let ?xs = "take ?i (t_buf t)" and ?ys = "drop ?i (tail_list t)"
  note sp = tail_split [OF inv, of p]
  from inv have shape: "tail_shape t" and sorted: "level_sorted (t_is_bid t) (?xs @ ?ys)"
    using sp(1) by (auto simp: tail_inv_level_sorted)
  have i: "?i \<le> ?n" using lower_spec [OF inv] by blast
  have miss: "\<not> (?i < ?n \<and> l_price (t_buf t ! ?i) = p)"
    using tail_find_spec [OF inv, of p] new by (auto simp: tail_find_def Let_def split: if_splits)
  then have run: "find_or_insert t p = Some (?t, ?i)"
    using room by (auto simp: find_or_insert_def Let_def)
  have len: "length (block_move (t_buf t) ?i ?n (Suc ?i)) = length (t_buf t)"
    using i shape room by (intro length_block_move) (auto simp: tail_shape_def)
  have lst: "tail_list ?t = ?xs @ empty_level p # ?ys"
    using block_move_insert [OF i, of "t_buf t" "empty_level p"] shape room
    by (simp add: tail_list_def tail_shape_def)
  have ys: "price_key (t_is_bid t) p < lkey (t_is_bid t) l" if "l \<in> set ?ys" for l
  proof -
    from that new have "l_price l \<noteq> p" by (auto simp: level_map_None_iff dest: in_set_dropD)
    with that sp(3) show ?thesis by (force simp: lkey_def order_le_less)
  qed
  have srt: "level_sorted (t_is_bid t) (?xs @ empty_level p # ?ys)"
    using sorted sp(2) ys by (auto simp: level_sorted_append level_sorted_Cons lkey_def empty_level_def)
  then have inv': "tail_inv ?t"
    using shape room len lst by (simp add: tail_inv_level_sorted tail_shape_def)
  have "level_map (tail_list ?t) = (level_map (tail_list t))(p \<mapsto> empty_level p)"
    using level_map_sorted_split [OF srt] lst sp(1) by (simp add: empty_level_def)
  moreover have "?buf ! ?i = empty_level p"
    using i len shape room by (simp add: tail_shape_def)
  ultimately show ?thesis using run inv' i by (auto simp: tail_same_def)
qed

lemma tail_erase_ok:
  assumes inv: "tail_inv t" and mem: "level_map (tail_list t) p = Some l"
  shows "tail_inv (tail_erase t p) \<and> t_n t = t_n (tail_erase t p) + 1 \<and> tail_same t (tail_erase t p) \<and>
    level_map (tail_list (tail_erase t p)) = (level_map (tail_list t))(p := None)"
proof -
  let ?i = "lower t p" and ?n = "t_n t"
  let ?t = "t\<lparr>t_buf := block_move (t_buf t) (Suc ?i) ?n ?i, t_n := ?n - 1\<rparr>"
  let ?xs = "take ?i (t_buf t)" and ?ys = "drop (Suc ?i) (tail_list t)"
  have hit: "?i < ?n" "l_price (t_buf t ! ?i) = p"
    using tail_find_spec [OF inv, of p] mem by (auto simp: tail_find_def Let_def split: if_splits)
  then have run: "tail_erase t p = ?t" by (simp add: tail_erase_def Let_def)
  from inv have shape: "tail_shape t" by (simp add: tail_inv_def)
  have old: "tail_list t = ?xs @ (t_buf t ! ?i) # ?ys"
    using tail_split(1) [OF inv, of p] hit(1) shape
    by (metis Cons_nth_drop_Suc length_tail_list tail_nth)
  have new: "tail_list ?t = ?xs @ ?ys"
    using block_move_down [of ?i "Suc ?i" ?n "t_buf t"] hit(1) shape
    by (simp add: tail_list_def tail_shape_def)
  have len: "length (block_move (t_buf t) (Suc ?i) ?n ?i) = length (t_buf t)"
    using hit(1) shape by (intro length_block_move) (auto simp: tail_shape_def)
  have srt: "level_sorted (t_is_bid t) (?xs @ (t_buf t ! ?i) # ?ys)"
    using inv old by (simp add: tail_inv_level_sorted)
  then have inv': "tail_inv ?t"
    using shape len new
    by (auto simp: tail_inv_level_sorted tail_shape_def level_sorted_append level_sorted_Cons)
  have "level_map (?xs @ ?ys) p = None"
    using srt hit(2) by (auto simp: level_map_None_iff level_sorted_append level_sorted_Cons lkey_def)
  then have "level_map (tail_list ?t) = (level_map (tail_list t))(p := None)"
    using level_map_sorted_split [OF srt] old new hit(2) by (simp add: fun_upd_idem)
  with run inv' hit(1) show ?thesis by (simp add: tail_same_def)
qed

text \<open>Writing a level back under its own price.\<close>

lemma tail_write_ok:
  assumes inv: "tail_inv t" and i: "i < t_n t" and same: "l_price l = l_price (t_buf t ! i)"
  shows "tail_inv (t\<lparr>t_buf := (t_buf t)[i := l]\<rparr>) \<and>
    level_map (tail_list (t\<lparr>t_buf := (t_buf t)[i := l]\<rparr>)) = (level_map (tail_list t))(l_price l \<mapsto> l)"
proof -
  let ?t = "t\<lparr>t_buf := (t_buf t)[i := l]\<rparr>"
  let ?xs = "take i (tail_list t)" and ?ys = "drop (Suc i) (tail_list t)"
  from inv have shape: "tail_shape t" by (simp add: tail_inv_def)
  have len: "i < length (tail_list t)" using shape i by simp
  have old: "tail_list t = ?xs @ (t_buf t ! i) # ?ys"
    using id_take_nth_drop [OF len] shape i by (simp add: tail_nth)
  have new: "tail_list ?t = ?xs @ l # ?ys"
    using upd_conv_take_nth_drop [OF len, of l] by (simp add: tail_list_def take_update_swap)
  have srt: "level_sorted (t_is_bid t) (?xs @ (t_buf t ! i) # ?ys)"
    using inv old by (simp add: tail_inv_level_sorted)
  then have srt': "level_sorted (t_is_bid t) (?xs @ l # ?ys)"
    using same by (simp add: level_sorted_append level_sorted_Cons lkey_def)
  then have "tail_inv ?t"
    using shape new by (simp add: tail_inv_level_sorted tail_shape_def)
  moreover have "level_map (tail_list ?t) = (level_map (tail_list t))(l_price l \<mapsto> l)"
    using level_map_sorted_split [OF srt] level_map_sorted_split [OF srt'] old new same by simp
  ultimately show ?thesis by blast
qed

lemma tail_best_spec:
  assumes inv: "tail_inv t"
  shows "case tail_best t of
      None \<Rightarrow> level_map (tail_list t) = Map.empty
    | Some i \<Rightarrow> i < t_n t \<and> level_map (tail_list t) (l_price (t_buf t ! i)) = Some (t_buf t ! i) \<and>
        (\<forall>p \<in> dom (level_map (tail_list t)). price_key (t_is_bid t) p \<le> lkey (t_is_bid t) (t_buf t ! i))"
proof (cases "t_n t = 0")
  case True
  then show ?thesis by (simp add: tail_best_def tail_list_def)
next
  case False
  let ?i = "t_n t - 1"
  from inv have shape: "tail_shape t" by (simp add: tail_inv_def)
  have "lkey (t_is_bid t) l \<le> lkey (t_is_bid t) (t_buf t ! ?i)" if "l \<in> set (tail_list t)" for l
  proof -
    from that shape obtain k where k: "k < t_n t" "l = t_buf t ! k"
      by (auto simp: in_set_conv_nth tail_nth)
    then consider "k < ?i" | "k = ?i" by linarith
    then show ?thesis using tail_sorted_nth [OF inv, of k ?i] k False by cases auto
  qed
  moreover have "t_buf t ! ?i \<in> set (tail_list t)"
    using False shape by (metis One_nat_def diff_less length_tail_list neq0_conv nth_mem tail_nth zero_less_one)
  moreover have "distinct (map l_price (tail_list t))"
    using inv level_sorted_distinct by (auto simp: tail_inv_level_sorted)
  ultimately show ?thesis
    using False by (auto simp: tail_best_def level_map_Some_iff dom_level_map lkey_def)
qed

section \<open>Staging and merging\<close>

text \<open>The merge seen from the back of the array: both lists best level first.\<close>

fun merge_best :: "bool \<Rightarrow> price_level list \<Rightarrow> price_level list \<Rightarrow> price_level list" where
  "merge_best b xs [] = xs"
| "merge_best b [] ys = ys"
| "merge_best b (x # xs) (y # ys) =
     (if lkey b y < lkey b x then x # merge_best b xs (y # ys) else y # merge_best b (x # xs) ys)"

lemma merge_best_Nil [simp]: "merge_best b [] ys = ys"
  by (cases ys) simp_all

lemma mset_merge_best: "mset (merge_best b xs ys) = mset xs + mset ys"
  by (induction b xs ys rule: merge_best.induct) auto

lemma set_merge_best: "set (merge_best b xs ys) = set xs \<union> set ys"
  by (metis mset_merge_best set_mset_mset set_mset_union)

lemma sorted_merge_best:
  "sorted_wrt (\<lambda>x y. lkey b y < lkey b x) xs \<Longrightarrow> sorted_wrt (\<lambda>x y. lkey b y < lkey b x) ys \<Longrightarrow>
     lkey b ` set xs \<inter> lkey b ` set ys = {} \<Longrightarrow>
     sorted_wrt (\<lambda>x y. lkey b y < lkey b x) (merge_best b xs ys)"
proof (induction b xs ys rule: merge_best.induct)
  case (3 b x xs y ys)
  have ne: "lkey b x \<noteq> lkey b y" using 3(5) by auto
  show ?case
  proof (cases "lkey b y < lkey b x")
    case True
    with 3 have "sorted_wrt (\<lambda>x y. lkey b y < lkey b x) (merge_best b xs (y # ys))" by auto
    moreover have "\<forall>z \<in> set xs \<union> set (y # ys). lkey b z < lkey b x"
      using 3(3,4) True by auto
    ultimately show ?thesis using True by (simp add: set_merge_best)
  next
    case False
    with 3 have "sorted_wrt (\<lambda>x y. lkey b y < lkey b x) (merge_best b (x # xs) ys)" by auto
    moreover have "\<forall>z \<in> set (x # xs) \<union> set ys. lkey b z < lkey b y"
      using 3(3,4) False ne by auto
    ultimately show ?thesis using False by (simp add: set_merge_best)
  qed
qed auto

lemma take_Suc_last: "k < length xs \<Longrightarrow> rev (take (Suc k) xs) = xs ! k # rev (take k xs)"
  by (simp add: take_Suc_conv_app_nth)

text \<open>One turn of the loop writes the better of the two last elements.\<close>

lemma merge_turn:
  assumes ij: "i + Suc j = Suc k" and le: "s + Suc j \<le> length buf" "Suc k \<le> s"
  shows "\<exists>v i2 j2. k = i2 + j2 \<and> j2 \<le> Suc j \<and>
    merge_loop b s buf i (Suc j) (Suc k) = merge_loop b s (buf[k := v]) i2 j2 (i2 + j2) \<and>
    v # merge_best b (rev (take i2 buf)) (rev (take j2 (drop s buf))) = merge_best b (rev (take i buf)) (rev (take (Suc j) (drop s buf)))"
proof -
  let ?y = "buf ! (s + j)"
  have y: "rev (take (Suc j) (drop s buf)) = ?y # rev (take j (drop s buf))" using le by (simp add: take_Suc_last)
  show ?thesis
  proof (cases "0 < i \<and> lkey b ?y < lkey b (buf ! (i - 1))")
    case True
    then obtain i' where i: "i = Suc i'" by (cases i) auto
    then have x: "rev (take i buf) = buf ! i' # rev (take i' buf)" using ij le by (simp add: take_Suc_last)
    have "merge_loop b s buf i (Suc j) (Suc k) = merge_loop b s (buf[k := buf ! i']) i' (Suc j) k"
      using True i by (subst merge_loop.simps) (simp add: worse_key lkey_def)
    with True i x y ij show ?thesis by (intro exI [of _ "buf ! i'"] exI [of _ i'] exI [of _ "Suc j"]) simp
  next
    case False
    then have "merge_loop b s buf i (Suc j) (Suc k) = merge_loop b s (buf[k := ?y]) i j k"
      by (subst merge_loop.simps, simp add: worse_key lkey_def) blast
    moreover have "?y # merge_best b (rev (take i buf)) (rev (take j (drop s buf))) = merge_best b (rev (take i buf)) (?y # rev (take j (drop s buf)))"
    proof (cases i)
      case (Suc i')
      then have "rev (take i buf) = buf ! i' # rev (take i' buf)" using ij le by (simp add: take_Suc_last)
      with False Suc show ?thesis by simp
    qed simp
    ultimately show ?thesis using y ij by (intro exI [of _ ?y] exI [of _ i] exI [of _ j]) simp
  qed
qed

lemma merge_loop_eq:
  assumes "s + j \<le> length buf" "i + j \<le> s"
  shows "length (merge_loop b s buf i j (i + j)) = length buf \<and>
    drop (i + j) (merge_loop b s buf i j (i + j)) = drop (i + j) buf \<and>
    rev (take (i + j) (merge_loop b s buf i j (i + j))) =
      merge_best b (rev (take i buf)) (rev (take j (drop s buf)))"
  using assms
proof (induction "i + j" arbitrary: i j buf)
  case 0
  then show ?case by (simp add: merge_loop.simps)
next
  case step: (Suc k)
  show ?case
  proof (cases j)
    case 0
    then show ?thesis by (simp add: merge_loop.simps)
  next
    case (Suc j')
    have ij: "i + Suc j' = Suc k" using step.hyps(2) Suc by simp
    from merge_turn [OF ij, of s buf b] step.prems Suc ij obtain v i2 j2 where t: "k = i2 + j2" "j2 \<le> Suc j'"
      "merge_loop b s buf i (Suc j') (Suc k) = merge_loop b s (buf[k := v]) i2 j2 (i2 + j2)"
      "v # merge_best b (rev (take i2 buf)) (rev (take j2 (drop s buf))) = merge_best b (rev (take i buf)) (rev (take (Suc j') (drop s buf)))" by auto
    let ?m = "merge_loop b s (buf[k := v]) i2 j2 (i2 + j2)"
    have k2: "k < s" "k < length buf" "i2 \<le> k" "s + j2 \<le> length (buf[k := v])" "i2 + j2 \<le> s"
      using ij step.prems Suc t(1,2) by simp_all
    have IH: "length ?m = length buf" "drop k ?m = drop k (buf[k := v])"
      "rev (take k ?m) = merge_best b (rev (take i2 (buf[k := v]))) (rev (take j2 (drop s (buf[k := v]))))"
      using step.hyps(1) [OF t(1) k2(4,5)] unfolding t(1) [symmetric] by auto
    have mk: "?m ! k = v" using IH(1,2) k2(2) by (metis hd_drop_conv_nth length_list_update nth_list_update_eq)
    have "drop (Suc k) ?m = drop (Suc k) buf" using arg_cong [OF IH(2), of "drop 1"] by simp
    moreover have "rev (take (Suc k) ?m) = v # merge_best b (rev (take i2 buf)) (rev (take j2 (drop s buf)))"
      using IH(1,3) mk k2 by (simp add: take_Suc_last)
    ultimately show ?thesis using t(3,4) IH(1) ij Suc by simp
  qed
qed

lemma stage_ok:
  assumes "tail_shape t" "t_staged t < t_scratch t"
  shows "\<exists>t'. stage t l = Some t' \<and> tail_shape t' \<and> tail_list t' = tail_list t \<and>
    staged_list t' = staged_list t @ [l] \<and> t_staged t' = t_staged t + 1 \<and> t_n t' = t_n t \<and>
    t_is_bid t' = t_is_bid t \<and> t_capacity t' = t_capacity t \<and> t_scratch t' = t_scratch t"
  using assms
  by (auto simp: stage_def tail_shape_def tail_list_def staged_list_def take_Suc_conv_app_nth drop_update_swap)

lemma level_map_add:
  assumes "distinct (map l_price zs)" "distinct (map l_price xs)" "distinct (map l_price ys)"
    "set zs = set xs \<union> set ys" "l_price ` set xs \<inter> l_price ` set ys = {}"
  shows "level_map zs = level_map xs ++ level_map ys"
proof (rule map_eqI)
  fix p l
  have "level_map zs p = Some l \<longleftrightarrow> (l \<in> set xs \<or> l \<in> set ys) \<and> l_price l = p"
    using assms by (simp add: level_map_Some_iff)
  also have "\<dots> \<longleftrightarrow> (level_map xs ++ level_map ys) p = Some l"
    using assms by (auto simp: map_add_Some_iff level_map_Some_iff level_map_None_iff)
  finally show "level_map zs p = Some l \<longleftrightarrow> (level_map xs ++ level_map ys) p = Some l" .
qed

lemma sort_levels_props:
  assumes "distinct (map l_price ls)"
  shows "level_sorted b (sort_levels b ls)" "set (sort_levels b ls) = set ls"
    "length (sort_levels b ls) = length ls"
proof -
  have "distinct (map (lkey b) (sort_levels b ls))"
    using assms by (auto simp: sort_levels_def distinct_map inj_on_def lkey_def)
  moreover have "sorted (map (lkey b) (sort_levels b ls))"
    unfolding sort_levels_def lkey_def [abs_def] by (rule sorted_sort_key)
  ultimately have "sorted_wrt (<) (map (lkey b) (sort_levels b ls))"
    by (simp add: strict_sorted_iff)
  then show "level_sorted b (sort_levels b ls)" by (simp add: level_sorted_def sorted_wrt_map)
qed (simp_all add: sort_levels_def)

lemma merge_staged_ok:
  assumes inv: "tail_inv t" and room: "t_n t + t_staged t \<le> t_capacity t"
    and dist: "distinct (map l_price (staged_list t))"
    and disj: "l_price ` set (tail_list t) \<inter> l_price ` set (staged_list t) = {}"
  shows "\<exists>t'. merge_staged t = Some t' \<and> tail_inv t' \<and> t_staged t' = 0 \<and> t_n t' = t_n t + t_staged t \<and>
    t_is_bid t' = t_is_bid t \<and> t_capacity t' = t_capacity t \<and> t_scratch t' = t_scratch t \<and>
    set (tail_list t') = set (tail_list t) \<union> set (staged_list t) \<and>
    level_map (tail_list t') = level_map (tail_list t) ++ level_map (staged_list t)"
proof (cases "t_staged t = 0")
  case True
  with inv show ?thesis by (simp add: merge_staged_def staged_list_def)
next
  case False
  let ?b = "t_is_bid t" and ?c = "t_capacity t" and ?k = "t_staged t" and ?n = "t_n t"
  let ?s = "sort_levels ?b (staged_list t)"
  let ?buf = "take ?c (t_buf t) @ ?s @ drop (?c + ?k) (t_buf t)"
  let ?m = "merge_loop ?b ?c ?buf ?n ?k (?n + ?k)"
  let ?t = "t\<lparr>t_buf := ?m, t_n := ?n + ?k, t_staged := 0\<rparr>"
  note S = sort_levels_props [OF dist, of ?b]
  from inv have shape: "tail_shape t" and srt: "level_sorted ?b (tail_list t)"
    by (auto simp: tail_inv_level_sorted)
  then have ls: "length ?s = ?k" and lb: "length ?buf = length (t_buf t)" and ck: "?c + ?k \<le> length (t_buf t)"
    using S(3) by (auto simp: tail_shape_def staged_list_def)
  have run: "merge_staged t = Some ?t"
    using False room by (simp add: merge_staged_def staged_list_def Let_def)
  have parts: "take ?n ?buf = tail_list t" "take ?k (drop ?c ?buf) = ?s"
    using room ls ck shape by (simp_all add: tail_list_def tail_shape_def min_def)
  from merge_loop_eq [of ?c ?k ?buf ?n ?b] room lb ck parts
  have len: "length ?m = length (t_buf t)"
    and eq: "rev (tail_list ?t) = merge_best ?b (rev (tail_list t)) (rev ?s)"
    by (simp_all add: tail_list_def)
  have keys: "lkey ?b ` set (rev (tail_list t)) \<inter> lkey ?b ` set (rev ?s) = {}"
    using disj S(2) by (auto simp: lkey_def)
  have "sorted_wrt (\<lambda>x y. lkey ?b y < lkey ?b x) (rev (tail_list ?t))"
    unfolding eq using srt S(1) keys
    by (intro sorted_merge_best) (simp_all add: level_sorted_def sorted_wrt_rev)
  then have srt': "level_sorted ?b (tail_list ?t)" by (simp add: level_sorted_def sorted_wrt_rev)
  then have inv': "tail_inv ?t"
    using shape room len by (simp add: tail_inv_level_sorted tail_shape_def)
  have all: "set (tail_list ?t) = set (tail_list t) \<union> set (staged_list t)"
    using arg_cong [OF eq, of set] S(2) by (simp add: set_merge_best)
  then have "level_map (tail_list ?t) = level_map (tail_list t) ++ level_map (staged_list t)"
    using level_sorted_distinct [OF srt'] level_sorted_distinct [OF srt] dist disj
    by (intro level_map_add)
  with run inv' all show ?thesis by auto
qed

section \<open>Extracting a price range\<close>

lemma extract_end_spec:
  assumes "first \<le> n"
  shows "first \<le> extract_end buf n lo hi first \<and> extract_end buf n lo hi first \<le> n \<and>
    (\<forall>i. first \<le> i \<longrightarrow> i < extract_end buf n lo hi first \<longrightarrow> lo \<le> l_price (buf ! i) \<and> l_price (buf ! i) \<le> hi) \<and>
    (extract_end buf n lo hi first < n \<longrightarrow>
       \<not> (lo \<le> l_price (buf ! extract_end buf n lo hi first) \<and> l_price (buf ! extract_end buf n lo hi first) \<le> hi))"
  using assms
proof (induction buf n lo hi first rule: extract_end.induct)
  case (1 buf n lo hi first)
  show ?case
  proof (cases "first < n \<and> lo \<le> l_price (buf ! first) \<and> l_price (buf ! first) \<le> hi")
    case True
    then have eq: "extract_end buf n lo hi first = extract_end buf n lo hi (first + 1)"
      by (subst extract_end.simps) simp
    from True "1.IH" show ?thesis unfolding eq
      by (metis (no_types, lifting) Suc_eq_plus1 Suc_leD Suc_leI le_neq_implies_less)
  next
    case False
    then have "extract_end buf n lo hi first = first" by (subst extract_end.simps) auto
    with False "1.prems" show ?thesis by auto
  qed
qed

lemma extract_split:
  assumes inv: "tail_inv t"
    and f: "first = lower t (if t_is_bid t then lo else hi)"
    and e: "stop = extract_end (t_buf t) (t_n t) lo hi first"
  shows "first \<le> stop" "stop \<le> t_n t"
    "\<And>i. i < t_n t \<Longrightarrow>
      lo \<le> l_price (t_buf t ! i) \<and> l_price (t_buf t ! i) \<le> hi \<longleftrightarrow> first \<le> i \<and> i < stop"
proof -
  let ?b = "t_is_bid t" and ?w = "if t_is_bid t then lo else hi"
  note L = lower_spec [OF inv, of ?w, folded f]
  note E = extract_end_spec [of first "t_n t" "t_buf t" lo hi, folded e]
  show "first \<le> stop" "stop \<le> t_n t" using L E by blast+
  fix i assume i: "i < t_n t"
  show "lo \<le> l_price (t_buf t ! i) \<and> l_price (t_buf t ! i) \<le> hi \<longleftrightarrow> first \<le> i \<and> i < stop"
  proof
    assume r: "lo \<le> l_price (t_buf t ! i) \<and> l_price (t_buf t ! i) \<le> hi"
    then have "\<not> lkey ?b (t_buf t ! i) < price_key ?b ?w" by (auto simp: lkey_def price_key_def)
    with L have fi: "first \<le> i" by (meson not_le)
    moreover have "i < stop"
    proof (rule ccontr)
      assume "\<not> i < stop"
      with i have s: "stop < t_n t" "stop \<le> i" by simp_all
      with E L have out: "\<not> (lo \<le> l_price (t_buf t ! stop) \<and> l_price (t_buf t ! stop) \<le> hi)" by blast
      have ge: "price_key ?b ?w \<le> lkey ?b (t_buf t ! stop)"
        using L \<open>first \<le> stop\<close> s(1) by blast
      have le: "lkey ?b (t_buf t ! stop) \<le> lkey ?b (t_buf t ! i)"
        using tail_sorted_nth [OF inv, of stop i] s i by (cases "stop = i") auto
      from out ge le r show False by (auto simp: lkey_def price_key_def split: if_splits)
    qed
    ultimately show "first \<le> i \<and> i < stop" by simp
  next
    assume "first \<le> i \<and> i < stop"
    with E L show "lo \<le> l_price (t_buf t ! i) \<and> l_price (t_buf t ! i) \<le> hi" by blast
  qed
qed

lemma level_sorted_filter: "level_sorted b ls \<Longrightarrow> level_sorted b (filter P ls)"
  by (simp add: level_sorted_def sorted_wrt_filter)

lemma level_map_filter:
  assumes "distinct (map l_price ls)"
  shows "level_map (filter (\<lambda>l. P (l_price l)) ls) = level_map ls |` {p. P p}"
proof (rule map_eqI)
  fix p l
  have "distinct (map l_price (filter (\<lambda>l. P (l_price l)) ls))"
    using assms by (rule distinct_map_filter)
  with assms show "level_map (filter (\<lambda>l. P (l_price l)) ls) p = Some l \<longleftrightarrow> (level_map ls |` {p. P p}) p = Some l"
    by (auto simp: level_map_Some_iff restrict_map_def)
qed

lemma filter_three_parts:
  assumes "\<And>i. i < length xs \<Longrightarrow> P (xs ! i) \<longleftrightarrow> a \<le> i \<and> i < b" "a \<le> b" "b \<le> length xs"
  shows "filter P xs = map (\<lambda>i. xs ! i) [a..<b]" "filter (\<lambda>x. \<not> P x) xs = take a xs @ drop b xs"
proof -
  let ?m = "drop a (take b xs)"
  have xs: "xs = take a xs @ ?m @ drop b xs"
    using assms(2) by (metis append.assoc append_take_drop_id min.absorb1 take_take)
  have A: "\<forall>x \<in> set (take a xs). \<not> P x" and B: "\<forall>x \<in> set ?m. P x" and C: "\<forall>x \<in> set (drop b xs). \<not> P x"
    using assms by (auto simp: in_set_conv_nth)
  have "filter P (take a xs @ ?m @ drop b xs) = ?m" using A B C by (simp add: filter_empty_conv)
  moreover have "?m = map (\<lambda>i. xs ! i) [a..<b]"
    using assms(2,3) by (intro nth_equalityI) auto
  ultimately show "filter P xs = map (\<lambda>i. xs ! i) [a..<b]" using xs by metis
  have "filter (\<lambda>x. \<not> P x) (take a xs @ ?m @ drop b xs) = take a xs @ drop b xs"
    using A B C by (simp add: filter_empty_conv)
  then show "filter (\<lambda>x. \<not> P x) xs = take a xs @ drop b xs" using xs by metis
qed

lemma extract_range_ok:
  assumes inv: "tail_inv t" and run: "extract_range t lo hi = (ls, t')"
  shows "ls = filter (\<lambda>l. l_price l \<in> {lo..hi}) (tail_list t) \<and> tail_inv t' \<and> tail_same t t' \<and>
    tail_list t' = filter (\<lambda>l. l_price l \<notin> {lo..hi}) (tail_list t) \<and> t_n t' = t_n t - length ls"
proof -
  define first where "first = lower t (if t_is_bid t then lo else hi)"
  define stop where "stop = extract_end (t_buf t) (t_n t) lo hi first"
  note X = extract_split [OF inv first_def stop_def]
  from inv have shape: "tail_shape t" and srt: "level_sorted (t_is_bid t) (tail_list t)"
    by (auto simp: tail_inv_level_sorted)
  have ls: "ls = map (\<lambda>i. t_buf t ! i) [first..<stop]"
    and t': "t' = t\<lparr>t_buf := block_move (t_buf t) stop (t_n t) first, t_n := t_n t - (stop - first)\<rparr>"
    using run by (auto simp: extract_range_def Let_def first_def stop_def)
  have "map (\<lambda>i. t_buf t ! i) [first..<stop] = map (\<lambda>i. tail_list t ! i) [first..<stop]"
    using X(2) shape by (auto simp: tail_nth)
  moreover have parts: "filter (\<lambda>l. l_price l \<in> {lo..hi}) (tail_list t) = map (\<lambda>i. tail_list t ! i) [first..<stop]"
    "filter (\<lambda>l. l_price l \<notin> {lo..hi}) (tail_list t) = take first (tail_list t) @ drop stop (tail_list t)"
    using filter_three_parts [of "tail_list t" "\<lambda>l. l_price l \<in> {lo..hi}" first stop] X shape
    by (simp_all add: tail_nth)
  ultimately have ls': "ls = filter (\<lambda>l. l_price l \<in> {lo..hi}) (tail_list t)" using ls by simp
  have "take (t_n t') (t_buf t') = take first (t_buf t) @ drop stop (take (t_n t) (t_buf t))"
    using block_move_down [of first stop "t_n t" "t_buf t"] X(1,2) shape t' by (simp add: tail_shape_def)
  then have tl: "tail_list t' = filter (\<lambda>l. l_price l \<notin> {lo..hi}) (tail_list t)"
    using parts(2) X(1,2) by (simp add: tail_list_def min_def)
  have "length (t_buf t') = length (t_buf t)"
    unfolding t' using X(1,2) shape by (simp, intro length_block_move) (auto simp: tail_shape_def)
  with t' shape have "tail_shape t'" by (auto simp: tail_shape_def)
  with tl srt t' have "tail_inv t'" by (simp add: tail_inv_level_sorted level_sorted_filter)
  with ls ls' tl t' X(1) show ?thesis by (simp add: tail_same_def)
qed

lemma tail_inv_new [simp]: "tail_inv (new_tail b cap scratch)"
  by (simp add: new_tail_def tail_inv_def tail_shape_def tail_list_def)

lemma tail_list_new [simp]: "tail_list (new_tail b cap scratch) = []"
  by (simp add: new_tail_def tail_list_def)

lemma card_tail_map: "tail_inv t \<Longrightarrow> card (dom (level_map (tail_list t))) = t_n t"
  using level_sorted_distinct [of "t_is_bid t" "tail_list t"]
  by (simp add: dom_level_map tail_inv_level_sorted distinct_card flip: set_map)

end
