(* ===== verification/Bitmap.thy ===== *)
theory Bitmap
  imports Prelude
begin

text \<open>
  The occupancy bitmap of \<^verbatim>\<open>LevelLadder\<close> in \<^verbatim>\<open>include/level_ladder.hpp\<close>: an array of 64-bit words,
  the single-bit operations, the scans for the next set bit in either direction, and the loop
  over the set bits of one word.  A \<^verbatim>\<open>ptrdiff_t\<close> index is an integer, with -1 for "none".
\<close>

section \<open>Operations\<close>

text \<open>\<^verbatim>\<open>std::countr_zero\<close> and \<^verbatim>\<open>std::countl_zero\<close> of a 64-bit word.\<close>

definition countr_zero :: "u64 \<Rightarrow> nat" where
  "countr_zero x = length (takeWhile (\<lambda>n. \<not> bit x n) [0..<64])"

definition countl_zero :: "u64 \<Rightarrow> nat" where
  "countl_zero x = length (takeWhile (\<lambda>n. \<not> bit x (63 - n)) [0..<64])"

definition test_bit :: "u64 list \<Rightarrow> nat \<Rightarrow> bool" where
  "test_bit bits i \<longleftrightarrow> drop_bit (i AND 63) (bits ! drop_bit 6 i) AND 1 \<noteq> 0"

definition bit_on :: "u64 list \<Rightarrow> nat \<Rightarrow> u64 list" where
  "bit_on bits i = bits[drop_bit 6 i := bits ! drop_bit 6 i OR push_bit (i AND 63) 1]"

definition bit_off :: "u64 list \<Rightarrow> nat \<Rightarrow> u64 list" where
  "bit_off bits i = bits[drop_bit 6 i := bits ! drop_bit 6 i AND NOT (push_bit (i AND 63) 1)]"

fun scan_down_loop :: "u64 list \<Rightarrow> nat \<Rightarrow> u64 \<Rightarrow> int" where
  "scan_down_loop bits 0 word = (if word \<noteq> 0 then int (63 - countl_zero word) else -1)"
| "scan_down_loop bits (Suc w) word =
     (if word \<noteq> 0 then int (Suc w * 64 + 63 - countl_zero word) else scan_down_loop bits w (bits ! w))"

definition scan_down :: "u64 list \<Rightarrow> int \<Rightarrow> int" where
  "scan_down bits i =
     (if i < 0 then -1
      else let w = drop_bit 6 (nat i) in
        scan_down_loop bits w (bits ! w AND drop_bit (63 - (nat i AND 63)) (NOT 0)))"

function scan_up_loop :: "u64 list \<Rightarrow> nat \<Rightarrow> u64 \<Rightarrow> int" where
  "scan_up_loop bits w word =
     (if word \<noteq> 0 then int (w * 64 + countr_zero word)
      else if length bits \<le> w + 1 then -1
      else scan_up_loop bits (w + 1) (bits ! (w + 1)))"
  by pat_completeness auto
termination
  by (relation "measure (\<lambda>(bits, w, word). length bits - w)") auto

definition scan_up :: "u64 list \<Rightarrow> int \<Rightarrow> int" where
  "scan_up bits i =
     (if int (64 * length bits) \<le> i then -1
      else let w = drop_bit 6 (nat i) in
        scan_up_loop bits w (bits ! w AND push_bit (nat i AND 63) (NOT 0)))"

text \<open>The indices visited by \<^verbatim>\<open>for (word = ...; word; word &= word - 1)\<close>.\<close>

lemma word_clear_lowest_less: "w \<noteq> 0 \<Longrightarrow> unat (w AND (w - 1)) < unat (w :: u64)"
proof -
  assume "w \<noteq> 0"
  then have "w - 1 < w" by (simp add: measure_unat word_less_nat_alt)
  moreover have "w AND (w - 1) \<le> w - 1" by (rule word_and_le1)
  ultimately show ?thesis by (simp add: word_less_nat_alt word_le_nat_alt)
qed

function word_bits :: "u64 \<Rightarrow> nat list" where
  "word_bits w = (if w = 0 then [] else countr_zero w # word_bits (w AND (w - 1)))"
  by pat_completeness auto
termination
  by (relation "measure unat") (auto simp: word_clear_lowest_less)

declare scan_up_loop.simps [simp del] word_bits.simps [simp del]

section \<open>Counting zeros\<close>

lemma length_takeWhile_less: "\<exists>x \<in> set xs. \<not> P x \<Longrightarrow> length (takeWhile P xs) < length xs"
  by (induction xs) auto

lemma u64_bit_less: "bit (x :: u64) n \<Longrightarrow> n < 64"
  using bit_imp_le_length [of x n] by simp

lemma u64_nonzero_bit: "x \<noteq> (0 :: u64) \<Longrightarrow> \<exists>n < 64. bit x n"
  by (metis bit_eqI bit_0_eq bot_apply u64_bit_less bot_bool_def)

text \<open>The position where a run of zeros ends, for an enumeration \<open>f\<close> of the bit positions.\<close>

lemma zero_run:
  assumes c: "c = length (takeWhile (\<lambda>n. \<not> P n) [0..<m])" and ex: "\<exists>n < m. P n"
  shows "c < m \<and> P c \<and> (\<forall>k < c. \<not> P k)"
proof -
  let ?t = "takeWhile (\<lambda>n. \<not> P n) [0..<m]"
  have lt: "length ?t < length [0..<m]"
    using ex by (intro length_takeWhile_less) auto
  then have cm: "c < m" using c by simp
  have "P ([0..<m] ! c)"
    using nth_length_takeWhile [OF lt] unfolding c by simp
  moreover have "\<not> P k" if "k < c" for k
  proof -
    have "?t ! k \<in> set ?t" using that c by simp
    moreover have "?t ! k = k" using that c cm takeWhile_nth [of k "\<lambda>n. \<not> P n" "[0..<m]"] by simp
    ultimately have "k \<in> set ?t" by simp
    then show ?thesis by (blast dest: set_takeWhileD)
  qed
  ultimately show ?thesis using cm by simp
qed

lemma countr_zero_spec:
  assumes "x \<noteq> 0"
  shows "countr_zero x < 64 \<and> bit x (countr_zero x) \<and> (\<forall>k < countr_zero x. \<not> bit x k)"
  by (rule zero_run [OF countr_zero_def u64_nonzero_bit [OF assms]])

lemma countl_zero_spec:
  assumes "x \<noteq> 0"
  shows "countl_zero x < 64 \<and> bit x (63 - countl_zero x) \<and> (\<forall>k > 63 - countl_zero x. \<not> bit x k)"
proof -
  obtain n where n: "n < 64" "bit x n" using u64_nonzero_bit [OF assms] by blast
  then have "\<exists>m < 64. bit x (63 - m)" by (intro exI [of _ "63 - n"]) auto
  from zero_run [OF countl_zero_def this] have z: "countl_zero x < 64" "bit x (63 - countl_zero x)"
    "\<And>k. k < countl_zero x \<Longrightarrow> \<not> bit x (63 - k)" by blast+
  have "\<not> bit x k" if k: "63 - countl_zero x < k" for k
  proof
    assume "bit x k"
    then have "k < 64" by (rule u64_bit_less)
    then have "63 - k < countl_zero x" "63 - (63 - k) = k" using z(1) k by simp_all
    with z(3) [of "63 - k"] \<open>bit x k\<close> show False by simp
  qed
  with z show ?thesis by blast
qed

section \<open>Single bits\<close>

lemma and_63: "(i::nat) AND 63 = i mod 64"
  using and_mask_mod [of 64 6 i] by simp

lemma drop_bit_6: "drop_bit 6 (i::nat) = i div 64"
  by (simp add: drop_bit_eq_div)

lemma test_bit_iff: "test_bit bits i \<longleftrightarrow> bit (bits ! (i div 64)) (i mod 64)"
proof -
  have "drop_bit (i mod 64) (bits ! (i div 64)) AND 1 \<noteq> 0 \<longleftrightarrow> odd (drop_bit (i mod 64) (bits ! (i div 64)))"
    by (simp add: and_one_eq mod_2_eq_odd)
  then show ?thesis by (simp add: test_bit_def and_63 drop_bit_6 bit_iff_odd_drop_bit)
qed

lemma div_mod_64_eq: "(i::nat) div 64 = j div 64 \<Longrightarrow> i mod 64 = j mod 64 \<Longrightarrow> i = j"
  by (metis div_mult_mod_eq)

lemma length_bit_on [simp]: "length (bit_on bits i) = length bits"
  and length_bit_off [simp]: "length (bit_off bits i) = length bits"
  by (simp_all add: bit_on_def bit_off_def)

lemma test_bit_on:
  "i < 64 * length bits \<Longrightarrow> test_bit (bit_on bits i) j \<longleftrightarrow> j = i \<or> test_bit bits j"
  by (cases "j div 64 = i div 64")
    (auto simp: test_bit_iff bit_on_def drop_bit_6 and_63 bit_simps dest: div_mod_64_eq)

lemma test_bit_off:
  "i < 64 * length bits \<Longrightarrow> test_bit (bit_off bits i) j \<longleftrightarrow> j \<noteq> i \<and> test_bit bits j"
  by (cases "j div 64 = i div 64")
    (auto simp: test_bit_iff bit_off_def drop_bit_6 and_63 bit_simps dest: div_mod_64_eq u64_bit_less)

section \<open>Scans\<close>

text \<open>\<open>highest P r i\<close>: \<open>r\<close> is the highest index up to \<open>i\<close> with \<open>P\<close>, or -1.\<close>

definition highest :: "(nat \<Rightarrow> bool) \<Rightarrow> int \<Rightarrow> int \<Rightarrow> bool" where
  "highest P i r \<longleftrightarrow> (r = -1 \<and> (\<forall>k. int k \<le> i \<longrightarrow> \<not> P k)) \<or>
     (\<exists>n. r = int n \<and> int n \<le> i \<and> P n \<and> (\<forall>k. n < k \<longrightarrow> int k \<le> i \<longrightarrow> \<not> P k))"

text \<open>\<open>lowest P r i n\<close>: \<open>r\<close> is the lowest index from \<open>i\<close> on, below \<open>n\<close>, with \<open>P\<close>, or -1.\<close>

definition lowest :: "(nat \<Rightarrow> bool) \<Rightarrow> nat \<Rightarrow> int \<Rightarrow> int \<Rightarrow> bool" where
  "lowest P n i r \<longleftrightarrow> (r = -1 \<and> (\<forall>k. i \<le> int k \<longrightarrow> k < n \<longrightarrow> \<not> P k)) \<or>
     (\<exists>m. r = int m \<and> i \<le> int m \<and> m < n \<and> P m \<and> (\<forall>k. i \<le> int k \<longrightarrow> k < m \<longrightarrow> \<not> P k))"

lemma index_split: "\<exists>w r. (k::nat) = w * 64 + r \<and> r < 64"
  by (metis div_mult_mod_eq mod_less_divisor zero_less_numeral)

lemma test_bit_index: "r < 64 \<Longrightarrow> test_bit bits (w * 64 + r) \<longleftrightarrow> bit (bits ! w) r"
  by (simp add: test_bit_iff)

lemma highest_extend:
  assumes h: "highest P (int j) r" and "j \<le> i" and no: "\<And>k. j < k \<Longrightarrow> k \<le> i \<Longrightarrow> \<not> P k"
  shows "highest P (int i) r"
proof -
  have *: "\<not> P k" if "k \<le> i" "\<not> k \<le> j" for k using no that by simp
  from h show ?thesis
    unfolding highest_def
  proof (elim disjE exE conjE)
    assume "r = -1" "\<forall>k. int k \<le> int j \<longrightarrow> \<not> P k"
    with * show "(r = -1 \<and> (\<forall>k. int k \<le> int i \<longrightarrow> \<not> P k)) \<or>
      (\<exists>n. r = int n \<and> int n \<le> int i \<and> P n \<and> (\<forall>k. n < k \<longrightarrow> int k \<le> int i \<longrightarrow> \<not> P k))" by auto
  next
    fix n assume "r = int n" "int n \<le> int j" "P n" "\<forall>k. n < k \<longrightarrow> int k \<le> int j \<longrightarrow> \<not> P k"
    with * \<open>j \<le> i\<close> show "(r = -1 \<and> (\<forall>k. int k \<le> int i \<longrightarrow> \<not> P k)) \<or>
      (\<exists>n. r = int n \<and> int n \<le> int i \<and> P n \<and> (\<forall>k. n < k \<longrightarrow> int k \<le> int i \<longrightarrow> \<not> P k))"
      by (intro disjI2 exI [of _ n]) auto
  qed
qed

lemma highest_word:
  assumes word: "\<And>r. r < 64 \<Longrightarrow> bit word r \<longleftrightarrow> w * 64 + r \<le> i \<and> test_bit bits (w * 64 + r)"
    and i: "w * 64 \<le> i" "i < w * 64 + 64" and "word \<noteq> 0"
  shows "highest (test_bit bits) (int i) (int (w * 64 + 63 - countl_zero word))"
proof -
  let ?c = "63 - countl_zero word"
  note c = countl_zero_spec [OF \<open>word \<noteq> 0\<close>]
  have eq: "w * 64 + 63 - countl_zero word = w * 64 + ?c" using c by simp
  have hit: "w * 64 + ?c \<le> i" "test_bit bits (w * 64 + ?c)" using word [of ?c] c by auto
  have "\<not> test_bit bits k" if k: "w * 64 + ?c < k" "k \<le> i" for k
  proof -
    define r where "r = k - w * 64"
    have r: "k = w * 64 + r" "r < 64" "?c < r" using k i by (auto simp: r_def)
    with word [of r] c k show ?thesis by auto
  qed
  with hit show ?thesis unfolding highest_def eq by (metis of_nat_le_iff)
qed

lemma no_bit_in_word:
  assumes "\<And>r. r < 64 \<Longrightarrow> bit (0 :: u64) r \<longleftrightarrow> Q (w * 64 + r)" and "w * 64 \<le> k" "k < w * 64 + 64"
  shows "\<not> Q k"
  using assms(1) [of "k - w * 64"] assms(2,3) by simp

lemma scan_down_loop_spec:
  assumes "\<And>r. r < 64 \<Longrightarrow> bit word r \<longleftrightarrow> w * 64 + r \<le> i \<and> test_bit bits (w * 64 + r)"
    and "w * 64 \<le> i" "i < w * 64 + 64"
  shows "highest (test_bit bits) (int i) (scan_down_loop bits w word)"
  using assms
proof (induction w arbitrary: word i)
  case 0
  show ?case
  proof (cases "word = 0")
    case True
    have "\<not> test_bit bits k" if "k \<le> i" for k
      using no_bit_in_word [of "\<lambda>k. k \<le> i \<and> test_bit bits k" 0 k] 0 True that by auto
    with True show ?thesis by (auto simp: highest_def)
  next
    case False
    with highest_word [OF 0] show ?thesis by simp
  qed
next
  case (Suc w)
  show ?case
  proof (cases "word = 0")
    case True
    have "highest (test_bit bits) (int (w * 64 + 63)) (scan_down_loop bits w (bits ! w))"
      by (rule Suc.IH) (auto simp: test_bit_index)
    moreover have "w * 64 + 63 \<le> i" using Suc.prems(2) by simp
    moreover have "\<not> test_bit bits k" if "w * 64 + 63 < k" "k \<le> i" for k
      using no_bit_in_word [of "\<lambda>k. k \<le> i \<and> test_bit bits k" "Suc w" k] Suc.prems True that by simp
    ultimately have "highest (test_bit bits) (int i) (scan_down_loop bits w (bits ! w))"
      by (rule highest_extend)
    with True show ?thesis by simp
  next
    case False
    with highest_word [OF Suc.prems False] show ?thesis by simp
  qed
qed

lemma scan_down_spec:
  assumes "i < int (64 * length bits)"
  shows "highest (test_bit bits) i (scan_down bits i)"
proof (cases "i < 0")
  case True
  then show ?thesis by (auto simp: scan_down_def highest_def)
next
  case False
  let ?n = "nat i"
  let ?w = "?n div 64"
  have "highest (test_bit bits) (int ?n)
      (scan_down_loop bits ?w (bits ! ?w AND drop_bit (63 - ?n mod 64) (NOT 0)))"
  proof (rule scan_down_loop_spec)
    fix r :: nat assume r: "r < 64"
    have "r + (63 - n mod 64) < 64 \<longleftrightarrow> n div 64 * 64 + r \<le> n" for n :: nat
      using div_mult_mod_eq [of n 64] mod_less_divisor [of 64 n] by arith
    from this [of ?n]
    show "bit (bits ! ?w AND drop_bit (63 - ?n mod 64) (NOT 0)) r \<longleftrightarrow>
        ?w * 64 + r \<le> ?n \<and> test_bit bits (?w * 64 + r)"
      using r by (auto simp: bit_simps test_bit_index)
  next
    show "?w * 64 \<le> ?n" "?n < ?w * 64 + 64"
      using div_mult_mod_eq [of ?n 64] mod_less_divisor [of 64 ?n] by arith+
  qed
  with False show ?thesis by (simp add: scan_down_def drop_bit_6 and_63 Let_def)
qed

lemma lowest_extend:
  assumes h: "lowest P n (int j) r" and "i \<le> int j" and no: "\<And>k. i \<le> int k \<Longrightarrow> k < j \<Longrightarrow> \<not> P k"
  shows "lowest P n i r"
proof -
  have *: "\<not> P k" if "i \<le> int k" "\<not> j \<le> k" for k using no that by simp
  from h show ?thesis
    unfolding lowest_def
  proof (elim disjE exE conjE)
    assume "r = -1" "\<forall>k. int j \<le> int k \<longrightarrow> k < n \<longrightarrow> \<not> P k"
    with * show "(r = -1 \<and> (\<forall>k. i \<le> int k \<longrightarrow> k < n \<longrightarrow> \<not> P k)) \<or>
      (\<exists>m. r = int m \<and> i \<le> int m \<and> m < n \<and> P m \<and> (\<forall>k. i \<le> int k \<longrightarrow> k < m \<longrightarrow> \<not> P k))" by auto
  next
    fix m assume "r = int m" "int j \<le> int m" "m < n" "P m" "\<forall>k. int j \<le> int k \<longrightarrow> k < m \<longrightarrow> \<not> P k"
    with * \<open>i \<le> int j\<close> show "(r = -1 \<and> (\<forall>k. i \<le> int k \<longrightarrow> k < n \<longrightarrow> \<not> P k)) \<or>
      (\<exists>m. r = int m \<and> i \<le> int m \<and> m < n \<and> P m \<and> (\<forall>k. i \<le> int k \<longrightarrow> k < m \<longrightarrow> \<not> P k))"
      by (intro disjI2 exI [of _ m]) auto
  qed
qed

lemma lowest_word:
  assumes word: "\<And>r. r < 64 \<Longrightarrow> bit word r \<longleftrightarrow> i \<le> w * 64 + r \<and> test_bit bits (w * 64 + r)"
    and i: "w * 64 \<le> i" and w: "w < length bits" and "word \<noteq> 0"
  shows "lowest (test_bit bits) (64 * length bits) (int i) (int (w * 64 + countr_zero word))"
proof -
  let ?c = "countr_zero word"
  note c = countr_zero_spec [OF \<open>word \<noteq> 0\<close>]
  have hit: "i \<le> w * 64 + ?c" "test_bit bits (w * 64 + ?c)" using word [of ?c] c by auto
  have "\<not> test_bit bits k" if k: "i \<le> k" "k < w * 64 + ?c" for k
  proof -
    define r where "r = k - w * 64"
    have r: "k = w * 64 + r" "r < 64" "r < ?c" using k i c by (auto simp: r_def)
    with word [of r] c k show ?thesis by auto
  qed
  moreover have "w * 64 + ?c < 64 * length bits" using c w by simp
  ultimately show ?thesis using hit unfolding lowest_def by (metis of_nat_le_iff)
qed

lemma scan_up_loop_spec:
  assumes "\<And>r. r < 64 \<Longrightarrow> bit word r \<longleftrightarrow> i \<le> w * 64 + r \<and> test_bit bits (w * 64 + r)"
    and "w * 64 \<le> i" "i < w * 64 + 64" "w < length bits"
  shows "lowest (test_bit bits) (64 * length bits) (int i) (scan_up_loop bits w word)"
  using assms
proof (induction bits w word arbitrary: i rule: scan_up_loop.induct)
  case (1 bits w word)
  show ?case
  proof (cases "word = 0")
    case False
    with lowest_word [OF "1.prems"(1,2,4)] show ?thesis by (subst scan_up_loop.simps) simp
  next
    case True
    have none: "\<not> test_bit bits k" if "i \<le> k" "k < w * 64 + 64" for k
      using no_bit_in_word [of "\<lambda>k. i \<le> k \<and> test_bit bits k" w k] "1.prems"(1,2) True that by simp
    show ?thesis
    proof (cases "length bits \<le> w + 1")
      case fin: True
      with none "1.prems"(4) have "lowest (test_bit bits) (64 * length bits) (int i) (-1)"
        by (auto simp: lowest_def)
      with True fin show ?thesis by (subst scan_up_loop.simps) simp
    next
      case False
      have "lowest (test_bit bits) (64 * length bits) (int ((w + 1) * 64)) (scan_up_loop bits (w + 1) (bits ! (w + 1)))"
        using True False by (intro "1.IH") (auto simp: test_bit_index [of _ _ "w + 1", simplified])
      moreover have "int i \<le> int ((w + 1) * 64)" using "1.prems"(3) by simp
      ultimately have "lowest (test_bit bits) (64 * length bits) (int i) (scan_up_loop bits (w + 1) (bits ! (w + 1)))"
        by (rule lowest_extend) (use none in simp)
      with True False show ?thesis by (subst scan_up_loop.simps) simp
    qed
  qed
qed

lemma scan_up_spec:
  assumes "0 \<le> i"
  shows "lowest (test_bit bits) (64 * length bits) i (scan_up bits i)"
proof (cases "int (64 * length bits) \<le> i")
  case True
  then show ?thesis by (auto simp: scan_up_def lowest_def)
next
  case False
  let ?n = "nat i"
  let ?w = "?n div 64"
  have "lowest (test_bit bits) (64 * length bits) (int ?n)
      (scan_up_loop bits ?w (bits ! ?w AND push_bit (?n mod 64) (NOT 0)))"
  proof (rule scan_up_loop_spec)
    fix r :: nat assume r: "r < 64"
    have "n mod 64 \<le> r \<longleftrightarrow> n \<le> n div 64 * 64 + r" for n :: nat
      using div_mult_mod_eq [of n 64] by arith
    from this [of ?n] show "bit (bits ! ?w AND push_bit (?n mod 64) (NOT 0)) r \<longleftrightarrow>
        ?n \<le> ?w * 64 + r \<and> test_bit bits (?w * 64 + r)"
      using r by (auto simp: bit_simps test_bit_index)
  next
    show "?w * 64 \<le> ?n" "?n < ?w * 64 + 64"
      using div_mult_mod_eq [of ?n 64] mod_less_divisor [of 64 ?n] by arith+
    show "?w < length bits" using False assms by (intro less_mult_imp_div_less) simp
  qed
  with False assms show ?thesis by (simp add: scan_up_def drop_bit_6 and_63 Let_def)
qed

section \<open>The set bits of a word\<close>

lemma clear_lowest_bit:
  assumes "w \<noteq> 0"
  shows "w AND (w - 1) = unset_bit (countr_zero w) w"
proof -
  let ?c = "countr_zero w" and ?v = "unset_bit (countr_zero w) w"
  note c = countr_zero_spec [OF assms]
  have "?v AND 2 ^ ?c = 0" by (rule bit_eqI) (auto simp: bit_simps)
  then have "?v + 2 ^ ?c = ?v OR 2 ^ ?c" by (rule disjunctive_add_eq_or)
  also have "\<dots> = w" using c by (intro bit_eqI) (auto simp: bit_simps)
  finally have w: "w = ?v + 2 ^ ?c" by simp
  have "?v AND mask ?c = 0" using c by (intro bit_eqI) (auto simp: bit_simps)
  then have "?v + mask ?c = ?v OR mask ?c" by (rule disjunctive_add_eq_or)
  moreover have "w - 1 = ?v + mask ?c"
    by (subst w) (simp add: mask_eq_exp_minus_1)
  ultimately have "w - 1 = ?v OR mask ?c" by simp
  then show ?thesis using c by (intro bit_eqI) (auto simp: bit_simps)
qed

lemma word_bits_eq: "word_bits w = filter (bit w) [0..<64]"
proof (induction w rule: word_bits.induct)
  case (1 w)
  show ?case
  proof (cases "w = 0")
    case True
    then show ?thesis by (simp add: word_bits.simps filter_empty_conv)
  next
    case False
    let ?c = "countr_zero w"
    note c = countr_zero_spec [OF False]
    have upt: "[0..<64] = [0..<?c] @ ?c # [Suc ?c..<64]"
      using c by (metis less_imp_le_nat upt_add_eq_append upt_conv_Cons le0 le_add_diff_inverse)
    have lo: "filter (bit v) [0..<?c] = []" if "\<forall>k<?c. \<not> bit v k" for v :: u64
      using that by (simp add: filter_empty_conv)
    have hi: "filter (bit (w AND (w - 1))) [Suc ?c..<64] = filter (bit w) [Suc ?c..<64]"
      by (rule filter_cong) (auto simp: clear_lowest_bit [OF False] bit_simps)
    have "filter (bit (w AND (w - 1))) [0..<64] = filter (bit w) [Suc ?c..<64]"
      unfolding upt using c hi lo [of "w AND (w - 1)"]
      by (simp add: clear_lowest_bit [OF False] bit_simps del: upt_Suc)
    moreover have "filter (bit w) [0..<64] = ?c # filter (bit w) [Suc ?c..<64]"
      unfolding upt using c lo [of w] by (simp del: upt_Suc)
    ultimately show ?thesis using "1.IH" [OF False] False by (subst word_bits.simps) simp
  qed
qed

end
