(* ===== verification/Level_Ladder.thy ===== *)
theory Level_Ladder
  imports Level_Tail Bitmap
begin

text \<open>
  The class \<^verbatim>\<open>LevelLadder\<close> of \<^verbatim>\<open>include/level_ladder.hpp\<close>: the price levels of one side of the
  book.  A window of \<open>window_size\<close> consecutive ticks is a flat array with an occupancy bitmap;
  every other level is in the tail.  The template parameters \<^verbatim>\<open>IsBid\<close> and \<^verbatim>\<open>WindowSize\<close> are
  constant fields; a \<^verbatim>\<open>PriceLevel*\<close> is a reference into the window or into the tail.

  Signed prices are integers; the arithmetic on the window's base is undefined when it leaves
  the range of \<^verbatim>\<open>std::int64_t\<close>, and \<open>recenter\<close> is stuck there.
\<close>

section \<open>State and operations\<close>

record ladder =
  is_bid :: bool
  window_size :: nat
  base :: price
  anchored :: bool
  window_count :: nat
  best_idx :: int
  bits :: "u64 list"
  levels :: "price_level list"
  tail :: level_tail

datatype level_ref = WindowRef nat | TailRef nat

definition new_ladder :: "bool \<Rightarrow> nat \<Rightarrow> nat \<Rightarrow> ladder" where
  "new_ladder b w cap = \<lparr>is_bid = b, window_size = w, base = 0, anchored = False, window_count = 0,
     best_idx = -1, bits = replicate (w div 64) 0, levels = replicate w blank_level,
     tail = new_tail b cap w\<rparr>"

text \<open>Reading and writing through a \<^verbatim>\<open>PriceLevel*\<close>.\<close>

definition deref :: "ladder \<Rightarrow> level_ref \<Rightarrow> price_level option" where
  "deref L r = (case r of WindowRef i \<Rightarrow> vread (levels L) i
     | TailRef i \<Rightarrow> if i < t_n (tail L) then vread (t_buf (tail L)) i else None)"

definition store_level :: "ladder \<Rightarrow> level_ref \<Rightarrow> price_level \<Rightarrow> ladder option" where
  "store_level L r l = (case r of
       WindowRef i \<Rightarrow> do { ls \<leftarrow> vwrite (levels L) i l; Some (L\<lparr>levels := ls\<rparr>) }
     | TailRef i \<Rightarrow> if i < t_n (tail L)
         then do { buf \<leftarrow> vwrite (t_buf (tail L)) i l; Some (L\<lparr>tail := (tail L)\<lparr>t_buf := buf\<rparr>\<rparr>) }
         else None)"

definition ladder_empty :: "ladder \<Rightarrow> bool" where
  "ladder_empty L \<longleftrightarrow> window_count L = 0 \<and> tail_empty (tail L)"

definition better :: "bool \<Rightarrow> price \<Rightarrow> price \<Rightarrow> bool" where
  "better b x y = (if b then x > y else x < y)"

definition better_idx :: "bool \<Rightarrow> int \<Rightarrow> int \<Rightarrow> bool" where
  "better_idx b x y = (if b then x > y else x < y)"

definition in_window :: "ladder \<Rightarrow> price \<Rightarrow> bool" where
  "in_window L p \<longleftrightarrow> anchored L \<and> p \<ge> base L \<and> p < base L + int (window_size L)"

definition beyond_better_edge :: "ladder \<Rightarrow> price \<Rightarrow> bool" where
  "beyond_better_edge L p =
     (if is_bid L then p \<ge> base L + int (window_size L) else p < base L)"

definition window_index :: "ladder \<Rightarrow> price \<Rightarrow> nat" where
  "window_index L p = nat (p - base L)"

definition best :: "ladder \<Rightarrow> level_ref option" where
  "best L = (let w = if best_idx L \<ge> 0 then Some (nat (best_idx L)) else None;
                 t = tail_best (tail L)
     in case t of None \<Rightarrow> map_option WindowRef w
        | Some i \<Rightarrow> (case w of None \<Rightarrow> Some (TailRef i)
            | Some j \<Rightarrow> if better (is_bid L) (l_price (t_buf (tail L) ! i)) (l_price (levels L ! j))
                then Some (TailRef i) else Some (WindowRef j)))"

definition find_level :: "ladder \<Rightarrow> price \<Rightarrow> level_ref option" where
  "find_level L price =
     (if in_window L price
      then let idx = window_index L price in if test_bit (bits L) idx then Some (WindowRef idx) else None
      else map_option TailRef (tail_find (tail L) price))"

definition next_worse :: "ladder \<Rightarrow> int \<Rightarrow> int" where
  "next_worse L idx = (if is_bid L then scan_down (bits L) (idx - 1) else scan_up (bits L) (idx + 1))"

definition best_in_window :: "ladder \<Rightarrow> int" where
  "best_in_window L = (if is_bid L then scan_down (bits L) (int (window_size L) - 1) else scan_up (bits L) 0)"

text \<open>Step 1 of \<open>recenter\<close>: the body of the eviction loop, and the two nested loops.\<close>

definition evict_one :: "price \<Rightarrow> price \<Rightarrow> nat \<Rightarrow> ladder \<Rightarrow> ladder option" where
  "evict_one new_base new_end idx L = do {
     l \<leftarrow> vread (levels L) idx;
     if l_price l < new_base \<or> l_price l \<ge> new_end
     then do { t \<leftarrow> stage (tail L) l;
       Some (L\<lparr>tail := t, bits := bit_off (bits L) idx, window_count := window_count L - 1\<rparr>) }
     else Some L }"

definition evict :: "price \<Rightarrow> price \<Rightarrow> ladder \<Rightarrow> ladder option" where
  "evict new_base new_end L =
     foldM (\<lambda>w L. foldM (\<lambda>r. evict_one new_base new_end (w * 64 + r)) (word_bits (bits L ! w)) L)
       [0..<window_size L div 64] L"

text \<open>Step 2: the body of the shifting loops, which differ only in their direction.\<close>

definition shift_one :: "price \<Rightarrow> nat \<Rightarrow> ladder \<Rightarrow> ladder option" where
  "shift_one delta idx L =
     (if \<not> test_bit (bits L) idx then Some L
      else let to = int idx - delta in
        if to < 0 then None
        else do { l \<leftarrow> vread (levels L) idx; ls \<leftarrow> vwrite (levels L) (nat to) l;
          Some (L\<lparr>levels := ls, bits := bit_on (bit_off (bits L) idx) (nat to)\<rparr>) })"

definition shift_survivors :: "price \<Rightarrow> ladder \<Rightarrow> ladder option" where
  "shift_survivors delta L =
     (if delta > 0 then foldM (shift_one delta) [0..<window_size L] L
      else if delta < 0 then foldM (shift_one delta) (rev [0..<window_size L]) L
      else Some L)"

text \<open>Step 3: the callback that moves one level of the tail into the window.\<close>

definition place_one :: "price_level \<Rightarrow> ladder \<Rightarrow> ladder option" where
  "place_one l L = (let idx = window_index L (l_price l) in do {
     ls \<leftarrow> vwrite (levels L) idx l;
     Some (L\<lparr>levels := ls, bits := bit_on (bits L) idx, window_count := window_count L + 1\<rparr>) })"

text \<open>
  The end of the new window is formed here when the ladder has an anchor, and otherwise by the
  test of \<open>level_for_insert\<close> that follows; both ends of the window have to be representable.
\<close>

definition recenter :: "price \<Rightarrow> ladder \<Rightarrow> ladder option" where
  "recenter new_base L =
     (if \<not> (fits_int64 new_base \<and> fits_int64 (new_base + int (window_size L))) then None
      else if \<not> anchored L then Some (L\<lparr>anchored := True, base := new_base, best_idx := -1\<rparr>)
      else let new_end = new_base + int (window_size L); delta = new_base - base L in
        if \<not> fits_int64 delta then None
        else do {
          L \<leftarrow> evict new_base new_end L;
          t \<leftarrow> merge_staged (tail L);
          L \<leftarrow> shift_survivors delta (L\<lparr>tail := t\<rparr>);
          (ls, t) \<leftarrow> Some (extract_range (tail L) new_base (new_end - 1));
          L \<leftarrow> foldM place_one ls (L\<lparr>base := new_base\<rparr>);
          L \<leftarrow> Some (L\<lparr>tail := t\<rparr>);
          Some (L\<lparr>best_idx := best_in_window L\<rparr>) })"

definition level_for_insert :: "ladder \<Rightarrow> price \<Rightarrow> (ladder \<times> level_ref) option" where
  "level_for_insert L price = do {
     L \<leftarrow> (if \<not> in_window L price \<and> (window_count L = 0 \<or> beyond_better_edge L price)
           then recenter (price - int (window_size L div 2)) L else Some L);
     if in_window L price
     then let idx = window_index L price in
       if \<not> test_bit (bits L) idx
       then do {
         ls \<leftarrow> vwrite (levels L) idx (empty_level price);
         Some (L\<lparr>levels := ls, bits := bit_on (bits L) idx, window_count := window_count L + 1,
           best_idx := if best_idx L < 0 \<or> better_idx (is_bid L) (int idx) (best_idx L)
             then int idx else best_idx L\<rparr>, WindowRef idx) }
       else Some (L, WindowRef idx)
     else do { (t, i) \<leftarrow> find_or_insert (tail L) price; Some (L\<lparr>tail := t\<rparr>, TailRef i) } }"

definition erase_level :: "ladder \<Rightarrow> level_ref \<Rightarrow> ladder option" where
  "erase_level L r = do {
     l \<leftarrow> deref L r;
     if in_window L (l_price l)
     then let idx = window_index L (l_price l);
              L = L\<lparr>bits := bit_off (bits L) idx, window_count := window_count L - 1\<rparr>
       in Some (if int idx = best_idx L then L\<lparr>best_idx := next_worse L (best_idx L)\<rparr> else L)
     else Some (L\<lparr>tail := tail_erase (tail L) (l_price l)\<rparr>) }"

text \<open>The levels \<open>for_each_best\<close> visits: the pure bitmap walk, and the merge with the tail.\<close>

fun walk_window :: "ladder \<Rightarrow> nat \<Rightarrow> int \<Rightarrow> price_level list" where
  "walk_window L 0 idx = []"
| "walk_window L (Suc n) idx =
     (if idx \<ge> 0 then levels L ! nat idx # walk_window L n (next_worse L idx) else [])"

fun walk_merge :: "ladder \<Rightarrow> nat \<Rightarrow> int \<Rightarrow> nat \<Rightarrow> price_level list" where
  "walk_merge L 0 idx t = []"
| "walk_merge L (Suc n) idx t =
     (let have_w = idx \<ge> 0; have_t = t < t_n (tail L) in
      if \<not> have_w \<and> \<not> have_t then []
      else if have_w \<and> (\<not> have_t \<or>
          better (is_bid L) (l_price (levels L ! nat idx)) (l_price (nth_best (tail L) t)))
      then levels L ! nat idx # walk_merge L n (next_worse L idx) t
      else nth_best (tail L) t # walk_merge L n idx (t + 1))"

definition for_each_best :: "ladder \<Rightarrow> nat \<Rightarrow> (price_level \<Rightarrow> 's \<Rightarrow> 's) \<Rightarrow> 's \<Rightarrow> 's" where
  "for_each_best L max_levels f =
     (if tail_empty (tail L) then fold f (walk_window L max_levels (best_idx L))
      else fold f (walk_merge L max_levels (best_idx L) 0))"

definition for_each_level :: "ladder \<Rightarrow> (price_level \<Rightarrow> 's \<Rightarrow> 's) \<Rightarrow> 's \<Rightarrow> 's" where
  "for_each_level L f =
     tail_for_each (tail L) f \<circ>
     fold (\<lambda>w. fold (\<lambda>r. f (levels L ! (w * 64 + r))) (word_bits (bits L ! w))) [0..<window_size L div 64]"

definition in_hot_window :: "ladder \<Rightarrow> price \<Rightarrow> bool" where
  "in_hot_window L p = in_window L p"

section \<open>Abstraction and invariant\<close>

definition occ :: "ladder \<Rightarrow> nat set" where
  "occ L = {i. i < window_size L \<and> test_bit (bits L) i}"

definition ladder_shape :: "ladder \<Rightarrow> bool" where
  "ladder_shape L \<longleftrightarrow> is_pow2 (window_size L) \<and> 64 \<le> window_size L \<and> window_size L \<le> 2 ^ 62 \<and>
     length (bits L) = window_size L div 64 \<and> length (levels L) = window_size L \<and>
     t_is_bid (tail L) = is_bid L \<and> t_scratch (tail L) = window_size L \<and> tail_inv (tail L)"

definition window_ok :: "ladder \<Rightarrow> bool" where
  "window_ok L \<longleftrightarrow> (\<forall>i \<in> occ L. l_price (levels L ! i) = base L + int i) \<and> window_count L = card (occ L)"

definition best_ok :: "ladder \<Rightarrow> bool" where
  "best_ok L \<longleftrightarrow> (best_idx L = -1 \<and> occ L = {}) \<or>
     (\<exists>i \<in> occ L. best_idx L = int i \<and> (\<forall>j \<in> occ L. \<not> better_idx (is_bid L) (int j) (int i)))"

text \<open>Prices that keep the arithmetic on the window's base inside \<^verbatim>\<open>std::int64_t\<close>.\<close>

definition price_ok :: "price \<Rightarrow> bool" where
  "price_ok p \<longleftrightarrow> - (2 ^ 62) \<le> p \<and> p < 2 ^ 62"

definition home_ok :: "ladder \<Rightarrow> bool" where
  "home_ok L \<longleftrightarrow> (if anchored L
     then price_ok (base L + int (window_size L div 2)) \<and> (\<forall>l \<in> set (tail_list (tail L)). \<not> in_window L (l_price l))
     else occ L = {} \<and> t_n (tail L) = 0)"

definition ladder_inv :: "ladder \<Rightarrow> bool" where
  "ladder_inv L \<longleftrightarrow> ladder_shape L \<and> t_staged (tail L) = 0 \<and> window_ok L \<and> best_ok L \<and> home_ok L"

text \<open>What the ladder stores: the level at each price, wherever it lives.\<close>

definition amap :: "ladder \<Rightarrow> price \<rightharpoonup> price_level" where
  "amap L p =
     (if in_window L p
      then let i = window_index L p in if test_bit (bits L) i then Some (levels L ! i) else None
      else level_map (tail_list (tail L)) p)"

definition contents :: "ladder \<Rightarrow> price_level set" where
  "contents L = (\<lambda>i. levels L ! i) ` occ L \<union> set (tail_list (tail L))"

lemmas ladder_invD =
  ladder_inv_def [THEN iffD1, THEN conjunct1]
  ladder_inv_def [THEN iffD1, THEN conjunct2, THEN conjunct1]
  ladder_inv_def [THEN iffD1, THEN conjunct2, THEN conjunct2, THEN conjunct1]
  ladder_inv_def [THEN iffD1, THEN conjunct2, THEN conjunct2, THEN conjunct2, THEN conjunct1]
  ladder_inv_def [THEN iffD1, THEN conjunct2, THEN conjunct2, THEN conjunct2, THEN conjunct2]

lemma pow2_dvd_64: "is_pow2 n \<Longrightarrow> 64 \<le> n \<Longrightarrow> 64 dvd n"
proof -
  assume "is_pow2 n" "64 \<le> n"
  then obtain k where k: "n = 2 ^ k" by (auto simp: is_pow2_iff)
  with \<open>64 \<le> n\<close> have "(2::nat) ^ 6 \<le> 2 ^ k" by simp
  then have "6 \<le> k" by (subst (asm) power_increasing_iff) simp_all
  then have "(2::nat) ^ 6 dvd 2 ^ k" by (rule le_imp_power_dvd)
  with k show ?thesis by simp
qed

lemma shape_bits: "ladder_shape L \<Longrightarrow> 64 * length (bits L) = window_size L"
  using pow2_dvd_64 [of "window_size L"] by (simp add: ladder_shape_def)

lemma finite_occ [simp]: "finite (occ L)"
  by (simp add: occ_def)

lemma occ_less: "i \<in> occ L \<Longrightarrow> i < window_size L"
  by (simp add: occ_def)

lemma window_index_less: "in_window L p \<Longrightarrow> window_index L p < window_size L"
  by (auto simp: in_window_def window_index_def)

lemma window_index_price: "in_window L p \<Longrightarrow> p = base L + int (window_index L p)"
  by (auto simp: in_window_def window_index_def)

lemma window_index_base: "window_index L (base L + int i) = i"
  by (simp add: window_index_def)

lemma in_window_base: "in_window L (base L + int i) \<longleftrightarrow> anchored L \<and> i < window_size L"
  by (auto simp: in_window_def)

lemma tail_price_unique:
  "tail_inv t \<Longrightarrow> level_map (tail_list t) p = Some l \<longleftrightarrow> l \<in> set (tail_list t) \<and> l_price l = p"
  using level_sorted_distinct by (auto simp: tail_inv_level_sorted level_map_Some_iff)

lemma home_anchored: "home_ok L \<Longrightarrow> i \<in> occ L \<Longrightarrow> anchored L"
  by (auto simp: home_ok_def split: if_splits)

lemma window_price: "window_ok L \<Longrightarrow> i \<in> occ L \<Longrightarrow> l_price (levels L ! i) = base L + int i"
  by (simp add: window_ok_def)

lemma amap_contents:
  assumes inv: "ladder_inv L"
  shows "amap L p = Some l \<longleftrightarrow> l \<in> contents L \<and> l_price l = p"
proof -
  note I = ladder_invD [OF inv]
  have t: "tail_inv (tail L)" using I(1) by (simp add: ladder_shape_def)
  have W: "l_price (levels L ! i) = base L + int i" "in_window L (base L + int i)" if "i \<in> occ L" for i
    using that I(3,5) by (auto simp: window_ok_def in_window_base occ_less home_anchored)
  show ?thesis
  proof (cases "in_window L p")
    case True
    let ?i = "window_index L p"
    from True have "anchored L" by (simp add: in_window_def)
    then have notail: "l \<in> set (tail_list (tail L)) \<Longrightarrow> l_price l \<noteq> p" using I(5) True by (auto simp: home_ok_def)
    have occ: "?i \<in> occ L \<longleftrightarrow> test_bit (bits L) ?i" using window_index_less [OF True] by (simp add: occ_def)
    have uniq: "i = ?i" if "i \<in> occ L" "l_price (levels L ! i) = p" for i
      using W [OF that(1)] that(2) window_index_base [of L i] by simp
    show ?thesis
      using True notail occ uniq window_index_price [OF True] W
      by (auto simp: amap_def Let_def contents_def)
  next
    case False
    then have "l_price (levels L ! i) \<noteq> p" if "i \<in> occ L" for i using W [OF that] by auto
    then show ?thesis
      using False by (auto simp: amap_def contents_def tail_price_unique [OF t])
  qed
qed

lemma amap_eqI:
  "ladder_inv L \<Longrightarrow> ladder_inv L' \<Longrightarrow> contents L' = contents L \<Longrightarrow> amap L' = amap L"
  by (rule map_eqI) (simp add: amap_contents)

lemma amap_price: "ladder_inv L \<Longrightarrow> amap L p = Some l \<Longrightarrow> l_price l = p"
  by (simp add: amap_contents)

lemma inj_on_window: "window_ok L \<Longrightarrow> inj_on (\<lambda>i. l_price (levels L ! i)) (occ L)"
  by (auto simp: inj_on_def window_ok_def)

lemma contents_disjoint:
  assumes "window_ok L" "home_ok L"
  shows "(\<lambda>i. l_price (levels L ! i)) ` occ L \<inter> l_price ` set (tail_list (tail L)) = {}"
proof -
  have "in_window L (l_price (levels L ! i))" if "i \<in> occ L" for i
    using assms that by (auto simp: window_ok_def in_window_base occ_less home_anchored)
  moreover have "\<not> in_window L (l_price l)" if "l \<in> set (tail_list (tail L))" for l
    using assms that by (auto simp: home_ok_def in_window_def split: if_splits)
  ultimately show ?thesis by fastforce
qed

lemma dom_amap: "ladder_inv L \<Longrightarrow> dom (amap L) = l_price ` contents L"
  by (auto simp: amap_contents)

lemma card_amap:
  assumes inv: "ladder_inv L"
  shows "card (dom (amap L)) = window_count L + t_n (tail L)" "finite (dom (amap L))"
proof -
  note I = ladder_invD [OF inv]
  have t: "tail_inv (tail L)" using I(1) by (simp add: ladder_shape_def)
  have eq: "dom (amap L) = (\<lambda>i. l_price (levels L ! i)) ` occ L \<union> l_price ` set (tail_list (tail L))"
    using inv by (simp add: dom_amap contents_def image_Un image_image)
  moreover have "card ((\<lambda>i. l_price (levels L ! i)) ` occ L) = window_count L"
    using I(3) by (simp add: card_image inj_on_window) (simp add: window_ok_def)
  moreover have "card (l_price ` set (tail_list (tail L))) = t_n (tail L)"
    using card_tail_map [OF t] by (simp add: dom_level_map)
  ultimately show "card (dom (amap L)) = window_count L + t_n (tail L)"
    using contents_disjoint [OF I(3,5)] by (simp add: card_Un_disjoint)
  show "finite (dom (amap L))" using eq by simp
qed

section \<open>The bitmap walk\<close>

lemma best_of_highest:
  assumes "is_bid L" "best_idx L = r" "highest (test_bit (bits L)) n r" "n < int (window_size L)"
    and above: "\<And>i. i \<in> occ L \<Longrightarrow> int i \<le> n"
  shows "best_ok L"
  using assms(3) unfolding highest_def
proof (elim disjE exE conjE)
  assume "r = -1" "\<forall>k. int k \<le> n \<longrightarrow> \<not> test_bit (bits L) k"
  with above assms(2) show ?thesis by (force simp: best_ok_def occ_def)
next
  fix m assume m: "r = int m" "int m \<le> n" "test_bit (bits L) m"
    "\<forall>k. m < k \<longrightarrow> int k \<le> n \<longrightarrow> \<not> test_bit (bits L) k"
  then have "m \<in> occ L" using assms(4) by (simp add: occ_def)
  moreover have "\<not> better_idx (is_bid L) (int j) (int m)" if "j \<in> occ L" for j
    using that above [OF that] m(4) assms(1) by (force simp: better_idx_def occ_def)
  ultimately show ?thesis using m(1) assms(2) by (auto simp: best_ok_def)
qed

lemma best_of_lowest:
  assumes "\<not> is_bid L" "best_idx L = r" "lowest (test_bit (bits L)) (window_size L) n r"
    and below: "\<And>i. i \<in> occ L \<Longrightarrow> n \<le> int i"
  shows "best_ok L"
  using assms(3) unfolding lowest_def
proof (elim disjE exE conjE)
  assume "r = -1" "\<forall>k. n \<le> int k \<longrightarrow> k < window_size L \<longrightarrow> \<not> test_bit (bits L) k"
  with below assms(2) show ?thesis by (force simp: best_ok_def occ_def)
next
  fix m assume m: "r = int m" "n \<le> int m" "m < window_size L" "test_bit (bits L) m"
    "\<forall>k. n \<le> int k \<longrightarrow> k < m \<longrightarrow> \<not> test_bit (bits L) k"
  then have "m \<in> occ L" by (simp add: occ_def)
  moreover have "\<not> better_idx (is_bid L) (int j) (int m)" if "j \<in> occ L" for j
    using that below [OF that] m(5) assms(1) by (force simp: better_idx_def occ_def)
  ultimately show ?thesis using m(1) assms(2) by (auto simp: best_ok_def)
qed

lemma best_in_window_ok:
  assumes shape: "ladder_shape L"
  shows "best_ok (L\<lparr>best_idx := best_in_window L\<rparr>)"
proof (cases "is_bid L")
  case True
  have "highest (test_bit (bits L)) (int (window_size L) - 1) (scan_down (bits L) (int (window_size L) - 1))"
    using shape_bits [OF shape] by (intro scan_down_spec) simp
  then show ?thesis using True
    by (intro best_of_highest [of _ _ "int (window_size L) - 1"]) (auto simp: occ_def best_in_window_def)
next
  case False
  have "lowest (test_bit (bits L)) (window_size L) 0 (scan_up (bits L) 0)"
    using scan_up_spec [of 0 "bits L"] shape_bits [OF shape] by simp
  then show ?thesis using False by (intro best_of_lowest [of _ _ 0]) (auto simp: best_in_window_def)
qed

text \<open>After the best bit \<open>i\<close> has been cleared, the scan from it finds the new best.\<close>

lemma next_worse_ok:
  assumes shape: "ladder_shape L" and i: "i < window_size L" "i \<notin> occ L"
    and worse: "\<And>j. j \<in> occ L \<Longrightarrow> \<not> better_idx (is_bid L) (int j) (int i)"
  shows "best_ok (L\<lparr>best_idx := next_worse L (int i)\<rparr>)"
proof -
  have ne: "j \<noteq> i" if "j \<in> occ L" for j using that i(2) by auto
  show ?thesis
  proof (cases "is_bid L")
    case True
    have "highest (test_bit (bits L)) (int i - 1) (scan_down (bits L) (int i - 1))"
      using shape_bits [OF shape] i(1) by (intro scan_down_spec) simp
    moreover have "int j \<le> int i - 1" if "j \<in> occ L" for j
      using worse [OF that] ne [OF that] True by (simp add: better_idx_def)
    ultimately show ?thesis using True i(1)
      by (intro best_of_highest [of _ _ "int i - 1"]) (auto simp: occ_def next_worse_def)
  next
    case False
    have "lowest (test_bit (bits L)) (window_size L) (int i + 1) (scan_up (bits L) (int i + 1))"
      using scan_up_spec [of "int i + 1" "bits L"] shape_bits [OF shape] by simp
    moreover have "int i + 1 \<le> int j" if "j \<in> occ L" for j
      using worse [OF that] ne [OF that] False by (simp add: better_idx_def)
    ultimately show ?thesis using False
      by (intro best_of_lowest [of _ _ "int i + 1"]) (auto simp: occ_def next_worse_def)
  qed
qed

section \<open>Lookups\<close>

lemma deref_window [run_simps]: "ladder_shape L \<Longrightarrow> i < window_size L \<Longrightarrow> deref L (WindowRef i) = Some (levels L ! i)"
  by (simp add: deref_def ladder_shape_def run_simps)

lemma deref_tail [run_simps]: "ladder_shape L \<Longrightarrow> i < t_n (tail L) \<Longrightarrow> deref L (TailRef i) = Some (t_buf (tail L) ! i)"
  by (simp add: deref_def ladder_shape_def tail_inv_def tail_shape_def run_simps)

text \<open>\<open>ref_at L p r\<close>: \<open>r\<close> points to the live level with price \<open>p\<close>.\<close>

definition ref_at :: "ladder \<Rightarrow> price \<Rightarrow> level_ref \<Rightarrow> bool" where
  "ref_at L p r \<longleftrightarrow> (\<exists>l. deref L r = Some l \<and> l_price l = p \<and> (case r of WindowRef i \<Rightarrow> i \<in> occ L | TailRef i \<Rightarrow> i < t_n (tail L)))"

lemma tail_nth_mem: "tail_inv t \<Longrightarrow> i < t_n t \<Longrightarrow> t_buf t ! i \<in> set (tail_list t)"
  by (metis length_tail_list nth_mem tail_inv_def tail_nth)

lemma ref_at_deref:
  assumes inv: "ladder_inv L" and r: "ref_at L p r"
  shows "deref L r = amap L p" "\<exists>l. amap L p = Some l"
proof -
  note I = ladder_invD [OF inv]
  from r obtain l where l: "deref L r = Some l" "l_price l = p"
    and live: "case r of WindowRef i \<Rightarrow> i \<in> occ L | TailRef i \<Rightarrow> i < t_n (tail L)" by (auto simp: ref_at_def)
  have "l \<in> contents L"
    using l live I(1) by (cases r)
      (auto simp: contents_def run_simps occ_less ladder_shape_def intro: tail_nth_mem)
  with l inv have "amap L p = Some l" by (simp add: amap_contents)
  with l show "deref L r = amap L p" "\<exists>l. amap L p = Some l" by simp_all
qed

lemma find_level_ok:
  assumes inv: "ladder_inv L"
  shows "case find_level L p of None \<Rightarrow> amap L p = None | Some r \<Rightarrow> ref_at L p r"
proof (cases "in_window L p")
  case True
  note I = ladder_invD [OF inv]
  from True I have "test_bit (bits L) (window_index L p) \<Longrightarrow> l_price (levels L ! window_index L p) = p"
    using window_price [OF I(3), of "window_index L p"] window_index_less [OF True] window_index_price [OF True]
    by (simp add: occ_def)
  then show ?thesis
    using True window_index_less [OF True] I(1)
    by (auto simp: find_level_def amap_def Let_def ref_at_def run_simps occ_def)
next
  case False
  have t: "tail_inv (tail L)" using inv by (simp add: ladder_inv_def ladder_shape_def)
  show ?thesis
    using False tail_find_spec [OF t, of p] ladder_invD(1) [OF inv]
    by (auto simp: find_level_def amap_def ref_at_def run_simps split: option.splits)
qed

lemma better_key: "better b x y \<longleftrightarrow> price_key b y < price_key b x"
  by (simp add: better_def price_key_def)

lemma window_best:
  assumes inv: "ladder_inv L" and b: "best_idx L = int i" "i \<in> occ L"
    and best: "\<forall>j \<in> occ L. \<not> better_idx (is_bid L) (int j) (int i)"
  shows "j \<in> occ L \<Longrightarrow> lkey (is_bid L) (levels L ! j) \<le> lkey (is_bid L) (levels L ! i)"
  using best b(2) ladder_invD(3) [OF inv]
  by (fastforce simp: lkey_def price_key_def better_idx_def window_ok_def)

lemma amap_dom_cases:
  "ladder_inv L \<Longrightarrow> q \<in> dom (amap L) \<Longrightarrow> (\<exists>i \<in> occ L. q = l_price (levels L ! i)) \<or> q \<in> dom (level_map (tail_list (tail L)))"
  by (auto simp: dom_amap contents_def dom_level_map)

lemma ref_at_window: "ladder_inv L \<Longrightarrow> i \<in> occ L \<Longrightarrow> ref_at L (l_price (levels L ! i)) (WindowRef i)"
  using ladder_invD(1) [of L] by (simp add: ref_at_def run_simps occ_less)

lemma ref_at_tail: "ladder_inv L \<Longrightarrow> i < t_n (tail L) \<Longrightarrow> ref_at L (l_price (t_buf (tail L) ! i)) (TailRef i)"
  using ladder_invD(1) [of L] by (simp add: ref_at_def run_simps)

text \<open>When both the window and the tail have levels, the better of their best ones is the best.\<close>

lemma best_of_both:
  assumes inv: "ladder_inv L" and i: "i \<in> occ L" "best_idx L = int i" "\<forall>j \<in> occ L. \<not> better_idx (is_bid L) (int j) (int i)"
    and k: "tail_best (tail L) = Some k"
  shows "\<exists>r p. best L = Some r \<and> ref_at L p r \<and> (\<forall>q \<in> dom (amap L). price_key (is_bid L) q \<le> price_key (is_bid L) p)"
proof -
  let ?t = "tail L" and ?pt = "l_price (t_buf (tail L) ! k)" and ?pw = "l_price (levels L ! i)"
  have t: "tail_inv ?t" "t_is_bid ?t = is_bid L" using ladder_invD(1) [OF inv] by (auto simp: ladder_shape_def)
  have kt: "k < t_n ?t" "\<And>p. p \<in> dom (level_map (tail_list ?t)) \<Longrightarrow> price_key (is_bid L) p \<le> price_key (is_bid L) ?pt"
    using tail_best_spec [OF t(1)] k by (auto simp: t(2) lkey_def)
  have bound: "price_key (is_bid L) q \<le> max (price_key (is_bid L) ?pt) (price_key (is_bid L) ?pw)" if "q \<in> dom (amap L)" for q
    using amap_dom_cases [OF inv that] kt(2) window_best [OF inv i(2,1,3)] by (fastforce simp: lkey_def max_def)
  show ?thesis
  proof (cases "better (is_bid L) ?pt ?pw")
    case True
    then have "best L = Some (TailRef k)" using k i by (simp add: best_def)
    with True bound ref_at_tail [OF inv kt(1)] show ?thesis by (fastforce simp: better_key max_def)
  next
    case False
    then have "best L = Some (WindowRef i)" using k i by (simp add: best_def)
    with False bound ref_at_window [OF inv i(1)] show ?thesis by (fastforce simp: better_key max_def)
  qed
qed

lemma best_level_ok:
  assumes inv: "ladder_inv L"
  shows "case best L of None \<Rightarrow> amap L = Map.empty
    | Some r \<Rightarrow> \<exists>p. ref_at L p r \<and> (\<forall>q \<in> dom (amap L). price_key (is_bid L) q \<le> price_key (is_bid L) p)"
proof -
  note I = ladder_invD [OF inv] and dom = amap_dom_cases [OF inv]
  let ?t = "tail L"
  have t: "tail_inv ?t" "t_is_bid ?t = is_bid L" using I(1) by (auto simp: ladder_shape_def)
  note tb = tail_best_spec [OF t(1)]
  from I(4) consider (none) "best_idx L = -1" "occ L = {}"
    | (some) i where "i \<in> occ L" "best_idx L = int i" "\<forall>j \<in> occ L. \<not> better_idx (is_bid L) (int j) (int i)"
    by (auto simp: best_ok_def)
  then show ?thesis
  proof cases
    case none
    then show ?thesis
    proof (cases "tail_best ?t")
      case None
      with none dom tb have "dom (amap L) = {}" by fastforce
      with none None show ?thesis by (simp add: best_def)
    next
      case (Some k)
      with none dom tb ref_at_tail [OF inv, of k] show ?thesis
        by (auto simp: best_def t(2) lkey_def intro!: exI [of _ "l_price (t_buf ?t ! k)"] dest!: dom)
    qed
  next
    case (some i)
    show ?thesis
    proof (cases "tail_best ?t")
      case None
      with some dom tb window_best [OF inv some(2,1,3)] ref_at_window [OF inv, of i] show ?thesis
        by (auto simp: best_def lkey_def intro!: exI [of _ "l_price (levels L ! i)"] dest!: dom)
    next
      case (Some k)
      from best_of_both [OF inv some Some] show ?thesis by auto
    qed
  qed
qed

lemma ladder_empty_iff: "ladder_inv L \<Longrightarrow> ladder_empty L \<longleftrightarrow> amap L = Map.empty"
  using card_amap [of L] by (simp add: ladder_empty_def tail_empty_def card_eq_0_iff del: dom_eq_empty_conv)
    (auto simp: dom_eq_empty_conv)

section \<open>Writing and erasing a level\<close>

text \<open>The template parameters never change.\<close>

definition ladder_same :: "ladder \<Rightarrow> ladder \<Rightarrow> bool" where
  "ladder_same L L' \<longleftrightarrow> is_bid L' = is_bid L \<and> window_size L' = window_size L \<and>
     t_capacity (tail L') = t_capacity (tail L)"

lemma ladder_same_refl [simp]: "ladder_same L L"
  by (simp add: ladder_same_def)

lemma ladder_same_trans: "ladder_same L M \<Longrightarrow> ladder_same M N \<Longrightarrow> ladder_same L N"
  by (simp add: ladder_same_def)

lemma ref_window_index:
  assumes inv: "ladder_inv L" and r: "ref_at L p (WindowRef i)"
  shows "i \<in> occ L" "in_window L p" "window_index L p = i"
proof -
  note I = ladder_invD [OF inv]
  from r I(1) show i: "i \<in> occ L" by (auto simp: ref_at_def)
  with r I have "p = base L + int i" by (auto simp: ref_at_def run_simps occ_less window_price)
  then show "in_window L p" "window_index L p = i"
    using i I by (auto simp: in_window_base window_index_base occ_less home_anchored)
qed

lemma ref_tail_index:
  assumes inv: "ladder_inv L" and r: "ref_at L p (TailRef i)"
  shows "i < t_n (tail L)" "\<not> in_window L p" "l_price (t_buf (tail L) ! i) = p"
proof -
  note I = ladder_invD [OF inv]
  from r show i: "i < t_n (tail L)" by (auto simp: ref_at_def)
  with r I(1) show p: "l_price (t_buf (tail L) ! i) = p" by (auto simp: ref_at_def run_simps)
  have "t_buf (tail L) ! i \<in> set (tail_list (tail L))"
    using i I(1) by (auto simp: ladder_shape_def intro: tail_nth_mem)
  with p I(5) show "\<not> in_window L p" by (auto simp: home_ok_def in_window_def split: if_splits)
qed

lemma ref_at_cong:
  assumes "map_option l_price (deref L' s) = map_option l_price (deref L s)" "occ L' = occ L" "t_n (tail L') = t_n (tail L)"
  shows "ref_at L' q s \<longleftrightarrow> ref_at L q s"
proof -
  have "ref_at M q s \<longleftrightarrow> map_option l_price (deref M s) = Some q \<and>
      (case s of WindowRef i \<Rightarrow> i \<in> occ M | TailRef i \<Rightarrow> i < t_n (tail M))" for M
    by (auto simp: ref_at_def)
  with assms show ?thesis by (simp only:)
qed

lemma store_window_ok:
  assumes inv: "ladder_inv L" and r: "ref_at L p (WindowRef i)" and p: "l_price l = p"
  defines "L' \<equiv> L\<lparr>levels := (levels L)[i := l]\<rparr>"
  shows "store_level L (WindowRef i) l = Some L'" "ladder_inv L'" "amap L' = (amap L)(p \<mapsto> l)"
    "ref_at L' q s \<longleftrightarrow> ref_at L q s"
proof -
  note I = ladder_invD [OF inv] and R = ref_window_index [OF inv r]
  have len: "i < length (levels L)" using I(1) occ_less [OF R(1)] by (simp add: ladder_shape_def)
  then show "store_level L (WindowRef i) l = Some L'" by (simp add: store_level_def run_simps L'_def)
  have [simp]: "occ L' = occ L" by (simp add: occ_def L'_def)
  have w: "\<And>x. in_window L' x = in_window L x" "\<And>x. window_index L' x = window_index L x"
    by (simp_all add: in_window_def window_index_def L'_def)
  have pi: "p = base L + int i" using window_index_price [OF R(2)] R(3) by simp
  have same: "l_price (levels L' ! j) = l_price (levels L ! j)" if "j \<in> occ L" for j
    using window_price [OF I(3) R(1)] len p pi by (cases "j = i") (simp_all add: L'_def)
  have "ladder_shape L'" using I(1) by (simp add: ladder_shape_def L'_def)
  moreover have "window_ok L'" using I(3) same by (simp add: window_ok_def) (simp add: L'_def)
  moreover have "best_ok L'" using I(4) by (simp add: best_ok_def) (simp add: L'_def)
  moreover have "home_ok L'" using I(5) by (simp add: home_ok_def w) (simp add: L'_def)
  ultimately show "ladder_inv L'" using I(2) by (simp add: ladder_inv_def) (simp add: L'_def)
  have idx: "window_index L x = i \<longleftrightarrow> x = p" if "in_window L x" for x
    using window_index_price [OF that] R(3) pi by auto
  have "test_bit (bits L) i" using R(1) by (simp add: occ_def)
  then show "amap L' = (amap L)(p \<mapsto> l)"
    using R(2,3) len idx by (auto simp: fun_eq_iff amap_def w Let_def) (auto simp: L'_def nth_list_update)
  have "l_price (levels L ! i) = p" using window_price [OF I(3) R(1)] pi by simp
  then show "ref_at L' q s \<longleftrightarrow> ref_at L q s"
    using len p by (intro ref_at_cong)
      (auto simp: deref_def vread_def L'_def nth_list_update split: level_ref.split, auto simp: occ_def)
qed

lemma store_tail_ok:
  assumes inv: "ladder_inv L" and r: "ref_at L p (TailRef i)" and p: "l_price l = p"
  defines "L' \<equiv> L\<lparr>tail := (tail L)\<lparr>t_buf := (t_buf (tail L))[i := l]\<rparr>\<rparr>"
  shows "store_level L (TailRef i) l = Some L'" "ladder_inv L'" "amap L' = (amap L)(p \<mapsto> l)"
    "ref_at L' q s \<longleftrightarrow> ref_at L q s"
proof -
  note I = ladder_invD [OF inv] and R = ref_tail_index [OF inv r]
  let ?t = "tail L"
  have t: "tail_inv ?t" and len: "i < length (t_buf ?t)"
    using I(1) R(1) by (auto simp: ladder_shape_def tail_inv_def tail_shape_def)
  then show "store_level L (TailRef i) l = Some L'" using R(1) by (simp add: store_level_def run_simps L'_def)
  note T = tail_write_ok [OF t R(1), of l, unfolded R(3), OF p]
  have [simp]: "occ L' = occ L" by (simp add: occ_def L'_def)
  have w: "\<And>x. in_window L' x = in_window L x" "\<And>x. window_index L' x = window_index L x"
    by (simp_all add: in_window_def window_index_def L'_def)
  have "dom (level_map (tail_list (tail L'))) = dom (level_map (tail_list ?t))"
    using T tail_nth_mem [OF t R(1)] R(3) p by (auto simp: L'_def dom_level_map)
  then have prices: "l_price ` set (tail_list (tail L')) = l_price ` set (tail_list ?t)" by (simp add: dom_level_map)
  have "ladder_shape L'" using I(1) T by (simp add: ladder_shape_def L'_def)
  moreover have "window_ok L'" using I(3) by (simp add: window_ok_def) (simp add: L'_def)
  moreover have "best_ok L'" using I(4) by (simp add: best_ok_def) (simp add: L'_def)
  moreover have "(\<forall>x \<in> l_price ` set (tail_list (tail L')). \<not> in_window L x) \<longleftrightarrow>
      (\<forall>x \<in> l_price ` set (tail_list ?t). \<not> in_window L x)" by (simp only: prices)
  then have "home_ok L'" using I(5) by (simp add: home_ok_def w) (simp add: L'_def)
  ultimately show "ladder_inv L'" using I(2) by (simp add: ladder_inv_def) (simp add: L'_def)
  show "amap L' = (amap L)(p \<mapsto> l)"
    using R(2) T p by (auto simp: fun_eq_iff amap_def w Let_def) (auto simp: L'_def)
  show "ref_at L' q s \<longleftrightarrow> ref_at L q s"
    using len p R(3) by (intro ref_at_cong)
      (auto simp: deref_def vread_def L'_def nth_list_update split: level_ref.split, auto simp: occ_def)
qed

lemma store_level_ok:
  assumes "ladder_inv L" "ref_at L p r" "l_price l = p"
  shows "\<exists>L'. store_level L r l = Some L' \<and> ladder_inv L' \<and> amap L' = (amap L)(p \<mapsto> l) \<and> ladder_same L L' \<and>
    (\<forall>q s. ref_at L' q s \<longleftrightarrow> ref_at L q s)"
  using assms store_window_ok store_tail_ok by (cases r) (fastforce simp: ladder_same_def)+

lemma occ_bit_off:
  "ladder_shape L \<Longrightarrow> i < window_size L \<Longrightarrow> {j. j < window_size L \<and> test_bit (bit_off (bits L) i) j} = occ L - {i}"
  using shape_bits [of L] by (auto simp: occ_def test_bit_off)

lemma occ_bit_on:
  "ladder_shape L \<Longrightarrow> i < window_size L \<Longrightarrow> {j. j < window_size L \<and> test_bit (bit_on (bits L) i) j} = insert i (occ L)"
  using shape_bits [of L] by (auto simp: occ_def test_bit_on)

lemma erase_window_ok:
  assumes inv: "ladder_inv L" and r: "ref_at L p (WindowRef i)"
  shows "\<exists>L'. erase_level L (WindowRef i) = Some L' \<and> ladder_inv L' \<and> amap L' = (amap L)(p := None) \<and> ladder_same L L'"
proof -
  note I = ladder_invD [OF inv] and R = ref_window_index [OF inv r]
  let ?L = "L\<lparr>bits := bit_off (bits L) i, window_count := window_count L - 1\<rparr>"
  define L' where "L' = (if int i = best_idx ?L then ?L\<lparr>best_idx := next_worse ?L (best_idx ?L)\<rparr> else ?L)"
  have i: "i < window_size L" using R(1) by (rule occ_less)
  from r obtain l where l: "deref L (WindowRef i) = Some l" "l_price l = p" by (auto simp: ref_at_def)
  have run: "erase_level L (WindowRef i) = Some L'"
    using l R by (simp add: erase_level_def Let_def L'_def)
  have fields: "bits L' = bit_off (bits L) i" "window_size L' = window_size L" "levels L' = levels L"
    "tail L' = tail L" "base L' = base L" "anchored L' = anchored L" "is_bid L' = is_bid L"
    "window_count L' = window_count L - 1"
    by (simp_all add: L'_def)
  have occ': "occ L' = occ L - {i}" "occ ?L = occ L - {i}"
    using occ_bit_off [OF I(1) i] fields by (simp_all add: occ_def)
  have w: "\<And>x. in_window L' x = in_window L x" "\<And>x. window_index L' x = window_index L x"
    using fields by (simp_all add: in_window_def window_index_def)
  have shape: "ladder_shape L'" "ladder_shape ?L" using I(1) fields by (simp_all add: ladder_shape_def)
  moreover have "window_ok L'"
    using I(3) R(1) fields occ'(1) by (simp add: window_ok_def)
  moreover have "best_ok L'"
  proof (cases "int i = best_idx L")
    case True
    then have best: "\<not> better_idx (is_bid L) (int j) (int i)" if "j \<in> occ L" for j
      using I(4) R(1) that by (auto simp: best_ok_def)
    have "best_ok (?L\<lparr>best_idx := next_worse ?L (int i)\<rparr>)"
      using best occ'(2) i by (intro next_worse_ok [OF shape(2)]) auto
    with True show ?thesis by (simp add: L'_def)
  next
    case False
    then have "L' = ?L" by (simp add: L'_def)
    with False I(4) R(1) occ' show ?thesis by (auto simp: best_ok_def)
  qed
  moreover have "home_ok L'" using I(5) fields occ' w by (auto simp: home_ok_def split: if_splits)
  ultimately have inv': "ladder_inv L'" using I(2) fields by (simp add: ladder_inv_def)
  have idx: "window_index L x = i \<longleftrightarrow> x = p" if "in_window L x" for x
    using window_index_price [OF that] window_index_price [OF R(2)] R(3) by auto
  have "test_bit (bits L') j \<longleftrightarrow> j \<noteq> i \<and> test_bit (bits L) j" for j
    using i shape_bits [OF I(1)] fields by (simp add: test_bit_off)
  then have "amap L' = (amap L)(p := None)"
    using R(2,3) idx fields w by (auto simp: fun_eq_iff amap_def Let_def)
  with run inv' fields show ?thesis by (auto simp: ladder_same_def)
qed

lemma erase_tail_ok:
  assumes inv: "ladder_inv L" and r: "ref_at L p (TailRef i)"
  shows "\<exists>L'. erase_level L (TailRef i) = Some L' \<and> ladder_inv L' \<and> amap L' = (amap L)(p := None) \<and> ladder_same L L'"
proof -
  note I = ladder_invD [OF inv] and R = ref_tail_index [OF inv r]
  let ?t = "tail_erase (tail L) p"
  let ?L = "L\<lparr>tail := ?t\<rparr>"
  have t: "tail_inv (tail L)" using I(1) by (simp add: ladder_shape_def)
  have "level_map (tail_list (tail L)) p = Some (t_buf (tail L) ! i)"
    using tail_nth_mem [OF t R(1)] R(3) by (simp add: tail_price_unique [OF t])
  note T = tail_erase_ok [OF t this]
  from r obtain l where l: "deref L (TailRef i) = Some l" "l_price l = p" by (auto simp: ref_at_def)
  then have run: "erase_level L (TailRef i) = Some ?L" using R(2) by (simp add: erase_level_def)
  have [simp]: "occ ?L = occ L" by (simp add: occ_def)
  have w: "\<And>x. in_window ?L x = in_window L x" "\<And>x. window_index ?L x = window_index L x"
    by (simp_all add: in_window_def window_index_def)
  have "dom (level_map (tail_list ?t)) = dom (level_map (tail_list (tail L))) - {p}" using T by simp
  then have sub: "l_price ` set (tail_list ?t) \<subseteq> l_price ` set (tail_list (tail L))" by (auto simp: dom_level_map)
  have "ladder_shape ?L" using I(1) T by (simp add: ladder_shape_def tail_same_def)
  moreover have "window_ok ?L" using I(3) by (simp add: window_ok_def)
  moreover have "best_ok ?L" using I(4) by (simp add: best_ok_def)
  moreover have "home_ok ?L"
  proof (cases "anchored L")
    case True
    then have "\<not> in_window L x" if "x \<in> l_price ` set (tail_list (tail L))" for x
      using I(5) that by (auto simp: home_ok_def)
    with sub True I(5) show ?thesis by (fastforce simp: home_ok_def w)
  next
    case False
    with I(5) R(1) show ?thesis by (simp add: home_ok_def)
  qed
  ultimately have "ladder_inv ?L" using I(2) T by (simp add: ladder_inv_def tail_same_def)
  moreover have "amap ?L = (amap L)(p := None)"
    using R(2) T by (auto simp: fun_eq_iff amap_def w Let_def)
  ultimately show ?thesis using run T by (auto simp: ladder_same_def tail_same_def)
qed

lemma erase_level_ok:
  assumes "ladder_inv L" "ref_at L p r"
  shows "\<exists>L'. erase_level L r = Some L' \<and> ladder_inv L' \<and> amap L' = (amap L)(p := None) \<and> ladder_same L L'"
  using assms erase_window_ok erase_tail_ok by (cases r) blast+

section \<open>Recentering: eviction\<close>

text \<open>
  \<open>evicted nb ne L ks L'\<close>: of the window slots \<open>ks\<close>, those with a price outside \<open>[nb, ne)\<close> have
  been staged in this order, and their bits cleared.
\<close>

definition outside :: "price \<Rightarrow> price \<Rightarrow> ladder \<Rightarrow> nat \<Rightarrow> bool" where
  "outside nb ne L i \<longleftrightarrow> l_price (levels L ! i) < nb \<or> l_price (levels L ! i) \<ge> ne"

definition evicted :: "price \<Rightarrow> price \<Rightarrow> ladder \<Rightarrow> nat list \<Rightarrow> ladder \<Rightarrow> bool" where
  "evicted nb ne L ks L' \<longleftrightarrow>
     (\<exists>t b. L' = L\<lparr>tail := t, bits := b, window_count := window_count L - length (filter (outside nb ne L) ks)\<rparr> \<and>
       length b = length (bits L) \<and>
       (\<forall>j < window_size L. test_bit b j \<longleftrightarrow> test_bit (bits L) j \<and> \<not> (j \<in> set ks \<and> outside nb ne L j)) \<and>
       tail_shape t \<and> tail_list t = tail_list (tail L) \<and> t_n t = t_n (tail L) \<and>
       staged_list t = staged_list (tail L) @ map (\<lambda>i. levels L ! i) (filter (outside nb ne L) ks) \<and>
       t_staged t = t_staged (tail L) + length (filter (outside nb ne L) ks) \<and>
       t_is_bid t = t_is_bid (tail L) \<and> t_capacity t = t_capacity (tail L) \<and> t_scratch t = t_scratch (tail L))"

lemma evicted_refl: "tail_shape (tail L) \<Longrightarrow> evicted nb ne L [] L"
  unfolding evicted_def by (intro exI [of _ "tail L"] exI [of _ "bits L"]) simp

lemma evicted_levels: "evicted nb ne L ks L' \<Longrightarrow> levels L' = levels L \<and> window_size L' = window_size L"
  by (auto simp: evicted_def)

lemma evicted_staged:
  "evicted nb ne L ks L' \<Longrightarrow> t_staged (tail L') \<le> t_staged (tail L) + length ks \<and> t_scratch (tail L') = t_scratch (tail L)"
  unfolding evicted_def by (elim exE conjE) (simp add: length_filter_le)

lemma evicted_trans:
  assumes "evicted nb ne L ks M" "evicted nb ne M js N"
  shows "evicted nb ne L (ks @ js) N"
proof -
  have [simp]: "outside nb ne M = outside nb ne L"
    using evicted_levels [OF assms(1)] by (simp add: outside_def fun_eq_iff)
  let ?out = "filter (outside nb ne L)"
  from assms(1) obtain t b where 1: "M = L\<lparr>tail := t, bits := b, window_count := window_count L - length (?out ks)\<rparr>"
    "length b = length (bits L)"
    "\<forall>j < window_size L. test_bit b j \<longleftrightarrow> test_bit (bits L) j \<and> \<not> (j \<in> set ks \<and> outside nb ne L j)"
    "tail_list t = tail_list (tail L)" "t_n t = t_n (tail L)"
    "staged_list t = staged_list (tail L) @ map (\<lambda>i. levels L ! i) (?out ks)"
    "t_staged t = t_staged (tail L) + length (?out ks)"
    "t_is_bid t = t_is_bid (tail L)" "t_capacity t = t_capacity (tail L)" "t_scratch t = t_scratch (tail L)"
    unfolding evicted_def by blast
  from assms(2) obtain u c where 2: "N = M\<lparr>tail := u, bits := c, window_count := window_count M - length (?out js)\<rparr>"
    "length c = length (bits M)"
    "\<forall>j < window_size M. test_bit c j \<longleftrightarrow> test_bit (bits M) j \<and> \<not> (j \<in> set js \<and> outside nb ne L j)"
    "tail_shape u" "tail_list u = tail_list (tail M)" "t_n u = t_n (tail M)"
    "staged_list u = staged_list (tail M) @ map (\<lambda>i. levels M ! i) (?out js)"
    "t_staged u = t_staged (tail M) + length (?out js)"
    "t_is_bid u = t_is_bid (tail M)" "t_capacity u = t_capacity (tail M)" "t_scratch u = t_scratch (tail M)"
    unfolding evicted_def by auto
  show ?thesis
    unfolding evicted_def using 1 2 by (intro exI [of _ u] exI [of _ c]) (simp, blast)
qed

lemma evict_one_ok:
  assumes shape: "ladder_shape L" "tail_shape (tail L)" and i: "i < window_size L"
    and room: "t_staged (tail L) < t_scratch (tail L)"
  shows "\<exists>L'. evict_one nb ne i L = Some L' \<and> evicted nb ne L [i] L'"
proof (cases "outside nb ne L i")
  case True
  from stage_ok [OF shape(2) room, of "levels L ! i"] obtain t where
    t: "stage (tail L) (levels L ! i) = Some t" "tail_shape t" "tail_list t = tail_list (tail L)"
      "staged_list t = staged_list (tail L) @ [levels L ! i]" "t_staged t = t_staged (tail L) + 1"
      "t_n t = t_n (tail L)" "t_is_bid t = t_is_bid (tail L)" "t_capacity t = t_capacity (tail L)"
      "t_scratch t = t_scratch (tail L)" by blast
  let ?L = "L\<lparr>tail := t, bits := bit_off (bits L) i, window_count := window_count L - 1\<rparr>"
  have "evict_one nb ne i L = Some ?L"
    using True t(1) i shape by (auto simp: evict_one_def outside_def run_simps ladder_shape_def)
  moreover have "evicted nb ne L [i] ?L"
    unfolding evicted_def using True t(2-) i shape_bits [OF shape(1)]
    by (intro exI [of _ t] exI [of _ "bit_off (bits L) i"]) (auto simp: test_bit_off)
  ultimately show ?thesis by blast
next
  case False
  then have "evict_one nb ne i L = Some L"
    using i shape by (auto simp: evict_one_def outside_def run_simps ladder_shape_def)
  moreover have "evicted nb ne L [i] L"
    unfolding evicted_def using False shape by (intro exI [of _ "tail L"] exI [of _ "bits L"]) auto
  ultimately show ?thesis by blast
qed

lemma evicted_shape: "evicted nb ne L ks L' \<Longrightarrow> ladder_shape L \<Longrightarrow> ladder_shape L' \<and> tail_shape (tail L')"
  by (auto simp: evicted_def ladder_shape_def tail_inv_level_sorted)

lemma evict_list_ok:
  assumes "ladder_shape L" "tail_shape (tail L)" "\<forall>i \<in> set ks. i < window_size L"
    "t_staged (tail L) + length ks \<le> t_scratch (tail L)"
  shows "\<exists>L'. foldM (evict_one nb ne) ks L = Some L' \<and> evicted nb ne L ks L'"
  using assms
proof (induction ks arbitrary: L)
  case Nil
  then show ?case by (simp add: evicted_refl)
next
  case (Cons k ks)
  then obtain M where M: "evict_one nb ne k L = Some M" "evicted nb ne L [k] M"
    using evict_one_ok [of L k nb ne] by auto
  note S = evicted_shape [OF M(2) Cons.prems(1)] evicted_levels [OF M(2)]
  obtain N where N: "foldM (evict_one nb ne) ks M = Some N" "evicted nb ne M ks N"
    using Cons.IH [of M] Cons.prems S evicted_staged [OF M(2)] by auto
  with M evicted_trans [OF M(2) N(2)] show ?case by auto
qed

lemma word_indices:
  "map (\<lambda>r. w * 64 + r) (word_bits (bs ! w)) = filter (test_bit bs) [w * 64..<(w + 1) * 64]"
proof -
  have "[w * 64..<(w + 1) * 64] = map (\<lambda>r. w * 64 + r) [0..<64]"
    using map_add_upt [of "w * 64" 64] by (simp add: add.commute)
  moreover have "filter (test_bit bs) (map (\<lambda>r. w * 64 + r) rs) = map (\<lambda>r. w * 64 + r) (filter (bit (bs ! w)) rs)"
    if "\<forall>r \<in> set rs. r < 64" for rs
    using that by (induction rs) (auto simp: test_bit_index)
  moreover have "\<forall>r \<in> set [0..<64]. r < (64::nat)" by (rule ballI) (simp only: set_upt atLeastLessThan_iff)
  ultimately show ?thesis by (simp only: word_bits_eq)
qed

lemma evict_words_ok:
  assumes shape: "ladder_shape L" "tail_shape (tail L)" "t_staged (tail L) = 0" and n: "n \<le> window_size L div 64"
  shows "\<exists>L'. foldM (\<lambda>w L. foldM (\<lambda>r. evict_one nb ne (w * 64 + r)) (word_bits (bits L ! w)) L) [0..<n] L = Some L' \<and>
    evicted nb ne L (filter (test_bit (bits L)) [0..<n * 64]) L'"
  using n
proof (induction n)
  case 0
  then show ?case using shape by (simp add: evicted_refl)
next
  case (Suc n)
  let ?done = "filter (test_bit (bits L)) [0..<n * 64]"
  from Suc obtain M where M: "foldM (\<lambda>w L. foldM (\<lambda>r. evict_one nb ne (w * 64 + r)) (word_bits (bits L ! w)) L) [0..<n] L = Some M"
    "evicted nb ne L ?done M" by auto
  note S = evicted_shape [OF M(2) shape(1)] evicted_levels [OF M(2)]
  let ?ks = "filter (test_bit (bits M)) [n * 64..<Suc n * 64]"
  have W: "Suc n * 64 \<le> window_size L" using Suc.prems by simp
  have ks: "?ks = filter (test_bit (bits L)) [n * 64..<Suc n * 64]"
    using M(2) W by (intro filter_cong) (auto simp: evicted_def)
  have split: "?done @ ?ks = filter (test_bit (bits L)) [0..<Suc n * 64]"
    unfolding ks filter_append [symmetric]
    by (metis add.commute le0 le_add1 mult_Suc upt_add_eq_append add_0)
  have "length ?done + length ?ks \<le> Suc n * 64"
    using arg_cong [OF split, of length] length_filter_le [of "test_bit (bits L)" "[0..<Suc n * 64]"] by simp
  moreover have "t_staged (tail M) \<le> length ?done" "t_scratch (tail M) = window_size L"
    using evicted_staged [OF M(2)] shape(1,3) by (simp_all add: ladder_shape_def)
  ultimately have room: "t_staged (tail M) + length ?ks \<le> t_scratch (tail M)" using W by linarith
  have "\<forall>i \<in> set ?ks. i < window_size M" using W S by auto
  from evict_list_ok [OF _ _ this room, of nb ne] S obtain N where
    N: "foldM (evict_one nb ne) ?ks M = Some N" "evicted nb ne M ?ks N" by auto
  have "foldM (\<lambda>r. evict_one nb ne (n * 64 + r)) (word_bits (bits M ! n)) M = Some N"
    using N(1) word_indices [of n "bits M"] by (simp add: foldM_map [symmetric])
  with M(1) evicted_trans [OF M(2) N(2)] split show ?case
    by (auto simp: foldM_append)
qed

section \<open>Recentering: shifting the survivors\<close>

text \<open>
  \<open>shifted d B ls ks b' ls'\<close>: the set slots among \<open>ks\<close> of the window \<open>B\<close>, \<open>ls\<close> have moved by
  \<open>- d\<close>, the others are unchanged.
\<close>

definition shifted :: "int \<Rightarrow> nat \<Rightarrow> (nat \<Rightarrow> bool) \<Rightarrow> price_level list \<Rightarrow> nat set \<Rightarrow> (nat \<Rightarrow> bool) \<Rightarrow> price_level list \<Rightarrow> bool" where
  "shifted d w B ls K B' ls' \<longleftrightarrow> length ls' = length ls \<and>
     (\<forall>j < w. B' j \<longleftrightarrow> (B j \<and> j \<notin> K) \<or> (\<exists>i \<in> K. B i \<and> int j = int i - d)) \<and>
     (\<forall>i \<in> K. B i \<longrightarrow> ls' ! nat (int i - d) = ls ! i) \<and>
     (\<forall>j < w. (\<forall>i \<in> K. B i \<longrightarrow> int j \<noteq> int i - d) \<longrightarrow> ls' ! j = ls ! j)"

lemma shift_one_ok:
  assumes shape: "ladder_shape L" and k: "k < window_size L" and "d \<noteq> 0"
    and inb: "test_bit (bits L) k \<Longrightarrow> 0 \<le> int k - d \<and> int k - d < int (window_size L)"
  shows "\<exists>b ls. shift_one d k L = Some (L\<lparr>bits := b, levels := ls\<rparr>) \<and> length b = length (bits L) \<and>
    shifted d (window_size L) (test_bit (bits L)) (levels L) {k} (test_bit b) ls"
proof (cases "test_bit (bits L) k")
  case True
  let ?to = "nat (int k - d)"
  let ?b = "bit_on (bit_off (bits L) k) ?to" and ?ls = "(levels L)[?to := levels L ! k]"
  have to: "?to < window_size L" "int ?to = int k - d" "?to \<noteq> k" using inb [OF True] \<open>d \<noteq> 0\<close> by auto
  have "shift_one d k L = Some (L\<lparr>bits := ?b, levels := ?ls\<rparr>)"
    using True to k shape inb by (simp add: shift_one_def Let_def run_simps ladder_shape_def)
  moreover have bits: "test_bit ?b j \<longleftrightarrow> (test_bit (bits L) j \<and> j \<noteq> k) \<or> int j = int k - d" for j
    using to k shape_bits [OF shape] by (auto simp: test_bit_on test_bit_off)
  moreover have "?ls ! ?to = levels L ! k" "\<And>j. int j \<noteq> int k - d \<Longrightarrow> ?ls ! j = levels L ! j"
    using to shape by (auto simp: ladder_shape_def nth_list_update)
  then have "shifted d (window_size L) (test_bit (bits L)) (levels L) {k} (test_bit ?b) ?ls"
    using True unfolding shifted_def bits by simp
  ultimately show ?thesis by force
next
  case False
  then have "shift_one d k L = Some (L\<lparr>bits := bits L, levels := levels L\<rparr>)" by (simp add: shift_one_def)
  moreover have "shifted d (window_size L) (test_bit (bits L)) (levels L) {k} (test_bit (bits L)) (levels L)"
    using False by (auto simp: shifted_def)
  ultimately show ?thesis by blast
qed

lemma shifted_trans:
  assumes s: "shifted d w B ls {k} B1 ls1" "shifted d w B1 ls1 K B2 ls2" and k: "k \<notin> K" "k < w" "K \<subseteq> {..<w}"
    and inb: "\<And>i. i \<in> insert k K \<Longrightarrow> B i \<Longrightarrow> 0 \<le> int i - d \<and> int i - d < int w"
    and ord: "\<And>i. i \<in> K \<Longrightarrow> int k - d \<noteq> int i" and "d \<noteq> 0"
  shows "shifted d w B ls (insert k K) B2 ls2"
proof -
  have B1: "B1 j \<longleftrightarrow> (B j \<and> j \<noteq> k) \<or> (B k \<and> int j = int k - d)" if "j < w" for j
    using s(1) that by (auto simp: shifted_def)
  have ls1: "B k \<Longrightarrow> ls1 ! nat (int k - d) = ls ! k" "\<And>j. j < w \<Longrightarrow> (B k \<Longrightarrow> int j \<noteq> int k - d) \<Longrightarrow> ls1 ! j = ls ! j"
    using s(1) by (auto simp: shifted_def)
  have K: "B1 i \<longleftrightarrow> B i" "ls1 ! i = ls ! i" if "i \<in> K" for i
    using that k ord [OF that] B1 [of i] ls1(2) [of i] by auto
  have bits2: "B2 j \<longleftrightarrow> (B1 j \<and> j \<notin> K) \<or> (\<exists>i \<in> K. B i \<and> int j = int i - d)" if "j < w" for j
    using s(2) that K(1) by (auto simp: shifted_def)
  have ls2: "\<And>i. i \<in> K \<Longrightarrow> B i \<Longrightarrow> ls2 ! nat (int i - d) = ls ! i"
    "\<And>j. j < w \<Longrightarrow> (\<And>i. i \<in> K \<Longrightarrow> B i \<Longrightarrow> int j \<noteq> int i - d) \<Longrightarrow> ls2 ! j = ls1 ! j"
    using s(2) K by (auto simp: shifted_def)
  have "B2 j \<longleftrightarrow> (B j \<and> j \<notin> insert k K) \<or> (\<exists>i \<in> insert k K. B i \<and> int j = int i - d)" if "j < w" for j
    using bits2 [OF that] B1 [OF that] ord by (auto dest: ord)
  moreover have "ls2 ! nat (int i - d) = ls ! i" if "i \<in> insert k K" "B i" for i
  proof (cases "i = k")
    case True
    let ?j = "nat (int k - d)"
    have j: "?j < w" "int ?j = int k - d" using inb [OF that] True by auto
    then have "ls2 ! ?j = ls1 ! ?j" using k(1) by (intro ls2(2)) auto
    with True that ls1(1) show ?thesis by simp
  qed (use that ls2(1) in simp)
  moreover have "ls2 ! j = ls ! j" if "j < w" "\<forall>i \<in> insert k K. B i \<longrightarrow> int j \<noteq> int i - d" for j
    using that ls2(2) [of j] ls1(2) [of j] by simp
  moreover have "length ls2 = length ls" using s by (simp add: shifted_def)
  ultimately show ?thesis unfolding shifted_def by blast
qed

lemma shift_list_ok:
  assumes "ladder_shape L" "d \<noteq> 0" "distinct ks" "\<forall>i \<in> set ks. i < window_size L"
    and "\<And>i. i \<in> set ks \<Longrightarrow> test_bit (bits L) i \<Longrightarrow> 0 \<le> int i - d \<and> int i - d < int (window_size L)"
    and "sorted_wrt (\<lambda>i j. int i - d \<noteq> int j) ks"
  shows "\<exists>b ls. foldM (shift_one d) ks L = Some (L\<lparr>bits := b, levels := ls\<rparr>) \<and> length b = length (bits L) \<and>
    shifted d (window_size L) (test_bit (bits L)) (levels L) (set ks) (test_bit b) ls"
  using assms
proof (induction ks arbitrary: L)
  case Nil
  have "L = L\<lparr>bits := bits L, levels := levels L\<rparr>" by simp
  moreover have "shifted d (window_size L) (test_bit (bits L)) (levels L) {} (test_bit (bits L)) (levels L)"
    by (simp add: shifted_def)
  ultimately show ?case by (metis foldM.simps(1) list.set(1))
next
  case (Cons k ks)
  let ?w = "window_size L"
  obtain b ls where 1: "shift_one d k L = Some (L\<lparr>bits := b, levels := ls\<rparr>)" "length b = length (bits L)"
    "shifted d ?w (test_bit (bits L)) (levels L) {k} (test_bit b) ls"
    using shift_one_ok [of L k d] Cons.prems by auto
  let ?M = "L\<lparr>bits := b, levels := ls\<rparr>"
  have shape: "ladder_shape ?M" using Cons.prems(1) 1 by (simp add: ladder_shape_def shifted_def)
  have same: "test_bit b i \<longleftrightarrow> test_bit (bits L) i" if "i \<in> set ks" for i
    using 1(3) that Cons.prems(3,4,6) by (auto simp: shifted_def)
  obtain c ms where 2: "foldM (shift_one d) ks ?M = Some (?M\<lparr>bits := c, levels := ms\<rparr>)" "length c = length (bits ?M)"
    "shifted d (window_size ?M) (test_bit (bits ?M)) (levels ?M) (set ks) (test_bit c) ms"
    using Cons.IH [OF shape] Cons.prems same by auto
  have "shifted d ?w (test_bit (bits L)) (levels L) (insert k (set ks)) (test_bit c) ms"
    using Cons.prems by (intro shifted_trans [OF 1(3)]) (use 2(3) in auto)
  with 1(1,2) 2(1,2) show ?case by auto
qed

text \<open>The levels that live in the window.\<close>

definition wset :: "ladder \<Rightarrow> price_level set" where
  "wset L = (\<lambda>i. levels L ! i) ` occ L"

lemma shift_survivors_ok:
  assumes shape: "ladder_shape L"
    and inb: "\<And>i. i \<in> occ L \<Longrightarrow> 0 \<le> int i - d \<and> int i - d < int (window_size L)"
  shows "\<exists>b ls. shift_survivors d L = Some (L\<lparr>bits := b, levels := ls\<rparr>) \<and>
    length b = length (bits L) \<and> length ls = length (levels L) \<and>
    occ (L\<lparr>bits := b, levels := ls\<rparr>) = (\<lambda>i. nat (int i - d)) ` occ L \<and>
    (\<forall>i \<in> occ L. ls ! nat (int i - d) = levels L ! i)"
proof (cases "d = 0")
  case True
  have "shift_survivors d L = Some (L\<lparr>bits := bits L, levels := levels L\<rparr>)" "occ (L\<lparr>bits := bits L, levels := levels L\<rparr>) = occ L"
    using True by (simp_all add: shift_survivors_def)
  then show ?thesis using True by fastforce
next
  case False
  let ?w = "window_size L"
  define ks where "ks = (if d > 0 then [0..<?w] else rev [0..<?w])"
  have ks: "set ks = {..<?w}" "distinct ks" by (auto simp: ks_def)
  have "sorted_wrt (\<lambda>i j. int i - d \<noteq> int j) ks"
  proof (cases "d > 0")
    case True
    then show ?thesis unfolding ks_def by (auto intro: sorted_wrt_mono_rel [OF _ sorted_wrt_upt])
  next
    case neg: False
    then show ?thesis using False unfolding ks_def
      by (auto simp: sorted_wrt_rev intro: sorted_wrt_mono_rel [OF _ sorted_wrt_upt])
  qed
  then obtain b ls where X: "foldM (shift_one d) ks L = Some (L\<lparr>bits := b, levels := ls\<rparr>)" "length b = length (bits L)"
    "shifted d ?w (test_bit (bits L)) (levels L) {..<?w} (test_bit b) ls"
    using shift_list_ok [of L d ks] shape False ks inb by (auto simp: occ_def)
  have run: "shift_survivors d L = Some (L\<lparr>bits := b, levels := ls\<rparr>)"
    using X(1) False by (simp add: shift_survivors_def ks_def split: if_splits)
  have "j \<in> occ (L\<lparr>bits := b, levels := ls\<rparr>) \<longleftrightarrow> j \<in> (\<lambda>i. nat (int i - d)) ` occ L" for j
  proof -
    have "j \<in> occ (L\<lparr>bits := b, levels := ls\<rparr>) \<longleftrightarrow> j < ?w \<and> (\<exists>i \<in> occ L. int j = int i - d)"
      using X(3) by (auto simp: occ_def shifted_def)
    also have "\<dots> \<longleftrightarrow> j \<in> (\<lambda>i. nat (int i - d)) ` occ L" using inb by force
    finally show ?thesis .
  qed
  moreover have "ls ! nat (int i - d) = levels L ! i" if "i \<in> occ L" for i
    using X(3) that by (simp add: shifted_def occ_def)
  moreover have "length ls = length (levels L)" using X(3) by (simp add: shifted_def)
  ultimately show ?thesis using run X(2) by blast
qed

section \<open>Recentering: filling the window\<close>

lemma place_one_ok:
  assumes shape: "ladder_shape L" and win: "window_ok L" and l: "in_window L (l_price l)" "l_price l \<notin> l_price ` wset L"
  shows "\<exists>M b ls. place_one l L = Some M \<and> M = L\<lparr>bits := b, levels := ls, window_count := window_count L + 1\<rparr> \<and>
    ladder_shape M \<and> window_ok M \<and> wset M = insert l (wset L)"
proof -
  let ?i = "window_index L (l_price l)"
  let ?b = "bit_on (bits L) ?i" and ?ls = "(levels L)[?i := l]"
  let ?L = "L\<lparr>bits := ?b, levels := ?ls, window_count := window_count L + 1\<rparr>"
  note i = window_index_less [OF l(1)] and p = window_index_price [OF l(1)]
  have len: "?i < length (levels L)" using i shape by (simp add: ladder_shape_def)
  then have run: "place_one l L = Some ?L" by (simp add: place_one_def Let_def run_simps)
  have occ': "occ ?L = insert ?i (occ L)" using occ_bit_on [OF shape i] by (simp add: occ_def)
  have new: "?i \<notin> occ L"
  proof
    assume "?i \<in> occ L"
    then have "l_price (levels L ! ?i) = l_price l" "levels L ! ?i \<in> wset L"
      using win p by (auto simp: window_ok_def wset_def)
    with l(2) show False by (metis imageI)
  qed
  have lev: "levels ?L ! j = (if j = ?i then l else levels L ! j)" for j using len by (simp add: nth_list_update)
  have "ladder_shape ?L" using shape by (simp add: ladder_shape_def)
  moreover have "window_ok ?L"
    unfolding window_ok_def occ' lev using win p new by (auto simp: window_ok_def)
  moreover have "wset ?L = insert l (wset L)"
    unfolding wset_def occ' lev using new by auto
  ultimately show ?thesis using run by blast
qed

lemma place_list_ok:
  assumes "ladder_shape L" "window_ok L" "\<forall>l \<in> set ms. in_window L (l_price l)" "distinct (map l_price ms)"
    "l_price ` set ms \<inter> l_price ` wset L = {}"
  shows "\<exists>b ls n. foldM place_one ms L = Some (L\<lparr>bits := b, levels := ls, window_count := n\<rparr>) \<and>
    ladder_shape (L\<lparr>bits := b, levels := ls, window_count := n\<rparr>) \<and>
    window_ok (L\<lparr>bits := b, levels := ls, window_count := n\<rparr>) \<and>
    wset (L\<lparr>bits := b, levels := ls, window_count := n\<rparr>) = wset L \<union> set ms"
  using assms
proof (induction ms arbitrary: L)
  case Nil
  have "L = L\<lparr>bits := bits L, levels := levels L, window_count := window_count L\<rparr>" by simp
  with Nil show ?case by (metis foldM.simps(1) list.set(1) sup_bot.right_neutral)
next
  case (Cons m ms)
  then obtain M b ls where M: "M = L\<lparr>bits := b, levels := ls, window_count := window_count L + 1\<rparr>"
    and 1: "place_one m L = Some M" "ladder_shape M" "window_ok M" "wset M = insert m (wset L)"
    using place_one_ok [of L m] by auto
  have "in_window M = in_window L" by (simp add: in_window_def fun_eq_iff M)
  with Cons.prems 1 obtain c ns n where 2: "foldM place_one ms M = Some (M\<lparr>bits := c, levels := ns, window_count := n\<rparr>)"
    "ladder_shape (M\<lparr>bits := c, levels := ns, window_count := n\<rparr>)"
    "window_ok (M\<lparr>bits := c, levels := ns, window_count := n\<rparr>)"
    "wset (M\<lparr>bits := c, levels := ns, window_count := n\<rparr>) = wset M \<union> set ms"
    using Cons.IH [of M] by auto
  with 1 show ?case by (intro exI [of _ c] exI [of _ ns] exI [of _ n]) (auto simp: M)
qed

section \<open>Recentering\<close>

lemma evict_ok:
  assumes inv: "ladder_inv L" and cap: "card (dom (amap L)) \<le> t_capacity (tail L)"
  shows "\<exists>M t. evict nb ne L = Some M \<and> merge_staged (tail M) = Some t \<and>
    M = L\<lparr>tail := tail M, bits := bits M, window_count := window_count M\<rparr> \<and> ladder_shape (M\<lparr>tail := t\<rparr>) \<and>
    occ M = {i \<in> occ L. \<not> outside nb ne L i} \<and> window_count M = card (occ M) \<and> t_staged t = 0 \<and>
    t_capacity t = t_capacity (tail L) \<and>
    set (tail_list t) = set (tail_list (tail L)) \<union> (\<lambda>i. levels L ! i) ` {i \<in> occ L. outside nb ne L i}"
proof -
  note I = ladder_invD [OF inv]
  let ?w = "window_size L" and ?out = "filter (outside nb ne L) (filter (test_bit (bits L)) [0..<window_size L])"
  have W: "?w div 64 * 64 = ?w" using pow2_dvd_64 [of ?w] I(1) by (simp add: ladder_shape_def)
  have ti: "tail_inv (tail L)" using I(1) by (simp add: ladder_shape_def)
  then have ts: "tail_shape (tail L)" by (simp add: tail_inv_def)
  obtain M where M: "evict nb ne L = Some M" "evicted nb ne L (filter (test_bit (bits L)) [0..<?w]) M"
    using evict_words_ok [OF I(1) ts I(2) order_refl, of nb ne] W by (auto simp: evict_def)
  then obtain t b where t: "M = L\<lparr>tail := t, bits := b, window_count := window_count L - length ?out\<rparr>"
    "length b = length (bits L)"
    "\<forall>j < ?w. test_bit b j \<longleftrightarrow> test_bit (bits L) j \<and> \<not> (j \<in> set (filter (test_bit (bits L)) [0..<?w]) \<and> outside nb ne L j)"
    "tail_shape t" "tail_list t = tail_list (tail L)" "t_n t = t_n (tail L)"
    "staged_list t = staged_list (tail L) @ map (\<lambda>i. levels L ! i) ?out"
    "t_staged t = t_staged (tail L) + length ?out"
    "t_is_bid t = t_is_bid (tail L)" "t_capacity t = t_capacity (tail L)" "t_scratch t = t_scratch (tail L)"
    unfolding evicted_def by blast
  have out: "set ?out = {i \<in> occ L. outside nb ne L i}" by (auto simp: occ_def)
  then have outn: "length ?out = card {i \<in> occ L. outside nb ne L i}"
    by (metis distinct_card distinct_filter distinct_upt)
  have occM: "occ M = {i \<in> occ L. \<not> outside nb ne L i}" using t(3) by (auto simp: occ_def t(1))
  have "card (occ L) = card (occ M) + length ?out"
    unfolding outn occM by (subst card_Un_disjoint [symmetric]) (auto intro: arg_cong [where f = card])
  moreover have "window_count M = window_count L - length ?out" "window_count L = card (occ L)"
    using I(3) t(1) by (simp_all add: window_ok_def)
  ultimately have cnt: "window_count M = card (occ M)" "length ?out \<le> window_count L" by linarith+
  have stg: "staged_list t = map (\<lambda>i. levels L ! i) ?out" using t(7) I(2) by (simp add: staged_list_def)
  have "tail_inv t" using ti t(4,5,9) by (simp add: tail_inv_level_sorted)
  moreover have "t_n t + t_staged t \<le> t_capacity t"
    using cap card_amap(1) [OF inv] cnt t I(2) by simp
  moreover have "distinct (map l_price (staged_list t))"
    using inj_on_subset [OF inj_on_window [OF I(3)], of "set ?out"] out
    by (auto simp: stg distinct_map comp_def inj_on_def)
  moreover have "l_price ` set (tail_list t) \<inter> l_price ` set (staged_list t) = {}"
    using contents_disjoint [OF I(3,5)] out t(5) unfolding stg by auto
  ultimately obtain t' where t': "merge_staged t = Some t'" "tail_inv t'" "t_staged t' = 0" "t_is_bid t' = t_is_bid t"
    "t_capacity t' = t_capacity t" "t_scratch t' = t_scratch t"
    "set (tail_list t') = set (tail_list t) \<union> set (staged_list t)"
    using merge_staged_ok by blast
  have "ladder_shape (M\<lparr>tail := t'\<rparr>)" using I(1) t t' by (simp add: ladder_shape_def)
  moreover have "set (staged_list t) = (\<lambda>i. levels L ! i) ` {i \<in> occ L. outside nb ne L i}"
    unfolding stg using out by simp
  ultimately show ?thesis using M(1) t' t occM cnt
    by (intro exI [of _ M] exI [of _ t']) simp
qed

lemma recenter_first:
  assumes inv: "ladder_inv L" and p: "price_ok (nb + int (window_size L div 2))" and no: "\<not> anchored L"
  defines "L' \<equiv> L\<lparr>anchored := True, base := nb, best_idx := -1\<rparr>"
  shows "recenter nb L = Some L'" "ladder_inv L'" "amap L' = amap L"
proof -
  note I = ladder_invD [OF inv]
  have W: "int (window_size L) = 2 * int (window_size L div 2)" "int (window_size L div 2) \<le> 2 ^ 61"
    using I(1) pow2_dvd_64 [of "window_size L"] by (auto simp: ladder_shape_def zdiv_int)
  then show "recenter nb L = Some L'" using p no by (simp add: recenter_def L'_def fits_int64_def price_ok_def)
  have none: "occ L = {}" "t_n (tail L) = 0" using I(5) no by (auto simp: home_ok_def)
  then have "occ L' = {}" "tail_list (tail L') = []" "window_count L = 0"
    using I(3) by (auto simp: occ_def tail_list_def window_ok_def L'_def)
  then show inv': "ladder_inv L'"
    using I p by (simp add: ladder_inv_def window_ok_def best_ok_def home_ok_def)
      (simp add: L'_def ladder_shape_def)
  show "amap L' = amap L"
    using none \<open>occ L' = {}\<close> by (intro amap_eqI [OF inv inv']) (simp add: contents_def, simp add: L'_def)
qed

text \<open>First half: the levels outside the new range go to the tail, the others move to their new slots.\<close>

lemma recenter_shift:
  assumes inv: "ladder_inv L" and an: "anchored L" and cap: "card (dom (amap L)) \<le> t_capacity (tail L)"
  shows "\<exists>M t Q. evict nb (nb + int (window_size L)) L = Some M \<and> merge_staged (tail M) = Some t \<and>
    shift_survivors (nb - base L) (M\<lparr>tail := t\<rparr>) = Some Q \<and> ladder_shape (Q\<lparr>base := nb\<rparr>) \<and> window_ok (Q\<lparr>base := nb\<rparr>) \<and>
    tail Q = t \<and> t_staged t = 0 \<and> t_capacity t = t_capacity (tail L) \<and> window_size Q = window_size L \<and> is_bid Q = is_bid L \<and> anchored Q \<and>
    wset Q \<union> set (tail_list t) = contents L \<and>
    (\<forall>l \<in> set (tail_list t). l_price l \<in> {nb..<nb + int (window_size L)} \<longrightarrow> l_price l \<notin> l_price ` wset Q)"
proof -
  note I = ladder_invD [OF inv]
  let ?w = "window_size L"
  let ?ne = "nb + int ?w" and ?d = "nb - base L"
  from evict_ok [OF inv cap, of nb ?ne] obtain M t where M: "evict nb ?ne L = Some M" "merge_staged (tail M) = Some t"
    and Mf: "M = L\<lparr>tail := tail M, bits := bits M, window_count := window_count M\<rparr>"
    and Ms: "ladder_shape (M\<lparr>tail := t\<rparr>)" and occM: "occ M = {i \<in> occ L. \<not> outside nb ?ne L i}"
    and cntM: "window_count M = card (occ M)" and st: "t_staged t = 0" and capt: "t_capacity t = t_capacity (tail L)"
    and tset: "set (tail_list t) = set (tail_list (tail L)) \<union> (\<lambda>i. levels L ! i) ` {i \<in> occ L. outside nb ?ne L i}"
    by blast
  have keep: "levels M = levels L" "window_size M = ?w" "base M = base L" "anchored M" "is_bid M = is_bid L"
    using an by (subst Mf; simp)+
  let ?N = "M\<lparr>tail := t\<rparr>"
  have [simp]: "occ ?N = occ M" by (simp add: occ_def)
  have price: "l_price (levels L ! i) = base L + int i" if "i \<in> occ L" for i using window_price [OF I(3) that] .
  have inb: "0 \<le> int i - ?d \<and> int i - ?d < int ?w" if "i \<in> occ M" for i
    using that price [of i] by (auto simp: occM outside_def)
  then obtain b ls where S: "shift_survivors ?d ?N = Some (?N\<lparr>bits := b, levels := ls\<rparr>)"
    "length b = length (bits ?N)" "length ls = length (levels ?N)"
    "occ (?N\<lparr>bits := b, levels := ls\<rparr>) = (\<lambda>i. nat (int i - ?d)) ` occ M"
    "\<forall>i \<in> occ M. ls ! nat (int i - ?d) = levels L ! i"
    using shift_survivors_ok [OF Ms, of ?d] keep by auto
  let ?Q = "?N\<lparr>bits := b, levels := ls\<rparr>"
  have occQ: "occ (?Q\<lparr>base := nb\<rparr>) = (\<lambda>i. nat (int i - ?d)) ` occ M" using S(4) by (simp add: occ_def)
  have "inj_on (\<lambda>i. nat (int i - ?d)) (occ M)"
    by (rule inj_onI) (drule inb, drule inb, simp add: nat_eq_iff)
  then have "card (occ (?Q\<lparr>base := nb\<rparr>)) = card (occ M)" using occQ by (simp add: card_image)
  then have "window_ok (?Q\<lparr>base := nb\<rparr>)"
    using cntM S(5) price inb unfolding window_ok_def occQ by (auto simp: occM)
  moreover have "ladder_shape (?Q\<lparr>base := nb\<rparr>)" using Ms S(2,3) by (simp add: ladder_shape_def)
  moreover have wsetQ: "wset ?Q = (\<lambda>i. levels L ! i) ` occ M"
    using S(4,5) unfolding wset_def S(4) by (auto simp: image_image)
  moreover have "wset ?Q \<union> set (tail_list t) = contents L" unfolding wsetQ tset occM contents_def by auto
  moreover have "\<forall>l \<in> set (tail_list t). l_price l \<in> {nb..<?ne} \<longrightarrow> l_price l \<notin> l_price ` wset ?Q"
    using contents_disjoint [OF I(3,5)] unfolding wsetQ occM tset by (auto simp: outside_def)
  ultimately show ?thesis using M S(1) st capt keep by (intro exI [of _ M] exI [of _ t] exI [of _ ?Q]) simp
qed

text \<open>Second half: the tail levels in the new range are pulled into the window.\<close>

lemma recenter_pull:
  assumes Q: "ladder_shape Q" "window_ok Q" "anchored Q" and E: "extract_range (tail Q) (base Q) (base Q + int (window_size Q) - 1) = (ms, t')"
    and st: "t_staged (tail Q) = 0" and p: "price_ok (base Q + int (window_size Q div 2))"
    and disj: "\<forall>l \<in> set (tail_list (tail Q)). in_window Q (l_price l) \<longrightarrow> l_price l \<notin> l_price ` wset Q"
  shows "\<exists>P R. foldM place_one ms Q = Some P \<and> R = P\<lparr>tail := t', best_idx := best_in_window (P\<lparr>tail := t'\<rparr>)\<rparr> \<and> ladder_inv R \<and>
    contents R = wset Q \<union> set (tail_list (tail Q)) \<and> anchored R \<and> base R = base Q \<and> window_size R = window_size Q \<and> is_bid R = is_bid Q \<and>
    t_capacity t' = t_capacity (tail Q)"
proof -
  have tinv: "tail_inv (tail Q)" using Q(1) by (simp add: ladder_shape_def)
  note X = extract_range_ok [OF tinv E]
  have inr: "in_window Q (l_price l) \<longleftrightarrow> l_price l \<in> {base Q..base Q + int (window_size Q) - 1}" for l
    using Q(3) by (auto simp: in_window_def)
  have "distinct (map l_price (tail_list (tail Q)))"
    using tinv level_sorted_distinct by (auto simp: tail_inv_level_sorted)
  then have dist: "distinct (map l_price ms)" using X by (simp add: distinct_map_filter)
  have win: "\<forall>l \<in> set ms. in_window Q (l_price l)" using X inr by auto
  have "l_price ` set ms \<inter> l_price ` wset Q = {}" using disj win X by fastforce
  then obtain c ns n where P: "foldM place_one ms Q = Some (Q\<lparr>bits := c, levels := ns, window_count := n\<rparr>)"
    "ladder_shape (Q\<lparr>bits := c, levels := ns, window_count := n\<rparr>)"
    "window_ok (Q\<lparr>bits := c, levels := ns, window_count := n\<rparr>)"
    "wset (Q\<lparr>bits := c, levels := ns, window_count := n\<rparr>) = wset Q \<union> set ms"
    using place_list_ok [OF Q(1,2) win dist] by blast
  let ?P = "Q\<lparr>bits := c, levels := ns, window_count := n\<rparr>"
  define R where "R = ?P\<lparr>tail := t', best_idx := best_in_window (?P\<lparr>tail := t'\<rparr>)\<rparr>"
  have occ: "occ R = occ ?P" by (simp add: occ_def R_def)
  have shape: "ladder_shape (?P\<lparr>tail := t'\<rparr>)" "ladder_shape R"
    using P(2) X by (auto simp: ladder_shape_def R_def tail_same_def)
  moreover have "window_ok R" using P(3) unfolding window_ok_def occ by (simp add: R_def)
  moreover have "best_ok R" using best_in_window_ok [OF shape(1)] by (simp add: R_def)
  moreover have "home_ok R" using p Q(3) X by (auto simp: home_ok_def in_window_def R_def)
  ultimately have inv: "ladder_inv R" using st X by (simp add: ladder_inv_def R_def tail_same_def)
  have "contents R = wset Q \<union> set ms \<union> set (tail_list t')"
    using P(4) unfolding contents_def occ by (simp add: wset_def R_def)
  also have "\<dots> = wset Q \<union> set (tail_list (tail Q))" using X by auto
  finally have "contents R = wset Q \<union> set (tail_list (tail Q))" .
  with inv P(1) Q(3) X show ?thesis by (intro exI [of _ ?P] exI [of _ R]) (simp add: R_def tail_same_def)
qed

lemma recenter_anchored:
  assumes inv: "ladder_inv L" and p: "price_ok (nb + int (window_size L div 2))" and an: "anchored L"
    and cap: "card (dom (amap L)) \<le> t_capacity (tail L)"
  shows "\<exists>L'. recenter nb L = Some L' \<and> ladder_inv L' \<and> amap L' = amap L \<and> anchored L' \<and> base L' = nb \<and> ladder_same L L'"
proof -
  note I = ladder_invD [OF inv]
  let ?w = "window_size L"
  have W: "int ?w = 2 * int (?w div 2)" "int (?w div 2) \<le> 2 ^ 61"
    using I(1) pow2_dvd_64 [of ?w] by (auto simp: ladder_shape_def zdiv_int)
  have "price_ok (base L + int (?w div 2))" using I(5) an by (simp add: home_ok_def)
  with p W have fits: "fits_int64 nb" "fits_int64 (nb + int ?w)" "fits_int64 (nb - base L)"
    by (auto simp: fits_int64_def price_ok_def)
  from recenter_shift [OF inv an cap, of nb] obtain M t Q where S: "evict nb (nb + int ?w) L = Some M" "merge_staged (tail M) = Some t"
    "shift_survivors (nb - base L) (M\<lparr>tail := t\<rparr>) = Some Q" "ladder_shape (Q\<lparr>base := nb\<rparr>)" "window_ok (Q\<lparr>base := nb\<rparr>)"
    and k: "tail Q = t" "t_staged t = 0" "t_capacity t = t_capacity (tail L)" "window_size Q = ?w" "is_bid Q = is_bid L" "anchored Q"
      "wset Q \<union> set (tail_list t) = contents L"
    and d: "\<forall>l \<in> set (tail_list t). l_price l \<in> {nb..<nb + int ?w} \<longrightarrow> l_price l \<notin> l_price ` wset Q" by blast
  let ?Q = "Q\<lparr>base := nb\<rparr>"
  have wset: "wset ?Q = wset Q" by (simp add: wset_def occ_def)
  obtain ms t' where E: "extract_range t nb (nb + int ?w - 1) = (ms, t')" by fastforce
  have "\<forall>l \<in> set (tail_list (tail ?Q)). in_window ?Q (l_price l) \<longrightarrow> l_price l \<notin> l_price ` wset ?Q"
    using d k wset by (auto simp: in_window_def)
  from recenter_pull [of ?Q ms t', OF S(4,5) _ _ _ _ this] k p E wset obtain P R where
    P: "foldM place_one ms ?Q = Some P" "R = P\<lparr>tail := t', best_idx := best_in_window (P\<lparr>tail := t'\<rparr>)\<rparr>" "ladder_inv R" "contents R = contents L"
      "anchored R" "base R = nb" "window_size R = ?w" "is_bid R = is_bid L" "t_capacity t' = t_capacity (tail L)" by auto
  have "recenter nb L = Some R"
    using fits an S(1-3) k(1) E P(1,2) unfolding recenter_def by (simp add: Let_def)
  moreover have "amap R = amap L" by (rule amap_eqI [OF inv P(3,4)])
  ultimately show ?thesis using P by (simp add: ladder_same_def)
qed

section \<open>Inserting a level\<close>

lemma recenter_ok:
  assumes inv: "ladder_inv L" and p: "price_ok (nb + int (window_size L div 2))"
    and cap: "card (dom (amap L)) \<le> t_capacity (tail L)"
  shows "\<exists>L'. recenter nb L = Some L' \<and> ladder_inv L' \<and> amap L' = amap L \<and> anchored L' \<and> base L' = nb \<and> ladder_same L L'"
proof (cases "anchored L")
  case True
  then show ?thesis by (rule recenter_anchored [OF inv p _ cap])
next
  case False
  note R = recenter_first [OF inv p False]
  then show ?thesis by (auto simp: ladder_same_def)
qed

lemma amap_insert:
  assumes inv: "ladder_inv L" "ladder_inv L'" and new: "amap L (l_price l) = None" and c: "contents L' = insert l (contents L)"
  shows "amap L' = (amap L)(l_price l \<mapsto> l)"
proof (rule map_eqI)
  fix q m
  have "\<not> (m \<in> contents L \<and> l_price m = l_price l)" using amap_contents [OF inv(1), of "l_price l" m] new by simp
  then show "amap L' q = Some m \<longleftrightarrow> ((amap L)(l_price l \<mapsto> l)) q = Some m"
    by (auto simp: amap_contents [OF inv(1)] amap_contents [OF inv(2)] c)
qed

lemma insert_window_ok:
  assumes inv: "ladder_inv L" and w: "in_window L p" and new: "amap L p = None"
  defines "i \<equiv> window_index L p"
  defines "L' \<equiv> L\<lparr>levels := (levels L)[i := empty_level p], bits := bit_on (bits L) i, window_count := window_count L + 1,
    best_idx := if best_idx L < 0 \<or> better_idx (is_bid L) (int i) (best_idx L) then int i else best_idx L\<rparr>"
  shows "ladder_inv L'" "amap L' = (amap L)(p \<mapsto> empty_level p)" "ref_at L' p (WindowRef i)"
proof -
  note I = ladder_invD [OF inv]
  let ?l = "empty_level p"
  have l: "l_price ?l = p" by (simp add: empty_level_def)
  have "p \<notin> l_price ` wset L"
    using new amap_contents [OF inv, of p] by (auto simp: wset_def contents_def)
  then obtain M b ls where M: "place_one ?l L = Some M" "M = L\<lparr>bits := b, levels := ls, window_count := window_count L + 1\<rparr>"
    "ladder_shape M" "window_ok M" "wset M = insert ?l (wset L)"
    using place_one_ok [OF I(1,3), of ?l] w l by auto
  have i: "i < window_size L" "p = base L + int i" using window_index_less [OF w] window_index_price [OF w] by (simp_all add: i_def)
  then have len: "i < length (levels L)" using I(1) by (simp add: ladder_shape_def)
  have Me: "M = L\<lparr>levels := (levels L)[i := ?l], bits := bit_on (bits L) i, window_count := window_count L + 1\<rparr>"
    using M(1) len l by (simp add: place_one_def Let_def run_simps i_def)
  have occ': "occ L' = insert i (occ L)" using occ_bit_on [OF I(1) i(1)] by (simp add: occ_def L'_def)
  have occM: "occ M = occ L'" by (simp add: occ_def L'_def Me)
  have shape: "ladder_shape L'" using M(3) by (simp add: ladder_shape_def Me L'_def)
  moreover have "window_ok L'" using M(4) unfolding window_ok_def occM by (simp add: Me L'_def)
  moreover have "best_ok L'"
    using I(4) unfolding best_ok_def occ'
    by (auto simp: L'_def better_idx_def split: if_splits)
  moreover have "home_ok L'"
    using I(5) w by (auto simp: home_ok_def in_window_def L'_def split: if_splits)
  ultimately show inv': "ladder_inv L'" using I(2) by (simp add: ladder_inv_def L'_def)
  have "contents L' = insert ?l (contents L)"
    using M(5) unfolding contents_def wset_def occM by (auto simp: Me L'_def)
  from amap_insert [OF inv inv' _ this] new l show "amap L' = (amap L)(p \<mapsto> ?l)" by simp
  have "levels L' ! i = ?l" using len by (simp add: L'_def)
  then show "ref_at L' p (WindowRef i)"
    using occ' shape i(1) l by (auto simp: ref_at_def run_simps L'_def)
qed

lemma insert_tail_ok:
  assumes inv: "ladder_inv L" and w: "\<not> in_window L p" and an: "anchored L" and new: "amap L p = None"
    and room: "t_n (tail L) < t_capacity (tail L)"
  shows "\<exists>t i. find_or_insert (tail L) p = Some (t, i) \<and> ladder_inv (L\<lparr>tail := t\<rparr>) \<and>
    amap (L\<lparr>tail := t\<rparr>) = (amap L)(p \<mapsto> empty_level p) \<and> ref_at (L\<lparr>tail := t\<rparr>) p (TailRef i) \<and>
    t_capacity t = t_capacity (tail L)"
proof -
  note I = ladder_invD [OF inv]
  have ti: "tail_inv (tail L)" using I(1) by (simp add: ladder_shape_def)
  have none: "level_map (tail_list (tail L)) p = None" using new w by (simp add: amap_def)
  from find_or_insert_new [OF ti none room] obtain t i where
    t: "find_or_insert (tail L) p = Some (t, i)" "tail_inv t" "i < t_n t" "t_buf t ! i = empty_level p" "tail_same (tail L) t"
      "level_map (tail_list t) = (level_map (tail_list (tail L)))(p \<mapsto> empty_level p)" by blast
  let ?L = "L\<lparr>tail := t\<rparr>"
  have l: "l_price (empty_level p) = p" by (simp add: empty_level_def)
  have "dom (level_map (tail_list t)) = insert p (dom (level_map (tail_list (tail L))))" using t(6) by simp
  then have prices: "l_price ` set (tail_list t) = insert p (l_price ` set (tail_list (tail L)))" by (simp add: dom_level_map)
  have [simp]: "occ ?L = occ L" by (simp add: occ_def)
  have win: "\<And>x. in_window ?L x = in_window L x" "\<And>x. window_index ?L x = window_index L x"
    by (simp_all add: in_window_def window_index_def)
  have shape: "ladder_shape ?L" using I(1) t by (simp add: ladder_shape_def tail_same_def)
  moreover have "window_ok ?L" "best_ok ?L" using I(3,4) by (simp_all add: window_ok_def best_ok_def)
  moreover have "\<not> in_window L x" if "x \<in> l_price ` set (tail_list t)" for x
    using that w I(5) an unfolding prices by (auto simp: home_ok_def)
  then have "home_ok ?L" using I(5) an by (auto simp: home_ok_def win)
  ultimately have inv': "ladder_inv ?L" using I(2) t by (simp add: ladder_inv_def tail_same_def)
  moreover have "amap ?L = (amap L)(p \<mapsto> empty_level p)"
    using w t(6) by (auto simp: fun_eq_iff amap_def win Let_def)
  moreover have "ref_at ?L p (TailRef i)" using shape t l by (simp add: ref_at_def run_simps)
  ultimately show ?thesis using t(1,5) by (auto simp: tail_same_def)
qed

text \<open>The second half of \<open>level_for_insert\<close>, once the window is where it has to be.\<close>

definition insert_here :: "ladder \<Rightarrow> price \<Rightarrow> (ladder \<times> level_ref) option" where
  "insert_here L price =
     (if in_window L price
      then let idx = window_index L price in
        if \<not> test_bit (bits L) idx
        then do {
          ls \<leftarrow> vwrite (levels L) idx (empty_level price);
          Some (L\<lparr>levels := ls, bits := bit_on (bits L) idx, window_count := window_count L + 1,
            best_idx := if best_idx L < 0 \<or> better_idx (is_bid L) (int idx) (best_idx L)
              then int idx else best_idx L\<rparr>, WindowRef idx) }
        else Some (L, WindowRef idx)
      else do { (t, i) \<leftarrow> find_or_insert (tail L) price; Some (L\<lparr>tail := t\<rparr>, TailRef i) })"

definition opened :: "(price \<rightharpoonup> price_level) \<Rightarrow> price \<Rightarrow> price \<rightharpoonup> price_level" where
  "opened m p = (if m p = None then m(p \<mapsto> empty_level p) else m)"

lemma insert_here_ok:
  assumes inv: "ladder_inv L" and an: "anchored L" and cap: "card (insert p (dom (amap L))) \<le> t_capacity (tail L)"
  shows "\<exists>L' r. insert_here L p = Some (L', r) \<and> ladder_inv L' \<and> amap L' = opened (amap L) p \<and>
    ref_at L' p r \<and> ladder_same L L'"
proof (cases "amap L p")
  case (Some l)
  note I = ladder_invD [OF inv]
  have "insert_here L p = Some (L, the (find_level L p)) \<and> find_level L p \<noteq> None"
  proof (cases "in_window L p")
    case True
    with Some show ?thesis
      by (auto simp: insert_here_def find_level_def amap_def Let_def split: if_splits)
  next
    case False
    have ti: "tail_inv (tail L)" using I(1) by (simp add: ladder_shape_def)
    with False Some tail_find_spec [OF ti, of p] show ?thesis
      by (auto simp: insert_here_def find_level_def amap_def tail_find_def find_or_insert_def Let_def split: if_splits)
  qed
  with find_level_ok [OF inv, of p] inv Some show ?thesis by (auto simp: opened_def)
next
  case None
  show ?thesis
  proof (cases "in_window L p")
    case True
    then have "\<not> test_bit (bits L) (window_index L p)" using None by (auto simp: amap_def Let_def split: if_splits)
    moreover have "window_index L p < length (levels L)"
      using window_index_less [OF True] inv by (simp add: ladder_inv_def ladder_shape_def)
    ultimately show ?thesis
      using True None insert_window_ok [OF inv True None]
      by (auto simp: insert_here_def Let_def run_simps opened_def ladder_same_def)
  next
    case False
    have "card (insert p (dom (amap L))) = card (dom (amap L)) + 1"
      using None card_amap(2) [OF inv] by (simp add: domIff)
    with cap card_amap(1) [OF inv] have "t_n (tail L) < t_capacity (tail L)" by simp
    from insert_tail_ok [OF inv False an None this] False None show ?thesis
      by (auto simp: insert_here_def opened_def ladder_same_def)
  qed
qed

lemma level_for_insert_ok:
  assumes inv: "ladder_inv L" and p: "price_ok p" and cap: "card (insert p (dom (amap L))) \<le> t_capacity (tail L)"
  shows "\<exists>L' r. level_for_insert L p = Some (L', r) \<and> ladder_inv L' \<and> amap L' = opened (amap L) p \<and>
    ref_at L' p r \<and> ladder_same L L'"
proof -
  note I = ladder_invD [OF inv]
  let ?c = "\<not> in_window L p \<and> (window_count L = 0 \<or> beyond_better_edge L p)"
  have "card (dom (amap L)) \<le> card (insert p (dom (amap L)))" using card_amap(2) [OF inv] by (intro card_mono) auto
  then have cap': "card (dom (amap L)) \<le> t_capacity (tail L)" using cap by simp
  have "\<exists>M. (if ?c then recenter (p - int (window_size L div 2)) L else Some L) = Some M \<and> ladder_inv M \<and>
      amap M = amap L \<and> anchored M \<and> ladder_same L M"
  proof (cases ?c)
    case True
    then show ?thesis using recenter_ok [OF inv _ cap', of "p - int (window_size L div 2)"] p by auto
  next
    case False
    then have "anchored L" using I(3,5) by (auto simp: in_window_def home_ok_def window_ok_def split: if_splits)
    with False inv show ?thesis by auto
  qed
  then obtain M where M: "(if ?c then recenter (p - int (window_size L div 2)) L else Some L) = Some M"
    "ladder_inv M" "amap M = amap L" "anchored M" "ladder_same L M" by blast
  have "level_for_insert L p = insert_here M p"
    unfolding level_for_insert_def M(1) by (simp add: insert_here_def)
  with insert_here_ok [OF M(2,4), of p] cap M(3,5) show ?thesis
    by (auto simp: ladder_same_def)
qed

lemma ladder_inv_new:
  assumes "is_pow2 w" "64 \<le> w" "w \<le> 2 ^ 62"
  shows "ladder_inv (new_ladder b w cap)" "amap (new_ladder b w cap) = Map.empty"
proof -
  let ?L = "new_ladder b w cap"
  have occ: "occ ?L = {}"
  proof -
    have "\<not> test_bit (replicate (w div 64) 0) i" if "i < w" for i
    proof -
      have "i div 64 < w div 64" using that pow2_dvd_64 [OF assms(1,2)] by (metis dvd_mult_div_cancel less_mult_imp_div_less mult.commute)
      then show ?thesis by (simp add: test_bit_iff)
    qed
    then show ?thesis by (simp add: occ_def new_ladder_def)
  qed
  have "ladder_shape ?L" using assms by (simp add: ladder_shape_def new_ladder_def) (simp add: new_tail_def)
  then show "ladder_inv ?L"
    using occ by (simp add: ladder_inv_def window_ok_def best_ok_def home_ok_def)
      (simp add: new_ladder_def new_tail_def)
  show "amap ?L = Map.empty" by (simp add: fun_eq_iff amap_def in_window_def new_ladder_def)
qed

section \<open>Visiting the levels\<close>

lemma highest_unique: "highest P i r \<Longrightarrow> highest P i r' \<Longrightarrow> r = r'"
  unfolding highest_def by (metis linorder_neqE_nat)

lemma lowest_unique: "lowest P n i r \<Longrightarrow> lowest P n i r' \<Longrightarrow> r = r'"
  unfolding lowest_def by (metis linorder_neqE_nat)

text \<open>The occupied slots, best first, and the index the walk is at when \<open>ys\<close> are left.\<close>

definition slots_best_first :: "ladder \<Rightarrow> nat list" where
  "slots_best_first L = (let is = filter (test_bit (bits L)) [0..<window_size L] in if is_bid L then rev is else is)"

definition head_idx :: "nat list \<Rightarrow> int" where
  "head_idx ys = (case ys of [] \<Rightarrow> -1 | y # _ \<Rightarrow> int y)"

lemma head_idx_simps [simp]: "head_idx [] = -1" "head_idx (y # ys) = int y"
  by (simp_all add: head_idx_def)

lemma set_slots: "set (slots_best_first L) = occ L"
  by (auto simp: slots_best_first_def Let_def occ_def)

lemma sorted_slots: "sorted_wrt (\<lambda>i j. better_idx (is_bid L) (int i) (int j)) (slots_best_first L)"
proof -
  have "sorted_wrt (<) (filter (test_bit (bits L)) [0..<window_size L])"
    by (rule sorted_wrt_filter [OF sorted_wrt_upt])
  then show ?thesis
    by (auto simp: slots_best_first_def Let_def better_idx_def sorted_wrt_rev intro: sorted_wrt_mono_rel [rotated])
qed

lemma slots_step:
  assumes shape: "ladder_shape L" and ids: "slots_best_first L = xs @ i # ys"
  shows "next_worse L (int i) = head_idx ys"
proof -
  have occ: "occ L = set xs \<union> insert i (set ys)" using set_slots [of L] ids by simp
  then have i: "i < window_size L" using occ_less [of i L] by simp
  have srt: "\<forall>j \<in> set xs. better_idx (is_bid L) (int j) (int i)" "\<forall>j \<in> set ys. better_idx (is_bid L) (int i) (int j)"
    "sorted_wrt (\<lambda>i j. better_idx (is_bid L) (int i) (int j)) ys"
    using sorted_slots [of L] by (auto simp: ids sorted_wrt_append)
  have mem: "test_bit (bits L) k \<longleftrightarrow> k \<in> set xs \<union> insert i (set ys)" if "k < window_size L" for k
    using that occ by (auto simp: occ_def)
  have less_w: "k < window_size L" if "k \<in> set ys" for k using that occ occ_less [of k L] by simp
  show ?thesis
  proof (cases "is_bid L")
    case True
    have "highest (test_bit (bits L)) (int i - 1) (next_worse L (int i))"
      using True scan_down_spec [of "int i - 1" "bits L"] shape_bits [OF shape] i by (simp add: next_worse_def)
    moreover have "highest (test_bit (bits L)) (int i - 1) (head_idx ys)"
    proof (cases ys)
      case Nil
      then show ?thesis using True srt(1) mem i by (force simp: highest_def better_idx_def)
    next
      case (Cons y zs)
      have "\<not> test_bit (bits L) k" if "y < k" "int k \<le> int i - 1" for k
        using mem [of k] that i True srt Cons by (force simp: better_idx_def)
      with True srt Cons mem [of y] less_w [of y] show ?thesis by (auto simp: highest_def better_idx_def)
    qed
    ultimately show ?thesis by (rule highest_unique)
  next
    case False
    have "lowest (test_bit (bits L)) (window_size L) (int i + 1) (next_worse L (int i))"
      using False scan_up_spec [of "int i + 1" "bits L"] shape_bits [OF shape] by (simp add: next_worse_def)
    moreover have "lowest (test_bit (bits L)) (window_size L) (int i + 1) (head_idx ys)"
    proof (cases ys)
      case Nil
      then show ?thesis using False srt(1) mem by (force simp: lowest_def better_idx_def)
    next
      case (Cons y zs)
      have "\<not> test_bit (bits L) k" if "int i + 1 \<le> int k" "k < y" for k
        using mem [of k] that less_w [of y] False srt Cons by (force simp: better_idx_def)
      with False srt Cons mem [of y] less_w [of y] show ?thesis by (auto simp: lowest_def better_idx_def)
    qed
    ultimately show ?thesis by (rule lowest_unique)
  qed
qed

lemma slots_start:
  assumes "best_ok L"
  shows "best_idx L = head_idx (slots_best_first L)"
proof (cases "slots_best_first L")
  case Nil
  then have "occ L = {}" using set_slots [of L] by simp
  with Nil assms show ?thesis by (simp add: best_ok_def)
next
  case (Cons y ys)
  then have y: "y \<in> occ L" "\<forall>j \<in> occ L. j \<noteq> y \<longrightarrow> better_idx (is_bid L) (int y) (int j)"
    using set_slots [of L] sorted_slots [of L] by auto
  with assms obtain i where i: "i \<in> occ L" "best_idx L = int i" "\<not> better_idx (is_bid L) (int y) (int i)"
    by (auto simp: best_ok_def)
  with y have "i = y" by auto
  with i Cons show ?thesis by simp
qed

lemma walk_window_eq:
  assumes "ladder_shape L" "slots_best_first L = xs @ ys"
  shows "walk_window L n (head_idx ys) = take n (map (\<lambda>i. levels L ! i) ys)"
  using assms(2)
proof (induction n arbitrary: xs ys)
  case (Suc n)
  show ?case
  proof (cases ys)
    case (Cons y zs)
    then show ?thesis using Suc.IH [of "xs @ [y]" zs] slots_step [OF assms(1), of xs y zs] Suc.prems by simp
  qed simp
qed simp

lemma nth_best_eq: "tail_inv t \<Longrightarrow> k < t_n t \<Longrightarrow> nth_best t k = rev (tail_list t) ! k"
  by (simp add: nth_best_def rev_nth tail_inv_def tail_nth)

lemma walk_merge_eq:
  assumes shape: "ladder_shape L" and ids: "slots_best_first L = xs @ ys"
  shows "walk_merge L n (head_idx ys) t =
    take n (merge_best (is_bid L) (map (\<lambda>i. levels L ! i) ys) (drop t (rev (tail_list (tail L)))))"
  using ids
proof (induction n arbitrary: xs ys t)
  case (Suc n)
  let ?b = "is_bid L" and ?ts = "rev (tail_list (tail L))"
  have ti: "tail_inv (tail L)" using shape by (simp add: ladder_shape_def)
  then have len: "length ?ts = t_n (tail L)" by (simp add: tail_inv_def)
  have tl: "drop t ?ts = nth_best (tail L) t # drop (t + 1) ?ts" if "t < t_n (tail L)"
    using that len nth_best_eq [OF ti that] by (simp add: Cons_nth_drop_Suc)
  show ?case
  proof (cases ys)
    case Nil
    then show ?thesis using Suc.IH [of xs "[]" "t + 1"] Suc.prems tl len by (cases "t < t_n (tail L)") simp_all
  next
    case (Cons y zs)
    have step: "walk_merge L n (next_worse L (int y)) t =
        take n (merge_best ?b (map (\<lambda>i. levels L ! i) zs) (drop t ?ts))"
      using Suc.IH [of "xs @ [y]" zs t] slots_step [OF shape, of xs y zs] Suc.prems Cons by simp
    show ?thesis
    proof (cases "t < t_n (tail L)")
      case True
      then show ?thesis
        using Cons step Suc.IH [of xs ys "t + 1"] Suc.prems tl by (simp add: better_key lkey_def)
    next
      case False
      then show ?thesis using Cons step len by simp
    qed
  qed
qed simp

text \<open>\<open>best_first b m xs\<close>: \<open>xs\<close> are the levels of the map \<open>m\<close>, best price first.\<close>

definition best_first :: "bool \<Rightarrow> (price \<rightharpoonup> price_level) \<Rightarrow> price_level list \<Rightarrow> bool" where
  "best_first b m xs \<longleftrightarrow> sorted_wrt (\<lambda>x y. lkey b y < lkey b x) xs \<and> set xs = ran m"

lemma ran_amap: "ladder_inv L \<Longrightarrow> ran (amap L) = contents L"
  by (auto simp: ran_def amap_contents)

lemma for_each_best_ok:
  assumes inv: "ladder_inv L"
  shows "\<exists>xs. best_first (is_bid L) (amap L) xs \<and> (\<forall>n f s. for_each_best L n f s = fold f (take n xs) s)"
proof -
  note I = ladder_invD [OF inv]
  let ?b = "is_bid L" and ?ts = "rev (tail_list (tail L))" and ?ws = "map (\<lambda>i. levels L ! i) (slots_best_first L)"
  let ?xs = "merge_best ?b ?ws ?ts"
  have ti: "tail_inv (tail L)" "t_is_bid (tail L) = ?b" using I(1) by (auto simp: ladder_shape_def)
  have ws: "set ?ws = wset L" by (simp add: wset_def set_slots)
  have "lkey ?b (levels L ! j) < lkey ?b (levels L ! i)" if "i \<in> occ L" "j \<in> occ L" "better_idx ?b (int i) (int j)" for i j
    using that window_price [OF I(3)] by (auto simp: lkey_def price_key_def better_idx_def split: if_splits)
  then have s1: "sorted_wrt (\<lambda>x y. lkey ?b y < lkey ?b x) ?ws"
    using sorted_slots [of L] set_slots [of L] unfolding sorted_wrt_map by (auto intro: sorted_wrt_mono_rel [rotated])
  have s2: "sorted_wrt (\<lambda>x y. lkey ?b y < lkey ?b x) ?ts"
    using ti by (simp add: tail_inv_level_sorted level_sorted_def sorted_wrt_rev)
  have "lkey ?b ` set ?ws \<inter> lkey ?b ` set ?ts = {}"
    using contents_disjoint [OF I(3,5)] unfolding ws by (auto simp: wset_def lkey_def)
  from sorted_merge_best [OF s1 s2 this] have "best_first ?b (amap L) ?xs"
    using ws by (simp add: best_first_def set_merge_best ran_amap [OF inv] contents_def wset_def)
  moreover have "for_each_best L n f s = fold f (take n ?xs) s" for n and f :: "price_level \<Rightarrow> 'c \<Rightarrow> 'c" and s
  proof (cases "tail_empty (tail L)")
    case True
    then have "?ts = []" by (simp add: tail_empty_def tail_list_def)
    with True show ?thesis
      using walk_window_eq [OF I(1), of "[]" "slots_best_first L" n] slots_start [OF I(4)] by (simp add: for_each_best_def)
  next
    case False
    then show ?thesis
      using walk_merge_eq [OF I(1), of "[]" "slots_best_first L" n 0] slots_start [OF I(4)] by (simp add: for_each_best_def)
  qed
  ultimately show ?thesis by blast
qed

lemma fold_words:
  "fold (\<lambda>w. fold (\<lambda>r. f (ls ! (w * 64 + r))) (word_bits (bs ! w))) [0..<n] s =
   fold f (map (\<lambda>i. ls ! i) (filter (test_bit bs) [0..<n * 64])) s"
proof (induction n)
  case (Suc n)
  have "[0..<Suc n * 64] = [0..<n * 64] @ [n * 64..<(n + 1) * 64]"
    by (metis Suc_eq_plus1 add.commute le0 le_add1 mult_Suc upt_add_eq_append add_0)
  moreover have "fold (\<lambda>r. f (ls ! (n * 64 + r))) (word_bits (bs ! n)) =
      fold f (map (\<lambda>i. ls ! i) (map (\<lambda>r. n * 64 + r) (word_bits (bs ! n))))"
    by (simp add: fold_map comp_def)
  moreover have "[0..<Suc n] = [0..<n] @ [n]" by simp
  ultimately show ?case using Suc.IH by (simp add: word_indices del: upt_Suc mult_Suc)
qed simp

lemma for_each_level_ok:
  assumes inv: "ladder_inv L"
  shows "\<exists>xs. distinct (map l_price xs) \<and> set xs = ran (amap L) \<and> (\<forall>f s. for_each_level L f s = fold f xs s)"
proof -
  note I = ladder_invD [OF inv]
  let ?is = "filter (test_bit (bits L)) [0..<window_size L]"
  let ?xs = "map (\<lambda>i. levels L ! i) ?is @ tail_list (tail L)"
  have W: "window_size L div 64 * 64 = window_size L" using pow2_dvd_64 I(1) by (simp add: ladder_shape_def)
  have slots: "set ?is = occ L" by (auto simp: occ_def)
  have ti: "tail_inv (tail L)" using I(1) by (simp add: ladder_shape_def)
  have "distinct (map l_price (tail_list (tail L)))" using ti level_sorted_distinct by (auto simp: tail_inv_level_sorted)
  moreover have "distinct (map (\<lambda>i. l_price (levels L ! i)) ?is)"
    using inj_on_window [OF I(3)] slots by (simp add: distinct_map)
  ultimately have "distinct (map l_price ?xs)"
    using contents_disjoint [OF I(3,5)] slots by (simp add: comp_def)
  moreover have "set ?xs = ran (amap L)" unfolding ran_amap [OF inv] contents_def using slots by auto
  moreover have "map (\<lambda>i. t_buf (tail L) ! i) [0..<t_n (tail L)] = tail_list (tail L)"
    using ti by (intro nth_equalityI) (auto simp: tail_inv_def tail_nth)
  then have "for_each_level L f s = fold f ?xs s" for f :: "price_level \<Rightarrow> 'c \<Rightarrow> 'c" and s
    using fold_words [of f "levels L" "bits L" "window_size L div 64" s] W
    by (simp add: for_each_level_def tail_for_each_def)
  ultimately show ?thesis by blast
qed

end
