(* ===== verification/Ladder_Contract.thy ===== *)
theory Ladder_Contract
  imports Level_Ladder
begin

text \<open>
  The interface between the order book and the container of its price levels: what a store of
  levels promises to a client that opens a level, works on it and closes it, stated as a locale
  whose laws speak of a finite map from prices to levels.  The ladder is an instance; where a level
  lives, in the window or in the tail, does not appear in the contract.
\<close>

section \<open>What a level store promises\<close>

locale level_store =
  fixes inv :: "'s \<Rightarrow> bool"
    and entries :: "'s \<Rightarrow> price \<rightharpoonup> price_level"
    and room :: "'s \<Rightarrow> nat"
    and rank :: "'s \<Rightarrow> price \<Rightarrow> int"
    and refers :: "'s \<Rightarrow> price \<Rightarrow> 'r \<Rightarrow> bool"
    and read :: "'s \<Rightarrow> 'r \<Rightarrow> price_level option"
    and look :: "'s \<Rightarrow> price \<Rightarrow> 'r option"
    and top :: "'s \<Rightarrow> 'r option"
    and get :: "'s \<Rightarrow> price \<Rightarrow> ('s \<times> 'r) option"
    and put :: "'s \<Rightarrow> 'r \<Rightarrow> price_level \<Rightarrow> 's option"
    and del :: "'s \<Rightarrow> 'r \<Rightarrow> 's option"
  assumes finite_entries: "inv s \<Longrightarrow> finite (dom (entries s))"
    and refers_entry: "inv s \<Longrightarrow> refers s p r \<Longrightarrow> read s r = entries s p \<and> entries s p \<noteq> None"
    and look_law: "inv s \<Longrightarrow> (case look s p of None \<Rightarrow> entries s p = None | Some r \<Rightarrow> refers s p r)"
    and top_law: "inv s \<Longrightarrow> (case top s of None \<Rightarrow> entries s = Map.empty
        | Some r \<Rightarrow> \<exists>p. refers s p r \<and> (\<forall>q \<in> dom (entries s). rank s q \<le> rank s p))"
    and get_law: "inv s \<Longrightarrow> price_ok p \<Longrightarrow> card (insert p (dom (entries s))) \<le> room s \<Longrightarrow>
        \<exists>s' r. get s p = Some (s', r) \<and> inv s' \<and> refers s' p r \<and> room s' = room s \<and> rank s' = rank s \<and>
          entries s' = (entries s)(p \<mapsto> (case entries s p of None \<Rightarrow> empty_level p | Some l \<Rightarrow> l))"
    and put_law: "inv s \<Longrightarrow> refers s p r \<Longrightarrow> l_price l = p \<Longrightarrow>
        \<exists>s'. put s r l = Some s' \<and> inv s' \<and> entries s' = (entries s)(p \<mapsto> l) \<and> refers s' p r \<and> room s' = room s \<and> rank s' = rank s"
    and del_law: "inv s \<Longrightarrow> refers s p r \<Longrightarrow>
        \<exists>s'. del s r = Some s' \<and> inv s' \<and> entries s' = (entries s)(p := None) \<and> room s' = room s \<and> rank s' = rank s"
begin

text \<open>Opening a level and writing to it: it can be read and found, and no other level changes.\<close>

lemma get_put:
  assumes "inv s" "price_ok p" "card (insert p (dom (entries s))) \<le> room s" "l_price l = p"
  shows "\<exists>s1 r s2. get s p = Some (s1, r) \<and> put s1 r l = Some s2 \<and> inv s2 \<and> read s2 r = Some l \<and> refers s2 p r \<and>
    entries s2 = (entries s)(p \<mapsto> l) \<and> room s2 = room s \<and> rank s2 = rank s \<and> (\<exists>r'. look s2 p = Some r' \<and> read s2 r' = Some l)"
proof -
  from get_law [OF assms(1-3)] obtain s1 r where 1: "get s p = Some (s1, r)" "inv s1" "refers s1 p r" "room s1 = room s" "rank s1 = rank s"
    "entries s1 = (entries s)(p \<mapsto> (case entries s p of None \<Rightarrow> empty_level p | Some l \<Rightarrow> l))" by blast
  from put_law [OF 1(2,3) assms(4)] obtain s2 where 2: "put s1 r l = Some s2" "inv s2" "entries s2 = (entries s1)(p \<mapsto> l)"
    "refers s2 p r" "room s2 = room s1" "rank s2 = rank s1" by blast
  have "\<exists>r'. look s2 p = Some r' \<and> read s2 r' = Some l"
    using look_law [OF 2(2), of p] 2(3) refers_entry [OF 2(2), of p] by (cases "look s2 p") auto
  with 1 2 refers_entry [OF 2(2,4)] show ?thesis by auto
qed

text \<open>Opening, writing and closing a level at a new price leaves the store as it was.\<close>

lemma get_put_del:
  assumes "inv s" "price_ok p" "card (insert p (dom (entries s))) \<le> room s" "l_price l = p" "entries s p = None"
  shows "\<exists>s1 r s2 s3. get s p = Some (s1, r) \<and> put s1 r l = Some s2 \<and> del s2 r = Some s3 \<and> inv s3 \<and> entries s3 = entries s"
proof -
  from get_put [OF assms(1-4)] obtain s1 r s2 where
    s: "get s p = Some (s1, r)" "put s1 r l = Some s2" "inv s2" "refers s2 p r" "entries s2 = (entries s)(p \<mapsto> l)" by blast
  from del_law [OF s(3,4)] s(5) assms(5) obtain s3 where "del s2 r = Some s3" "inv s3" "entries s3 = entries s"
    by (auto simp: fun_upd_idem)
  with s show ?thesis by blast
qed

text \<open>A level that is at least as good as every other one is the top.\<close>

lemma top_unique:
  assumes "inv s" "entries s p \<noteq> None" "\<forall>q \<in> dom (entries s). q \<noteq> p \<longrightarrow> rank s q < rank s p"
  shows "\<exists>r. top s = Some r \<and> read s r = entries s p"
proof -
  from top_law [OF assms(1)] assms(2) obtain r q where r: "top s = Some r" "refers s q r" "\<forall>x \<in> dom (entries s). rank s x \<le> rank s q"
    by (cases "top s") auto
  note q = refers_entry [OF assms(1) r(2)]
  then have "q \<in> dom (entries s)" by (auto simp: domIff)
  moreover have "rank s p \<le> rank s q" using r(3) assms(2) by blast
  ultimately have "q = p" using assms(3) by fastforce
  with q r(1) show ?thesis by auto
qed

text \<open>Opening a level better than all others makes it the top; closing it brings back the old top.\<close>

lemma top_after:
  assumes "inv s" "price_ok p" "card (insert p (dom (entries s))) \<le> room s" "l_price l = p" "\<forall>q \<in> dom (entries s). rank s q < rank s p"
  shows "\<exists>s1 r s2 r'. get s p = Some (s1, r) \<and> put s1 r l = Some s2 \<and> top s2 = Some r' \<and> read s2 r' = Some l"
proof -
  from get_put [OF assms(1-4)] obtain s1 r s2 where
    s: "get s p = Some (s1, r)" "put s1 r l = Some s2" "inv s2" "entries s2 = (entries s)(p \<mapsto> l)" "rank s2 = rank s" by blast
  from top_unique [OF s(3), of p] s(4,5) assms(5) show ?thesis using s(1,2) by auto
qed

end

section \<open>The ladder is a level store\<close>

interpretation ladder_store: level_store ladder_inv amap "\<lambda>L. t_capacity (tail L)" "\<lambda>L. price_key (is_bid L)" ref_at deref find_level best
  level_for_insert store_level erase_level
proof
  fix L p r
  assume L: "ladder_inv L"
  show "finite (dom (amap L))" by (rule card_amap [OF L])
  show "case find_level L p of None \<Rightarrow> amap L p = None | Some r \<Rightarrow> ref_at L p r" by (rule find_level_ok [OF L])
  show "case best L of None \<Rightarrow> amap L = Map.empty
    | Some r \<Rightarrow> \<exists>p. ref_at L p r \<and> (\<forall>q \<in> dom (amap L). price_key (is_bid L) q \<le> price_key (is_bid L) p)"
    by (rule best_level_ok [OF L])
  show "deref L r = amap L p \<and> amap L p \<noteq> None" if "ref_at L p r" using ref_at_deref [OF L that] by auto
  show "\<exists>L' r. level_for_insert L p = Some (L', r) \<and> ladder_inv L' \<and> ref_at L' p r \<and> t_capacity (tail L') = t_capacity (tail L) \<and>
      price_key (is_bid L') = price_key (is_bid L) \<and> amap L' = (amap L)(p \<mapsto> (case amap L p of None \<Rightarrow> empty_level p | Some l \<Rightarrow> l))"
    if "price_ok p" "card (insert p (dom (amap L))) \<le> t_capacity (tail L)"
    using level_for_insert_ok [OF L that] by (auto simp: ladder_same_def opened_def fun_upd_idem split: option.splits)
  show "\<exists>L'. store_level L r l = Some L' \<and> ladder_inv L' \<and> amap L' = (amap L)(p \<mapsto> l) \<and> ref_at L' p r \<and>
      t_capacity (tail L') = t_capacity (tail L) \<and> price_key (is_bid L') = price_key (is_bid L)"
    if "ref_at L p r" "l_price l = p" for l
    using store_level_ok [OF L that] that(1) by (auto simp: ladder_same_def)
  show "\<exists>L'. erase_level L r = Some L' \<and> ladder_inv L' \<and> amap L' = (amap L)(p := None) \<and>
      t_capacity (tail L') = t_capacity (tail L) \<and> price_key (is_bid L') = price_key (is_bid L)" if "ref_at L p r"
    using erase_level_ok [OF L that] by (auto simp: ladder_same_def)
qed

section \<open>Properties\<close>

text \<open>
  C14.  The ladder behaves as a map from prices to levels although every level lives either in the
  window or in the tail and moves between them: opening a level at any price, which may recenter
  the window, writing to it and closing it return; each keeps the representation invariant (bitmap,
  counter, best slot, sorted tail, one home per price); the level that was written is found at its
  price, no other level changes, and closing it removes exactly it.
\<close>

theorem ladder_well_formed:
  assumes "ladder_inv L" "price_ok p" "card (insert p (dom (amap L))) \<le> t_capacity (tail L)" "l_price l = p"
  shows "\<exists>L1 r L2 L3. level_for_insert L p = Some (L1, r) \<and> ladder_inv L1 \<and>
    store_level L1 r l = Some L2 \<and> ladder_inv L2 \<and> amap L2 = (amap L)(p \<mapsto> l) \<and> (\<exists>r'. find_level L2 p = Some r' \<and> deref L2 r' = Some l) \<and>
    erase_level L2 r = Some L3 \<and> ladder_inv L3 \<and> amap L3 = (amap L)(p := None)"
proof -
  from ladder_store.get_put [OF assms] obtain L1 r L2 where
    L: "level_for_insert L p = Some (L1, r)" "store_level L1 r l = Some L2" "ladder_inv L2" "ref_at L2 p r" "amap L2 = (amap L)(p \<mapsto> l)"
      "\<exists>r'. find_level L2 p = Some r' \<and> deref L2 r' = Some l" by blast
  moreover from ladder_store.get_law [OF assms(1-3)] L(1) have "ladder_inv L1" by auto
  moreover from ladder_store.del_law [OF L(3,4)] L(5) obtain L3 where "erase_level L2 r = Some L3" "ladder_inv L3" "amap L3 = (amap L)(p := None)" by auto
  ultimately show ?thesis by blast
qed

theorem ladder_well_formed_witness:
  "\<exists>L1 r L2 L3. level_for_insert (new_ladder True 64 8) 1000 = Some (L1, r) \<and> store_level L1 r (empty_level 1000) = Some L2 \<and>
    amap L2 = [1000 \<mapsto> empty_level 1000] \<and> erase_level L2 r = Some L3 \<and> amap L3 = Map.empty"
proof -
  have w: "is_pow2 64" "(64 :: nat) \<le> 64" "(64 :: nat) \<le> 2 ^ 62" using is_pow2_power [of 6] by simp_all
  note n = ladder_inv_new [OF w, of True 8]
  have "price_ok 1000" "card (insert 1000 (dom (amap (new_ladder True 64 8)))) \<le> t_capacity (tail (new_ladder True 64 8))" "l_price (empty_level 1000) = 1000"
    by (simp_all add: price_ok_def n(2)) (simp_all add: new_ladder_def new_tail_def empty_level_def)
  from ladder_well_formed [OF n(1) this] show ?thesis unfolding n(2) by auto
qed

text \<open>
  The best level after an insert: a level opened at a price better than every other becomes
  the best one, whichever side the ladder serves.
\<close>

theorem ladder_best_after_insert:
  assumes "ladder_inv L" "price_ok p" "card (insert p (dom (amap L))) \<le> t_capacity (tail L)" "l_price l = p"
    and "\<forall>q \<in> dom (amap L). better (is_bid L) p q"
  shows "\<exists>L1 r L2 r'. level_for_insert L p = Some (L1, r) \<and> store_level L1 r l = Some L2 \<and> best L2 = Some r' \<and> deref L2 r' = Some l"
  using assms(5) by (intro ladder_store.top_after [OF assms(1-4)]) (simp add: better_def price_key_def)

theorem ladder_best_after_insert_witness:
  "\<exists>L1 r L2 r'. level_for_insert (new_ladder False 64 8) 7 = Some (L1, r) \<and> store_level L1 r (empty_level 7) = Some L2 \<and>
    best L2 = Some r' \<and> deref L2 r' = Some (empty_level 7)"
proof -
  have w: "is_pow2 64" "(64 :: nat) \<le> 64" "(64 :: nat) \<le> 2 ^ 62" using is_pow2_power [of 6] by simp_all
  note n = ladder_inv_new [OF w, of False 8]
  have "price_ok 7" "card (insert 7 (dom (amap (new_ladder False 64 8)))) \<le> t_capacity (tail (new_ladder False 64 8))" "l_price (empty_level 7) = 7"
    by (simp_all add: price_ok_def n(2)) (simp_all add: new_ladder_def new_tail_def empty_level_def)
  from ladder_best_after_insert [OF n(1) this] show ?thesis unfolding n(2) by auto
qed

end
