(* ===== verification/Book_Spec.thy ===== *)
theory Book_Spec
  imports Order_Types
begin

text \<open>
  What an order book promises, without ladders, pools and links: each side is a list of price
  levels, best price first, and a level is the queue of its orders, oldest first, each with its
  id and open quantity.  Matching walks the opposite side from the front.
\<close>

section \<open>The specification\<close>

type_synonym spec_queue = "(order_id \<times> quantity) list"
type_synonym spec_side = "(price \<times> spec_queue) list"

record spec_book =
  s_bids :: spec_side
  s_asks :: spec_side

fun side_of :: "side \<Rightarrow> spec_book \<Rightarrow> spec_side" where
  "side_of Buy B = s_bids B"
| "side_of Sell B = s_asks B"

fun set_side :: "side \<Rightarrow> spec_side \<Rightarrow> spec_book \<Rightarrow> spec_book" where
  "set_side Buy xs B = B\<lparr>s_bids := xs\<rparr>"
| "set_side Sell xs B = B\<lparr>s_asks := xs\<rparr>"

text \<open>A bid is the better the higher it is, an ask the lower.\<close>

definition pbetter :: "side \<Rightarrow> price \<Rightarrow> price \<Rightarrow> bool" where
  "pbetter s p q = (case s of Buy \<Rightarrow> q < p | Sell \<Rightarrow> p < q)"

text \<open>An incoming order \<open>i\<close> of quantity \<open>q\<close> takes from the front of a queue at price \<open>p\<close>.\<close>

fun take_queue :: "order_id \<Rightarrow> price \<Rightarrow> quantity \<Rightarrow> spec_queue \<Rightarrow> quantity \<times> spec_queue \<times> fill list" where
  "take_queue i p q [] = (q, [], [])"
| "take_queue i p q ((j, r) # xs) =
     (if q \<le> 0 then (q, (j, r) # xs, [])
      else if r \<le> q
      then let (q', xs', fs) = take_queue i p (q - r) xs in
        (q', xs', \<lparr>resting_id = j, incoming_id = i, f_price = p, f_qty = r\<rparr> # fs)
      else (0, (j, r - q) # xs, [\<lparr>resting_id = j, incoming_id = i, f_price = p, f_qty = q\<rparr>]))"

text \<open>It takes from the levels of side \<open>s\<close> as long as their price is no worse than its limit.\<close>

fun take_side :: "side \<Rightarrow> order_id \<Rightarrow> price \<Rightarrow> quantity \<Rightarrow> spec_side \<Rightarrow> quantity \<times> spec_side \<times> fill list" where
  "take_side s i limit q [] = (q, [], [])"
| "take_side s i limit q ((p, xs) # ls) =
     (if q \<le> 0 \<or> pbetter s limit p then (q, (p, xs) # ls, [])
      else let (q', xs', fs) = take_queue i p q xs in
        if xs' = [] then let (q'', ls', fs') = take_side s i limit q' ls in (q'', ls', fs @ fs')
        else (q', (p, xs') # ls, fs))"

text \<open>What is left joins the end of the queue at its price.\<close>

fun enqueue :: "side \<Rightarrow> price \<Rightarrow> 'a \<Rightarrow> (price \<times> 'a list) list \<Rightarrow> (price \<times> 'a list) list" where
  "enqueue s p e [] = [(p, [e])]"
| "enqueue s p e ((p', xs) # ls) =
     (if p = p' then (p', xs @ [e]) # ls
      else if pbetter s p p' then (p, [e]) # (p', xs) # ls
      else (p', xs) # enqueue s p e ls)"

definition side_orders :: "spec_side \<Rightarrow> spec_queue" where
  "side_orders ls = concat (map snd ls)"

definition book_ids :: "spec_book \<Rightarrow> order_id list" where
  "book_ids B = map fst (side_orders (s_bids B)) @ map fst (side_orders (s_asks B))"

definition spec_add :: "nat \<Rightarrow> order_id \<Rightarrow> side \<Rightarrow> price \<Rightarrow> quantity \<Rightarrow> spec_book \<Rightarrow> bool \<times> spec_book \<times> fill list" where
  "spec_add cap i s p q B =
     (if i \<in> set (book_ids B) \<or> cap \<le> length (book_ids B) then (False, B, [])
      else let (q', ls, fs) = take_side (opposite s) i p q (side_of (opposite s) B);
               B' = set_side (opposite s) ls B
        in (True, if q' > 0 then set_side s (enqueue s p (i, q') (side_of s B')) B' else B', fs))"

definition drop_id :: "order_id \<Rightarrow> spec_side \<Rightarrow> spec_side" where
  "drop_id i ls = filter (\<lambda>(p, xs). xs \<noteq> []) (map (\<lambda>(p, xs). (p, filter (\<lambda>(j, _). j \<noteq> i) xs)) ls)"

definition spec_cancel :: "order_id \<Rightarrow> spec_book \<Rightarrow> bool \<times> spec_book" where
  "spec_cancel i B =
     (if i \<in> set (book_ids B)
      then (True, \<lparr>s_bids = drop_id i (s_bids B), s_asks = drop_id i (s_asks B)\<rparr>)
      else (False, B))"

end
