(* ===== verification/Book_Laws.thy ===== *)
theory Book_Laws
  imports Book_Spec
begin

text \<open>
  The laws of the specification: what matching does to quantities, which orders trade, and the
  invariant that the two sides stay sorted, have unique ids and never cross.
\<close>

section \<open>The order of prices\<close>

lemma pbetter_irrefl [simp]: "\<not> pbetter s p p"
  by (cases s) (simp_all add: pbetter_def)

lemma pbetter_trans: "pbetter s p q \<Longrightarrow> pbetter s q r \<Longrightarrow> pbetter s p r"
  by (cases s) (simp_all add: pbetter_def)

lemma pbetter_cases: "p = q \<or> pbetter s p q \<or> pbetter s q p"
  by (cases s) (auto simp: pbetter_def)

lemma pbetter_asym: "pbetter s p q \<Longrightarrow> \<not> pbetter s q p"
  by (cases s) (simp_all add: pbetter_def)

lemma sorted_prices_distinct: "sorted_wrt (\<lambda>x y. pbetter s (fst x) (fst y)) ls \<Longrightarrow> distinct (map fst ls)"
  by (induction ls) auto

lemma sorted_desc_unique:
  fixes f :: "'a \<Rightarrow> int"
  assumes "sorted_wrt (\<lambda>x y. f y < f x) xs" "sorted_wrt (\<lambda>x y. f y < f x) ys" "set xs = set ys"
  shows "xs = ys"
  using assms
proof (induction xs arbitrary: ys)
  case (Cons x xs)
  then obtain y zs where ys: "ys = y # zs" by (cases ys) auto
  have "x = y"
  proof (rule ccontr)
    assume "x \<noteq> y"
    with Cons.prems ys have "x \<in> set zs" "y \<in> set xs" by auto
    with Cons.prems ys show False by force
  qed
  moreover have "x \<notin> set xs" "y \<notin> set zs" using Cons.prems ys by auto
  moreover have "set xs = set zs" using calculation Cons.prems(3) ys by auto
  ultimately show ?case using Cons.IH [of zs] Cons.prems ys by simp
qed simp

section \<open>Invariant\<close>

definition queue_ok :: "spec_queue \<Rightarrow> bool" where
  "queue_ok xs \<longleftrightarrow> xs \<noteq> [] \<and> (\<forall>(i, q) \<in> set xs. 0 < q)"

definition side_ok :: "side \<Rightarrow> spec_side \<Rightarrow> bool" where
  "side_ok s ls \<longleftrightarrow> sorted_wrt (\<lambda>x y. pbetter s (fst x) (fst y)) ls \<and> (\<forall>(p, xs) \<in> set ls. queue_ok xs)"

definition uncrossed :: "spec_book \<Rightarrow> bool" where
  "uncrossed B \<longleftrightarrow> (\<forall>p \<in> fst ` set (s_bids B). \<forall>q \<in> fst ` set (s_asks B). p < q)"

definition spec_inv :: "spec_book \<Rightarrow> bool" where
  "spec_inv B \<longleftrightarrow> (\<forall>s. side_ok s (side_of s B)) \<and> distinct (book_ids B) \<and> uncrossed B"

definition queue_qty :: "spec_queue \<Rightarrow> quantity" where
  "queue_qty xs = sum_list (map snd xs)"

definition side_qty :: "spec_side \<Rightarrow> quantity" where
  "side_qty ls = sum_list (map (\<lambda>(p, xs). queue_qty xs) ls)"

definition book_qty :: "spec_book \<Rightarrow> quantity" where
  "book_qty B = side_qty (s_bids B) + side_qty (s_asks B)"

definition fills_qty :: "fill list \<Rightarrow> quantity" where
  "fills_qty fs = sum_list (map f_qty fs)"

lemma queue_qty_simps [simp]:
  "queue_qty [] = 0" "queue_qty (x # xs) = snd x + queue_qty xs" "queue_qty (xs @ ys) = queue_qty xs + queue_qty ys"
  by (simp_all add: queue_qty_def)

lemma side_qty_simps [simp]:
  "side_qty [] = 0" "side_qty (l # ls) = queue_qty (snd l) + side_qty ls" "side_qty (ls @ ms) = side_qty ls + side_qty ms"
  by (simp_all add: side_qty_def case_prod_beta)

lemma fills_qty_simps [simp]:
  "fills_qty [] = 0" "fills_qty (f # fs) = f_qty f + fills_qty fs" "fills_qty (fs @ gs) = fills_qty fs + fills_qty gs"
  by (simp_all add: fills_qty_def)

lemma side_orders_simps [simp]:
  "side_orders [] = []" "side_orders (l # ls) = snd l @ side_orders ls"
  by (simp_all add: side_orders_def)

section \<open>Taking from one queue\<close>

definition positive :: "spec_queue \<Rightarrow> bool" where
  "positive xs \<longleftrightarrow> (\<forall>(i, q) \<in> set xs. 0 < q)"

lemma positive_simps [simp]:
  "positive []" "positive ((i, q) # xs) \<longleftrightarrow> 0 < q \<and> positive xs" "positive (xs @ ys) \<longleftrightarrow> positive xs \<and> positive ys"
  by (auto simp: positive_def)

lemma take_queue_qty:
  "take_queue i p q xs = (q', xs', fs) \<Longrightarrow> fills_qty fs = q - q' \<and> queue_qty xs' = queue_qty xs - fills_qty fs"
  by (induction i p q xs arbitrary: q' xs' fs rule: take_queue.induct) (fastforce split: if_splits prod.splits)+

lemma take_queue_positive:
  "take_queue i p q xs = (q', xs', fs) \<Longrightarrow> positive xs \<Longrightarrow>
   positive xs' \<and> (0 \<le> q \<longrightarrow> 0 \<le> q') \<and> (\<forall>f \<in> set fs. 0 < f_qty f \<and> f_price f = p \<and> incoming_id f = i)"
  by (induction i p q xs arbitrary: q' xs' fs rule: take_queue.induct) (fastforce split: if_splits prod.splits)+

text \<open>The orders that trade are the oldest ones, in their order, and what is left is a final part of the queue.\<close>

lemma take_queue_order:
  "take_queue i p q xs = (q', xs', fs) \<Longrightarrow>
   map resting_id fs = take (length fs) (map fst xs) \<and> (\<exists>k. map fst xs' = drop k (map fst xs)) \<and>
   (xs' = [] \<longrightarrow> length fs = length xs) \<and> (xs' \<noteq> [] \<longrightarrow> q' \<le> 0)"
proof (induction i p q xs arbitrary: q' xs' fs rule: take_queue.induct)
  case (2 i p q j r xs)
  show ?case
  proof (cases "q \<le> 0 \<or> q < r")
    case True
    then have "xs' \<noteq> []" "map fst xs' = drop 0 (map fst ((j, r) # xs))" "q' \<le> 0"
      "map resting_id fs = take (length fs) (map fst ((j, r) # xs))"
      using "2.prems" by (auto split: if_splits)
    then show ?thesis by blast
  next
    case False
    then have le: "\<not> q \<le> 0" "r \<le> q" by auto
    obtain q1 xs1 fs1 where 1: "take_queue i p (q - r) xs = (q1, xs1, fs1)" by (metis prod_cases3)
    from "2.IH" [OF le 1] obtain k where IH: "map resting_id fs1 = take (length fs1) (map fst xs)"
      "map fst xs1 = drop k (map fst xs)" "xs1 = [] \<longrightarrow> length fs1 = length xs" "xs1 \<noteq> [] \<longrightarrow> q1 \<le> 0" by blast
    have "\<exists>k. map fst xs1 = drop k (map fst ((j, r) # xs))" using IH(2) by (auto intro: exI [of _ "Suc k"])
    moreover have "q' = q1" "xs' = xs1" "length fs = Suc (length fs1)" "map resting_id fs = j # map resting_id fs1"
      using "2.prems" 1 le by auto
    ultimately show ?thesis using IH by simp
  qed
qed (auto intro: exI [of _ 0])

section \<open>Taking from one side\<close>

lemma take_side_split:
  assumes run: "take_side s i l q ((p, xs) # ls) = (q', ls', fs)"
  obtains (stop) "q \<le> 0 \<or> pbetter s l p" "q' = q" "ls' = (p, xs) # ls" "fs = []"
    | (part) xs1 where "0 < q" "\<not> pbetter s l p" "take_queue i p q xs = (q', xs1, fs)" "xs1 \<noteq> []" "ls' = (p, xs1) # ls"
    | (full) q1 fs1 fs2 where "0 < q" "\<not> pbetter s l p" "take_queue i p q xs = (q1, [], fs1)"
      "take_side s i l q1 ls = (q', ls', fs2)" "fs = fs1 @ fs2"
proof (cases "q \<le> 0 \<or> pbetter s l p")
  case True
  then have "q' = q" "ls' = (p, xs) # ls" "fs = []" using run by auto
  with True show ?thesis by (rule stop)
next
  case False
  obtain q1 xs1 fs1 where 1: "take_queue i p q xs = (q1, xs1, fs1)" by (metis prod_cases3)
  obtain q2 ls2 fs2 where 2: "take_side s i l q1 ls = (q2, ls2, fs2)" by (metis prod_cases3)
  have q: "0 < q" "\<not> pbetter s l p" using False by auto
  show ?thesis
  proof (cases "xs1 = []")
    case True
    then show ?thesis using q run 1 2 by (intro full [of q1 fs1 fs2]) simp_all
  next
    case ne: False
    then show ?thesis using q run 1 by (intro part [of xs1]) simp_all
  qed
qed

lemma take_side_qty:
  "take_side s i l q ls = (q', ls', fs) \<Longrightarrow> fills_qty fs = q - q' \<and> side_qty ls' = side_qty ls - fills_qty fs"
proof (induction ls arbitrary: q q' ls' fs)
  case (Cons lv ls)
  obtain p xs where lv: "lv = (p, xs)" by (cases lv)
  from Cons.prems [unfolded lv] show ?case
  proof (cases rule: take_side_split)
    case (part xs1)
    with take_queue_qty [OF part(3)] lv show ?thesis by simp
  next
    case (full q1 fs1 fs2)
    with take_queue_qty [OF full(3)] Cons.IH [OF full(4)] lv show ?thesis by simp
  qed (simp add: lv)
qed simp

text \<open>A fill that a limit order may get.\<close>

definition fill_ok :: "side \<Rightarrow> order_id \<Rightarrow> price \<Rightarrow> fill \<Rightarrow> bool" where
  "fill_ok s i l f \<longleftrightarrow> 0 < f_qty f \<and> incoming_id f = i \<and> \<not> pbetter s l (f_price f)"

lemma queue_ok_positive: "queue_ok xs \<longleftrightarrow> xs \<noteq> [] \<and> positive xs"
  by (simp add: queue_ok_def positive_def)

lemma side_ok_Cons:
  "side_ok s ((p, xs) # ls) \<longleftrightarrow> queue_ok xs \<and> (\<forall>l \<in> set ls. pbetter s p (fst l)) \<and> side_ok s ls"
  by (auto simp: side_ok_def)

lemma take_side_ok:
  "take_side s i l q ls = (q', ls', fs) \<Longrightarrow> side_ok s ls \<Longrightarrow>
   side_ok s ls' \<and> fst ` set ls' \<subseteq> fst ` set ls \<and> (0 \<le> q \<longrightarrow> 0 \<le> q') \<and> (\<forall>f \<in> set fs. fill_ok s i l f) \<and>
   (0 < q' \<longrightarrow> (\<forall>p \<in> fst ` set ls'. pbetter s l p))"
proof (induction ls arbitrary: q q' ls' fs)
  case (Cons lv ls)
  obtain p xs where lv: "lv = (p, xs)" by (cases lv)
  have pos: "positive xs" using Cons.prems(2) lv by (simp add: side_ok_Cons queue_ok_positive)
  from Cons.prems(1) [unfolded lv] show ?case
  proof (cases rule: take_side_split)
    case stop
    then have "0 < q' \<Longrightarrow> pbetter s l p" by auto
    then have "0 < q' \<Longrightarrow> \<forall>x \<in> fst ` set ls'. pbetter s l x"
      using stop Cons.prems(2) lv by (auto simp: side_ok_Cons intro: pbetter_trans)
    with stop Cons.prems(2) lv show ?thesis by simp
  next
    case (part xs1)
    note Q = take_queue_positive [OF part(3) pos] take_queue_order [OF part(3)]
    then have "side_ok s ls'" using part Cons.prems(2) lv by (simp add: side_ok_Cons queue_ok_positive)
    with part Q lv show ?thesis by (auto simp: fill_ok_def)
  next
    case (full q1 fs1 fs2)
    note Q = take_queue_positive [OF full(3) pos]
    have "side_ok s ls" using Cons.prems(2) lv by (simp add: side_ok_Cons)
    from Cons.IH [OF full(4) this] Q full lv show ?thesis by (auto simp: fill_ok_def)
  qed
qed simp

text \<open>Price-time priority: the fills name the resting orders from the front, without a gap.\<close>

lemma take_side_order:
  "take_side s i l q ls = (q', ls', fs) \<Longrightarrow>
   map resting_id fs = take (length fs) (map fst (side_orders ls)) \<and>
   (\<exists>k. map fst (side_orders ls') = drop k (map fst (side_orders ls)))"
proof (induction ls arbitrary: q q' ls' fs)
  case (Cons lv ls)
  obtain p xs where lv: "lv = (p, xs)" by (cases lv)
  from Cons.prems [unfolded lv] show ?case
  proof (cases rule: take_side_split)
    case stop
    then show ?thesis by (auto simp: lv intro: exI [of _ 0])
  next
    case (part xs1)
    from take_queue_order [OF part(3)] obtain k where Q: "map resting_id fs = take (length fs) (map fst xs)"
      "map fst xs1 = drop k (map fst xs)" by blast
    then have "length fs \<le> length xs" by (metis length_map length_take min.cobounded1)
    moreover have "k < length xs" using Q(2) part(4) by (metis drop_all length_map map_is_Nil_conv not_le)
    ultimately show ?thesis using Q part lv by (auto intro!: exI [of _ k])
  next
    case (full q1 fs1 fs2)
    note Q = take_queue_order [OF full(3)]
    from Cons.IH [OF full(4)] obtain k where IH: "map resting_id fs2 = take (length fs2) (map fst (side_orders ls))"
      "map fst (side_orders ls') = drop k (map fst (side_orders ls))" by blast
    with Q full lv show ?thesis by (auto intro!: exI [of _ "length xs + k"])
  qed
qed (auto intro: exI [of _ 0])

section \<open>Joining a queue\<close>

lemma enqueue_prices: "fst ` set (enqueue s p e ls) = insert p (fst ` set ls)"
  by (induction s p e ls rule: enqueue.induct) auto

lemma enqueue_qty: "side_qty (enqueue s p (i, q) ls) = side_qty ls + q"
  by (induction s p "(i, q)" ls rule: enqueue.induct) auto

lemma enqueue_orders: "mset (side_orders (enqueue s p e ls)) = add_mset e (mset (side_orders ls))"
  by (induction s p e ls rule: enqueue.induct) auto

lemma pbetter_total: "p \<noteq> p' \<Longrightarrow> \<not> pbetter s p p' \<Longrightarrow> pbetter s p' p"
  by (auto simp: pbetter_def split: side.splits)

lemma enqueue_ok:
  "side_ok s ls \<Longrightarrow> 0 < q \<Longrightarrow> side_ok s (enqueue s p (i, q) ls)"
proof (induction s p "(i, q)" ls rule: enqueue.induct)
  case (1 s p)
  then show ?case by (simp add: side_ok_def queue_ok_def)
next
  case (2 s p p' xs ls)
  consider "p = p'" | "p \<noteq> p'" "pbetter s p p'" | "p \<noteq> p'" "\<not> pbetter s p p'" by blast
  then show ?case
  proof cases
    case 1
    then show ?thesis using "2.prems" by (simp add: side_ok_Cons queue_ok_positive)
  next
    case 2
    then have "\<forall>l \<in> set ls. pbetter s p (fst l)"
      using "2.prems"(1) by (auto simp: side_ok_Cons pbetter_def split: side.splits)
    with 2 "2.prems" show ?thesis by (simp add: side_ok_Cons queue_ok_positive)
  next
    case 3
    have "\<forall>l \<in> fst ` set (enqueue s p (i, q) ls). pbetter s p' l"
      unfolding enqueue_prices using "2.prems"(1) pbetter_total [OF 3] by (auto simp: side_ok_Cons)
    then show ?thesis using "2.hyps" [OF 3] "2.prems" 3 by (auto simp: side_ok_Cons)
  qed
qed

section \<open>The operations keep the invariant\<close>

lemma book_ids_mset: "mset (book_ids B) = image_mset fst (mset (side_orders (side_of s B)) + mset (side_orders (side_of (opposite s) B)))"
  by (cases s) (simp_all add: book_ids_def add.commute)

lemma side_of_set_side [simp]:
  "side_of s (set_side s' xs B) = (if s = s' then xs else side_of s B)"
  by (cases s; cases s') simp_all

lemma uncrossed_iff: "uncrossed B \<longleftrightarrow> (\<forall>p \<in> fst ` set (side_of s B). \<forall>q \<in> fst ` set (side_of (opposite s) B). pbetter (opposite s) p q)"
  by (cases s) (auto simp: uncrossed_def pbetter_def)

lemma side_all: "(\<forall>t. P t) \<longleftrightarrow> P s \<and> P (opposite s)"
  by (cases s) (metis opposite.simps side.exhaust)+

lemma spec_add_cases:
  assumes run: "spec_add cap i s p q B = (ok, B', fs)"
  obtains (refused) "ok = False" "B' = B" "fs = []" "i \<in> set (book_ids B) \<or> cap \<le> length (book_ids B)"
    | (taken) q' ls where "ok = True" "i \<notin> set (book_ids B)" "length (book_ids B) < cap"
      "take_side (opposite s) i p q (side_of (opposite s) B) = (q', ls, fs)"
      "B' = (if q' > 0 then set_side s (enqueue s p (i, q') (side_of s B)) (set_side (opposite s) ls B) else set_side (opposite s) ls B)"
proof (cases "i \<in> set (book_ids B) \<or> cap \<le> length (book_ids B)")
  case True
  then have "ok = False" "B' = B" "fs = []" using run by (auto simp: spec_add_def)
  then show ?thesis using True by (rule refused)
next
  case False
  obtain q' ls fs' where t: "take_side (opposite s) i p q (side_of (opposite s) B) = (q', ls, fs')" by (metis prod_cases3)
  show ?thesis
    by (rule taken [of q' ls]) (use False run t in \<open>auto simp: spec_add_def Let_def\<close>)
qed

lemma distinct_drop_ids:
  "distinct (map fst (side_orders xs)) \<Longrightarrow> map fst (side_orders ys) = drop k (map fst (side_orders xs)) \<Longrightarrow>
   distinct (map fst (side_orders ys)) \<and> fst ` set (side_orders ys) \<subseteq> fst ` set (side_orders xs)"
  by (metis distinct_drop list.set_map set_drop_subset)

lemma distinct_book_ids:
  "distinct (book_ids B) \<longleftrightarrow> distinct (map fst (side_orders (side_of s B))) \<and>
     distinct (map fst (side_orders (side_of (opposite s) B))) \<and>
     fst ` set (side_orders (side_of s B)) \<inter> fst ` set (side_orders (side_of (opposite s) B)) = {}"
  by (cases s) (auto simp: book_ids_def)

lemma enqueue_distinct:
  assumes "distinct (map fst (side_orders ls))" "i \<notin> fst ` set (side_orders ls)"
  shows "distinct (map fst (side_orders (enqueue s p (i, q) ls))) \<and>
    fst ` set (side_orders (enqueue s p (i, q) ls)) = insert i (fst ` set (side_orders ls))"
proof -
  have m: "mset (map fst (side_orders (enqueue s p (i, q) ls))) = mset (i # map fst (side_orders ls))"
    by (simp add: enqueue_orders)
  have "distinct (map fst (side_orders (enqueue s p (i, q) ls)))"
    using mset_eq_imp_distinct_iff [OF m] assms by simp
  moreover have "set (map fst (side_orders (enqueue s p (i, q) ls))) = set (i # map fst (side_orders ls))"
    using m by (rule mset_eq_setD)
  ultimately show ?thesis by simp
qed

lemma spec_add_keeps_inv:
  assumes inv: "spec_inv B" and run: "spec_add cap i s p q B = (ok, B', fs)"
  shows "spec_inv B'"
  using run
proof (cases rule: spec_add_cases)
  case refused
  with inv show ?thesis by simp
next
  case (taken q' ls)
  let ?o = "opposite s" and ?B = "set_side (opposite s) ls B"
  have so: "side_ok s (side_of s B)" "side_ok ?o (side_of ?o B)" using inv by (simp_all add: spec_inv_def)
  note T = take_side_ok [OF taken(4) so(2)]
  from take_side_order [OF taken(4)] obtain k where k: "map fst (side_orders ls) = drop k (map fst (side_orders (side_of ?o B)))" by blast
  have d: "distinct (map fst (side_orders (side_of s B)))" "distinct (map fst (side_orders (side_of ?o B)))"
    "fst ` set (side_orders (side_of s B)) \<inter> fst ` set (side_orders (side_of ?o B)) = {}"
    using inv distinct_book_ids [of B s] by (simp_all add: spec_inv_def)
  note D = distinct_drop_ids [OF d(2) k]
  have un: "\<forall>x \<in> fst ` set (side_of s B). \<forall>y \<in> fst ` set ls. pbetter ?o x y"
  proof -
    have "\<forall>x \<in> fst ` set (side_of s B). \<forall>y \<in> fst ` set (side_of ?o B). pbetter ?o x y"
      using inv uncrossed_iff [of B s] by (simp add: spec_inv_def)
    moreover have "fst ` set ls \<subseteq> fst ` set (side_of ?o B)" using T by blast
    ultimately show ?thesis by blast
  qed
  have new: "i \<notin> fst ` set (side_orders (side_of s B))" "i \<notin> fst ` set (side_orders ls)"
    using taken(2) D by (cases s; auto simp: book_ids_def)+
  show ?thesis
  proof (cases "q' > 0")
    case True
    let ?ls = "enqueue s p (i, q') (side_of s B)"
    have B': "side_of s B' = ?ls" "side_of ?o B' = ls" using taken(5) True by simp_all
    have "side_ok s ?ls" using enqueue_ok [OF so(1) True] .
    moreover have "distinct (book_ids B')"
    proof -
      note E = enqueue_distinct [OF d(1) new(1), of s p q']
      have "fst ` set (side_orders (side_of s B)) \<inter> fst ` set (side_orders ls) = {}" using D d(3) by blast
      then show ?thesis unfolding distinct_book_ids [of B' s] B' using E D new(2) by simp
    qed
    moreover have "uncrossed B'"
      unfolding uncrossed_iff [of B' s] B' enqueue_prices using un T True by auto
    ultimately show ?thesis using T B' unfolding spec_inv_def side_all [of _ s] by simp
  next
    case False
    have B': "side_of s B' = side_of s B" "side_of ?o B' = ls" using taken(5) False by simp_all
    have "fst ` set (side_orders (side_of s B)) \<inter> fst ` set (side_orders ls) = {}" using D d(3) by blast
    then have "distinct (book_ids B')" unfolding distinct_book_ids [of B' s] B' using D d(1) by simp
    moreover have "uncrossed B'" unfolding uncrossed_iff [of B' s] B' using un by auto
    ultimately show ?thesis using T B' so unfolding spec_inv_def side_all [of _ s] by simp
  qed
qed

lemma drop_id_simps [simp]:
  "drop_id i [] = []"
  "drop_id i ((p, xs) # ls) = (if filter (\<lambda>(j, _). j \<noteq> i) xs = [] then drop_id i ls
     else (p, filter (\<lambda>(j, _). j \<noteq> i) xs) # drop_id i ls)"
  by (simp_all add: drop_id_def)

lemma drop_id_prices: "fst ` set (drop_id i ls) \<subseteq> fst ` set ls"
  by (auto simp: drop_id_def) force

lemma drop_id_orders: "side_orders (drop_id i ls) = filter (\<lambda>(j, _). j \<noteq> i) (side_orders ls)"
  by (induction ls) auto

lemma drop_id_ok: "side_ok s ls \<Longrightarrow> side_ok s (drop_id i ls)"
proof (induction ls)
  case (Cons l ls)
  obtain p xs where l: "l = (p, xs)" by (cases l)
  have "\<forall>x \<in> fst ` set ls. pbetter s p x" using Cons.prems l by (auto simp: side_ok_Cons)
  then have "\<forall>x \<in> fst ` set (drop_id i ls). pbetter s p x" using drop_id_prices [of i ls] by blast
  moreover have "positive (filter (\<lambda>(j, _). j \<noteq> i) xs)" using Cons.prems l by (auto simp: side_ok_Cons queue_ok_positive positive_def)
  ultimately show ?case using Cons l by (auto simp: side_ok_Cons queue_ok_positive)
qed simp

lemma distinct_filter_fst: "distinct (map fst xs) \<Longrightarrow> distinct (map fst (filter P xs))"
  by (simp add: distinct_map_filter)

lemma spec_cancel_keeps_inv:
  assumes inv: "spec_inv B" and run: "spec_cancel i B = (ok, B')"
  shows "spec_inv B'"
proof (cases "i \<in> set (book_ids B)")
  case True
  then have B': "s_bids B' = drop_id i (s_bids B)" "s_asks B' = drop_id i (s_asks B)" using run by (auto simp: spec_cancel_def)
  have "distinct (book_ids B')"
  proof -
    have "distinct (map fst (side_orders (s_bids B)))" "distinct (map fst (side_orders (s_asks B)))"
      "fst ` set (side_orders (s_bids B)) \<inter> fst ` set (side_orders (s_asks B)) = {}"
      using inv distinct_book_ids [of B Buy] by (simp_all add: spec_inv_def)
    moreover have "fst ` set (filter P xs) \<inter> fst ` set (filter P ys) = {}"
      if "fst ` set xs \<inter> fst ` set ys = {}" for P and xs ys :: spec_queue
      using that by fastforce
    ultimately show ?thesis
      unfolding distinct_book_ids [of B' Buy] side_of.simps opposite.simps B' drop_id_orders
      by (simp only: distinct_filter_fst simp_thms)
  qed
  moreover have "uncrossed B'" using inv drop_id_prices [of i "s_bids B"] drop_id_prices [of i "s_asks B"]
    unfolding spec_inv_def uncrossed_def B' by (meson subsetD)
  moreover have "side_ok Buy (s_bids B)" "side_ok Sell (s_asks B)"
    using inv unfolding spec_inv_def side_all [of _ Buy] by simp_all
  ultimately show ?thesis unfolding spec_inv_def side_all [of _ Buy] by (simp add: B' drop_id_ok)
next
  case False
  with run inv show ?thesis by (simp add: spec_cancel_def)
qed

section \<open>Conservation\<close>

lemma book_qty_sides: "book_qty B = side_qty (side_of s B) + side_qty (side_of (opposite s) B)"
  by (cases s) (simp_all add: book_qty_def)

text \<open>Every unit that comes in either rests or trades against a resting unit.\<close>

lemma spec_add_conserves:
  assumes inv: "spec_inv B" and run: "spec_add cap i s p q B = (ok, B', fs)" and q: "0 \<le> q"
  shows "book_qty B' + 2 * fills_qty fs = book_qty B + (if ok then q else 0)"
  using run
proof (cases rule: spec_add_cases)
  case (taken q' ls)
  have "side_ok (opposite s) (side_of (opposite s) B)" using inv by (simp add: spec_inv_def)
  from take_side_ok [OF taken(4) this] q have "0 \<le> q'" by simp
  with take_side_qty [OF taken(4)] taken show ?thesis
    by (auto simp: book_qty_sides [of _ s] enqueue_qty)
qed simp

section \<open>Levels whose total fits\<close>

text \<open>Every level keeps its total in 64 bits; the quantity that is open at a price.\<close>

definition side_fits :: "spec_side \<Rightarrow> bool" where
  "side_fits ls \<longleftrightarrow> (\<forall>(p, xs) \<in> set ls. queue_qty xs < 2 ^ 63)"

definition book_fits :: "spec_book \<Rightarrow> bool" where
  "book_fits B \<longleftrightarrow> side_fits (s_bids B) \<and> side_fits (s_asks B)"

definition level_qty_of :: "spec_side \<Rightarrow> price \<Rightarrow> quantity" where
  "level_qty_of ls p = (case map_of ls p of None \<Rightarrow> 0 | Some xs \<Rightarrow> queue_qty xs)"

lemma side_fits_simps [simp]:
  "side_fits []" "side_fits ((p, xs) # ls) \<longleftrightarrow> queue_qty xs < 2 ^ 63 \<and> side_fits ls"
  by (simp_all add: side_fits_def)

lemma book_fits_sides: "book_fits B \<longleftrightarrow> side_fits (side_of s B) \<and> side_fits (side_of (opposite s) B)"
  by (cases s) (auto simp: book_fits_def)

lemma fills_nonneg: "\<forall>f \<in> set fs. 0 < f_qty f \<Longrightarrow> 0 \<le> fills_qty fs"
  by (induction fs) auto

lemma take_side_fits:
  "take_side s i l q ls = (q', ls', fs) \<Longrightarrow> side_ok s ls \<Longrightarrow> side_fits ls \<Longrightarrow> side_fits ls' \<and> q' \<le> q"
proof (induction ls arbitrary: q q' ls' fs)
  case (Cons lv ls)
  obtain p xs where lv: "lv = (p, xs)" by (cases lv)
  from Cons.prems lv have ok: "positive xs" "side_ok s ls" "queue_qty xs < 2 ^ 63" "side_fits ls"
    by (simp_all add: side_ok_Cons queue_ok_positive)
  from Cons.prems(1) [unfolded lv] show ?case
  proof (cases rule: take_side_split)
    case stop
    with ok lv show ?thesis by simp
  next
    case (part xs1)
    with take_queue_qty [OF part(3)] take_queue_positive [OF part(3) ok(1)] fills_nonneg [of fs] ok show ?thesis by simp
  next
    case (full q1 fs1 fs2)
    with take_queue_qty [OF full(3)] take_queue_positive [OF full(3) ok(1)] fills_nonneg [of fs1] Cons.IH [OF full(4) ok(2,4)]
    show ?thesis by simp
  qed
qed simp

lemma enqueue_fits:
  "side_ok s ls \<Longrightarrow> side_fits ls \<Longrightarrow> level_qty_of ls p + q < 2 ^ 63 \<Longrightarrow> side_fits (enqueue s p (i, q) ls)"
proof (induction s p "(i, q)" ls rule: enqueue.induct)
  case (2 s p p' xs ls)
  consider "p = p'" | "p \<noteq> p'" "pbetter s p p'" | "p \<noteq> p'" "\<not> pbetter s p p'" by blast
  then show ?case
  proof cases
    case 2
    then have "p \<notin> fst ` set ls" using "2.prems"(1) by (auto simp: side_ok_Cons pbetter_def split: side.splits)
    then have "map_of ls p = None" by (simp add: map_of_eq_None_iff)
    with 2 "2.prems" show ?thesis by (simp add: level_qty_of_def)
  next
    case 3
    with "2.hyps" [OF 3] "2.prems" show ?thesis by (simp add: level_qty_of_def side_ok_Cons)
  qed (use "2.prems" in \<open>simp add: level_qty_of_def\<close>)
qed (simp add: level_qty_of_def)

text \<open>An order whose quantity fits on top of what is open at its price leaves levels that fit.\<close>

lemma spec_add_fits:
  assumes inv: "spec_inv B" "book_fits B" and room: "level_qty_of (side_of s B) p + q < 2 ^ 63"
    and run: "spec_add cap i s p q B = (ok, B', fs)"
  shows "book_fits B'"
  using run
proof (cases rule: spec_add_cases)
  case (taken q' ls)
  have ok: "side_ok t (side_of t B)" "side_fits (side_of t B)" for t
    using inv book_fits_sides [of B t] by (simp_all add: spec_inv_def)
  from take_side_fits [OF taken(4) ok] have t: "side_fits ls" "q' \<le> q" by simp_all
  then have "side_fits (enqueue s p (i, q') (side_of s B))" using room by (intro enqueue_fits ok) simp
  with taken(5) t(1) ok(2) show ?thesis by (auto simp: book_fits_sides [of _ s])
qed (use inv in simp)

section \<open>Orders that do not trade\<close>

lemma take_side_beyond:
  "\<forall>x \<in> fst ` set ls. pbetter s l x \<Longrightarrow> take_side s i l q ls = (q, ls, [])"
  by (cases ls) auto

lemma set_side_same: "set_side s (side_of s B) B = B"
  by (cases s) simp_all

lemma spec_add_beyond:
  assumes "i \<notin> set (book_ids B)" "length (book_ids B) < cap" "0 < q"
    "\<forall>x \<in> fst ` set (side_of (opposite s) B). pbetter (opposite s) p x"
  shows "spec_add cap i s p q B = (True, set_side s (enqueue s p (i, q) (side_of s B)) B, [])"
  using assms take_side_beyond [OF assms(4), of i q] set_side_same [of "opposite s" B]
  by (simp add: spec_add_def Let_def)

lemma take_side_nonpositive: "q \<le> 0 \<Longrightarrow> take_side s i l q ls = (q, ls, [])"
  by (cases ls) auto

lemma spec_add_nonpositive:
  "i \<notin> set (book_ids B) \<Longrightarrow> length (book_ids B) < cap \<Longrightarrow> q \<le> 0 \<Longrightarrow> spec_add cap i s p q B = (True, B, [])"
  using set_side_same [of "opposite s" B] by (simp add: spec_add_def Let_def take_side_nonpositive)

lemma drop_id_absent:
  "i \<notin> fst ` set (side_orders ls) \<Longrightarrow> side_ok s ls \<Longrightarrow> drop_id i ls = ls"
proof (induction ls)
  case (Cons l ls)
  obtain p xs where l: "l = (p, xs)" by (cases l)
  have "filter (\<lambda>(j, _). j \<noteq> i) xs = xs" using Cons.prems(1) l by (intro filter_True) force
  moreover have "drop_id i ls = ls" using Cons l by (auto simp: side_ok_Cons)
  ultimately show ?case using Cons.prems(2) l by (simp add: side_ok_Cons queue_ok_def)
qed simp

lemma drop_id_enqueue:
  "i \<notin> fst ` set (side_orders ls) \<Longrightarrow> side_ok s ls \<Longrightarrow> drop_id i (enqueue s p (i, q) ls) = ls"
proof (induction s p "(i, q)" ls rule: enqueue.induct)
  case (2 s p p' xs ls)
  have f: "filter (\<lambda>(j, _). j \<noteq> i) xs = xs" using "2.prems"(1) by (intro filter_True) force
  have rest: "drop_id i ls = ls" using "2.prems" drop_id_absent [of i ls s] by (auto simp: side_ok_Cons)
  have "xs \<noteq> []" using "2.prems"(2) by (simp add: side_ok_Cons queue_ok_def)
  with f rest 2 show ?case by (auto simp: side_ok_Cons)
qed simp

lemma spec_cancel_enqueue:
  assumes inv: "spec_inv B" and new: "i \<notin> set (book_ids B)"
  shows "spec_cancel i (set_side s (enqueue s p (i, q) (side_of s B)) B) = (True, B)"
proof -
  let ?B = "set_side s (enqueue s p (i, q) (side_of s B)) B"
  have ok: "side_ok Buy (s_bids B)" "side_ok Sell (s_asks B)" using inv unfolding spec_inv_def side_all [of _ Buy] by simp_all
  have n: "i \<notin> fst ` set (side_orders (s_bids B))" "i \<notin> fst ` set (side_orders (s_asks B))" using new by (auto simp: book_ids_def)
  have "(i, q) \<in> set (side_orders (enqueue s p (i, q) ls))" for ls
    using enqueue_orders [of s p "(i, q)" ls] by (metis set_mset_mset union_single_eq_member)
  then have "i \<in> set (book_ids ?B)" by (cases s) (force simp: book_ids_def)+
  then show ?thesis using ok n drop_id_absent drop_id_enqueue by (cases s) (simp_all add: spec_cancel_def)
qed

end
