(* ===== verification/Memory_Pool.thy ===== *)
theory Memory_Pool
  imports Order_Types
begin

text \<open>
  \<^verbatim>\<open>include/memory_pool.hpp\<close>: the fixed-capacity slab of orders.  The storage holds the live
  objects; the free list is the vector of the indices of the dead slots, used as a stack.
\<close>

section \<open>State and operations\<close>

record pool =
  p_capacity :: nat
  storage :: heap
  free_list :: "ptr list"

definition new_pool :: "nat \<Rightarrow> pool" where
  "new_pool cap = \<lparr>p_capacity = cap, storage = Map.empty, free_list = [0..<cap]\<rparr>"

text \<open>A null pointer, and an unchanged pool, when the free list is empty.\<close>

definition allocate :: "pool \<Rightarrow> order \<Rightarrow> ptr option \<times> pool" where
  "allocate P x =
     (if free_list P = [] then (None, P)
      else let idx = last (free_list P) in
        (Some idx, P\<lparr>free_list := butlast (free_list P), storage := (storage P)(idx \<mapsto> x)\<rparr>))"

text \<open>Releasing a slot runs the destructor, so it needs a live object there.\<close>

definition release :: "pool \<Rightarrow> ptr \<Rightarrow> pool option" where
  "release P p =
     (case storage P p of
        None \<Rightarrow> None
      | Some _ \<Rightarrow> Some (P\<lparr>storage := (storage P)(p := None), free_list := free_list P @ [p]\<rparr>))"

definition available :: "pool \<Rightarrow> nat" where
  "available P = length (free_list P)"

text \<open>Every slot is either free or holds a live object, never both.\<close>

definition pool_inv :: "pool \<Rightarrow> bool" where
  "pool_inv P \<longleftrightarrow> distinct (free_list P) \<and> set (free_list P) \<inter> dom (storage P) = {} \<and>
     set (free_list P) \<union> dom (storage P) = {..<p_capacity P}"

section \<open>What a slab allocator promises\<close>

locale slab =
  fixes inv :: "'p \<Rightarrow> bool"
    and store :: "'p \<Rightarrow> ptr \<Rightarrow> 'o option"
    and alloc :: "'p \<Rightarrow> 'o \<Rightarrow> ptr option \<times> 'p"
    and rel :: "'p \<Rightarrow> ptr \<Rightarrow> 'p option"
    and avail :: "'p \<Rightarrow> nat"
    and capacity :: "'p \<Rightarrow> nat"
  assumes alloc_full: "inv P \<Longrightarrow> avail P = 0 \<Longrightarrow> alloc P x = (None, P)"
    and alloc_ok: "inv P \<Longrightarrow> 0 < avail P \<Longrightarrow>
      \<exists>p P'. alloc P x = (Some p, P') \<and> inv P' \<and> store P p = None \<and> p < capacity P \<and>
        store P' = (store P)(p \<mapsto> x) \<and> capacity P' = capacity P"
    and rel_ok: "inv P \<Longrightarrow> store P p = Some x \<Longrightarrow>
      \<exists>P'. rel P p = Some P' \<and> inv P' \<and> store P' = (store P)(p := None) \<and> capacity P' = capacity P"
    and accounted: "inv P \<Longrightarrow> finite (dom (store P)) \<and> avail P + card (dom (store P)) = capacity P"
begin

lemma full_iff: "inv P \<Longrightarrow> avail P = 0 \<longleftrightarrow> card (dom (store P)) = capacity P"
  using accounted[of P] by auto

lemma alloc_None_iff: "inv P \<Longrightarrow> fst (alloc P x) = None \<longleftrightarrow> card (dom (store P)) = capacity P"
  using alloc_full[of P x] alloc_ok[of P x] full_iff[of P] by (cases "avail P = 0") auto

lemma alloc_rel:
  assumes "inv P" "alloc P x = (Some p, P')"
  shows "\<exists>P''. rel P' p = Some P'' \<and> inv P'' \<and> store P'' = store P \<and> avail P'' = avail P"
proof -
  from assms have "0 < avail P" using alloc_full[of P x] by (cases "avail P = 0") auto
  with assms alloc_ok[of P x] have a: "inv P'" "store P p = None" "store P' = (store P)(p \<mapsto> x)"
    "capacity P' = capacity P" by auto
  with rel_ok[of P' p x] obtain P'' where r: "rel P' p = Some P''" "inv P''"
    "store P'' = (store P')(p := None)" "capacity P'' = capacity P'" by auto
  have "store P'' = store P" using r a by (auto simp: fun_eq_iff)
  with r a assms accounted[of P] accounted[of P''] show ?thesis by auto
qed

end

section \<open>The pool keeps the promises\<close>

lemma pool_inv_storage_dom: "pool_inv P \<Longrightarrow> dom h = dom (storage P) \<Longrightarrow> pool_inv (P\<lparr>storage := h\<rparr>)"
  by (simp add: pool_inv_def)

lemma pool_inv_new [simp]: "pool_inv (new_pool cap)"
  by (auto simp: pool_inv_def new_pool_def)

lemma pool_accounted:
  assumes "pool_inv P"
  shows "finite (dom (storage P)) \<and> available P + card (dom (storage P)) = p_capacity P"
proof -
  from assms have fin: "finite (dom (storage P))"
    unfolding pool_inv_def by (metis finite_Un finite_lessThan)
  have "card (set (free_list P) \<union> dom (storage P)) = card (set (free_list P)) + card (dom (storage P))"
    using assms fin by (intro card_Un_disjoint) (simp_all add: pool_inv_def)
  with assms fin show ?thesis by (simp add: pool_inv_def available_def distinct_card)
qed

lemma allocate_ok:
  assumes inv: "pool_inv P" and avail: "0 < available P"
  shows "\<exists>p P'. allocate P x = (Some p, P') \<and> pool_inv P' \<and> storage P p = None \<and> p < p_capacity P \<and>
    storage P' = (storage P)(p \<mapsto> x) \<and> p_capacity P' = p_capacity P"
proof -
  from avail obtain ys y where f: "free_list P = ys @ [y]"
    by (cases "free_list P" rule: rev_cases) (auto simp: available_def)
  with inv have "storage P y = None" "y < p_capacity P" by (auto simp: pool_inv_def)
  with inv f show ?thesis by (auto simp: allocate_def pool_inv_def)
qed

lemma release_ok:
  assumes inv: "pool_inv P" and alive: "storage P p = Some x"
  shows "\<exists>P'. release P p = Some P' \<and> pool_inv P' \<and> storage P' = (storage P)(p := None) \<and>
    p_capacity P' = p_capacity P"
proof -
  from inv alive have "p \<notin> set (free_list P)" "p < p_capacity P" by (auto simp: pool_inv_def)
  with inv alive show ?thesis by (auto simp: release_def pool_inv_def)
qed

interpretation order_pool: slab pool_inv storage allocate release available p_capacity
proof unfold_locales
  show "allocate P x = (None, P)" if "pool_inv P" "available P = 0" for P x
    using that by (simp add: allocate_def available_def)
qed (use allocate_ok release_ok pool_accounted in blast)+

end
