(* ===== verification/Order_Id_Map.thy ===== *)
theory Order_Id_Map
  imports Order_Types
begin

text \<open>
  \<^verbatim>\<open>include/order_id_map.hpp\<close>: the fixed-capacity open-addressing table from order ids to
  orders, with linear probing and backward-shift deletion.  The capacity is the length of the
  slot vector.  The table stands for a finite map from ids to pointers.
\<close>

section \<open>State and operations\<close>

record slot =
  s_id :: order_id
  s_ptr :: "ptr option"
  occupied :: bool

record id_map =
  slots :: "slot list"
  m_size :: nat

definition empty_slot :: slot where
  "empty_slot = \<lparr>s_id = 0, s_ptr = None, occupied = False\<rparr>"

definition new_id_map :: "nat \<Rightarrow> id_map" where
  "new_id_map cap = \<lparr>slots = replicate cap empty_slot, m_size = 0\<rparr>"

text \<open>The splitmix64 finalizer, masked to the capacity.\<close>

definition index_of :: "nat \<Rightarrow> order_id \<Rightarrow> nat" where
  "index_of cap i =
     (let x = i;
          x = x XOR drop_bit 30 x; x = x * 0xbf58476d1ce4e5b9;
          x = x XOR drop_bit 27 x; x = x * 0x94d049bb133111eb;
          x = x XOR drop_bit 31 x
      in unat x AND (cap - 1))"

definition next_idx :: "nat \<Rightarrow> nat \<Rightarrow> nat" where
  "next_idx cap i = (i + 1) AND (cap - 1)"

text \<open>The loops count the probes that are left; the insertion runs into its \<^verbatim>\<open>assert\<close> at zero.\<close>

fun insert_loop :: "slot list \<Rightarrow> order_id \<Rightarrow> ptr option \<Rightarrow> nat \<Rightarrow> nat \<Rightarrow> slot list option" where
  "insert_loop ss i p idx 0 = None"
| "insert_loop ss i p idx (Suc n) =
     (if \<not> occupied (ss ! idx) then Some (ss[idx := \<lparr>s_id = i, s_ptr = p, occupied = True\<rparr>])
      else insert_loop ss i p (next_idx (length ss) idx) n)"

definition oid_insert :: "id_map \<Rightarrow> order_id \<Rightarrow> ptr option \<Rightarrow> id_map option" where
  "oid_insert m i p =
     (case insert_loop (slots m) i p (index_of (length (slots m)) i) (length (slots m)) of
        None \<Rightarrow> None
      | Some ss \<Rightarrow> Some (m\<lparr>slots := ss, m_size := m_size m + 1\<rparr>))"

fun find_loop :: "slot list \<Rightarrow> order_id \<Rightarrow> nat \<Rightarrow> nat \<Rightarrow> ptr option" where
  "find_loop ss i idx 0 = None"
| "find_loop ss i idx (Suc n) =
     (if occupied (ss ! idx)
      then if s_id (ss ! idx) = i then s_ptr (ss ! idx)
        else find_loop ss i (next_idx (length ss) idx) n
      else None)"

definition oid_find :: "id_map \<Rightarrow> order_id \<Rightarrow> ptr option" where
  "oid_find m i = find_loop (slots m) i (index_of (length (slots m)) i) (length (slots m))"

text \<open>The first loop of \<^verbatim>\<open>erase\<close> looks for the slot of the id.\<close>

fun locate_loop :: "slot list \<Rightarrow> order_id \<Rightarrow> nat \<Rightarrow> nat \<Rightarrow> nat option" where
  "locate_loop ss i hole 0 = None"
| "locate_loop ss i hole (Suc n) =
     (if \<not> occupied (ss ! hole) then None
      else if s_id (ss ! hole) = i then Some hole
      else locate_loop ss i (next_idx (length ss) hole) n)"

definition stays :: "nat \<Rightarrow> nat \<Rightarrow> nat \<Rightarrow> bool" where
  "stays hole home j = (if hole \<le> j then hole < home \<and> home \<le> j else hole < home \<or> home \<le> j)"

text \<open>The second loop closes the gap; it returns the slots and where the hole ended up.\<close>

fun shift_loop :: "slot list \<Rightarrow> nat \<Rightarrow> nat \<Rightarrow> nat \<Rightarrow> slot list \<times> nat" where
  "shift_loop ss hole j 0 = (ss, hole)"
| "shift_loop ss hole j (Suc n) =
     (let j = next_idx (length ss) j in
      if \<not> occupied (ss ! j) then (ss, hole)
      else if stays hole (index_of (length ss) (s_id (ss ! j))) j then shift_loop ss hole j n
      else shift_loop (ss[hole := ss ! j]) j j n)"

definition oid_erase :: "id_map \<Rightarrow> order_id \<Rightarrow> bool \<times> id_map" where
  "oid_erase m i =
     (case locate_loop (slots m) i (index_of (length (slots m)) i) (length (slots m)) of
        None \<Rightarrow> (False, m)
      | Some hole \<Rightarrow>
          let (ss, hole) = shift_loop (slots m) hole hole (length (slots m) - 1) in
          (True, m\<lparr>slots := ss[hole := empty_slot], m_size := m_size m - 1\<rparr>))"

text \<open>The diagnostic probe count; \<open>n\<close> is the number of further iterations the bound allows.\<close>

fun probe_loop :: "slot list \<Rightarrow> order_id \<Rightarrow> nat \<Rightarrow> nat \<Rightarrow> nat \<Rightarrow> nat" where
  "probe_loop ss i idx probes 0 = probes"
| "probe_loop ss i idx probes (Suc n) =
     (if occupied (ss ! idx) \<and> s_id (ss ! idx) \<noteq> i
      then probe_loop ss i (next_idx (length ss) idx) (probes + 1) n
      else probes)"

definition probe_length :: "id_map \<Rightarrow> order_id \<Rightarrow> nat" where
  "probe_length m i =
     probe_loop (slots m) i (index_of (length (slots m)) i) 1 (length (slots m))"

section \<open>The map a table stands for, and its invariant\<close>

text \<open>How many steps of linear probing lead from \<open>a\<close> to \<open>b\<close> in a table of \<open>n\<close> slots.\<close>

definition cdist :: "nat \<Rightarrow> nat \<Rightarrow> nat \<Rightarrow> nat" where
  "cdist n a b = (if a \<le> b then b - a else b + n - a)"

definition home :: "slot list \<Rightarrow> nat \<Rightarrow> nat" where
  "home ss k = index_of (length ss) (s_id (ss ! k))"

text \<open>No entry is separated from its home slot by an empty slot.\<close>

definition probe_ok :: "slot list \<Rightarrow> bool" where
  "probe_ok ss \<longleftrightarrow> (\<forall>i < length ss. occupied (ss ! i) \<longrightarrow>
     (\<forall>q < length ss. cdist (length ss) (home ss i) q < cdist (length ss) (home ss i) i \<longrightarrow>
        occupied (ss ! q)))"

definition ids_distinct :: "slot list \<Rightarrow> bool" where
  "ids_distinct ss \<longleftrightarrow> (\<forall>i < length ss. \<forall>j < length ss.
     occupied (ss ! i) \<longrightarrow> occupied (ss ! j) \<longrightarrow> s_id (ss ! i) = s_id (ss ! j) \<longrightarrow> i = j)"

definition occ_set :: "slot list \<Rightarrow> nat set" where
  "occ_set ss = {i. i < length ss \<and> occupied (ss ! i)}"

definition oid_inv :: "id_map \<Rightarrow> bool" where
  "oid_inv m \<longleftrightarrow> is_pow2 (length (slots m)) \<and> probe_ok (slots m) \<and> ids_distinct (slots m) \<and>
     (\<forall>s \<in> set (slots m). occupied s \<longrightarrow> s_ptr s \<noteq> None) \<and> m_size m = card (occ_set (slots m))"

definition oid_map :: "id_map \<Rightarrow> order_id \<rightharpoonup> ptr" where
  "oid_map m = map_of (map (\<lambda>s. (s_id s, the (s_ptr s))) (filter occupied (slots m)))"

section \<open>Probing arithmetic\<close>

lemma index_of_less: "is_pow2 n \<Longrightarrow> index_of n i < n"
  by (simp add: index_of_def Let_def and_pred_mod is_pow2_pos)

lemma next_idx_eq: "is_pow2 n \<Longrightarrow> next_idx n i = (i + 1) mod n"
  by (simp add: next_idx_def and_pred_mod)

lemma next_idx_less: "is_pow2 n \<Longrightarrow> next_idx n i < n"
  by (simp add: next_idx_eq is_pow2_pos)

lemma next_idx_cases: "is_pow2 n \<Longrightarrow> i < n \<Longrightarrow> next_idx n i = (if i + 1 = n then 0 else i + 1)"
  by (simp add: next_idx_eq)

lemma cdist_self [simp]: "cdist n a a = 0"
  by (simp add: cdist_def)

lemma cdist_less: "a < n \<Longrightarrow> b < n \<Longrightarrow> cdist n a b < n"
  by (auto simp: cdist_def)

lemma cdist_0_iff: "a < n \<Longrightarrow> b < n \<Longrightarrow> cdist n a b = 0 \<longleftrightarrow> a = b"
  by (auto simp: cdist_def)

lemma cdist_inj: "a < n \<Longrightarrow> b < n \<Longrightarrow> c < n \<Longrightarrow> cdist n a b = cdist n a c \<Longrightarrow> b = c"
  by (auto simp: cdist_def split: if_splits)

lemma cdist_next_right:
  "is_pow2 n \<Longrightarrow> a < n \<Longrightarrow> b < n \<Longrightarrow> cdist n a b + 1 < n \<Longrightarrow> cdist n a (next_idx n b) = cdist n a b + 1"
  by (auto simp: cdist_def next_idx_cases split: if_splits)

lemma cdist_next_left:
  "is_pow2 n \<Longrightarrow> a < n \<Longrightarrow> b < n \<Longrightarrow> a \<noteq> b \<Longrightarrow> cdist n a b = cdist n (next_idx n a) b + 1"
  by (auto simp: cdist_def next_idx_cases split: if_splits)

lemma cdist_split:
  "a < n \<Longrightarrow> b < n \<Longrightarrow> c < n \<Longrightarrow> cdist n a b \<le> cdist n a c \<Longrightarrow> cdist n a c = cdist n a b + cdist n b c"
  by (auto simp: cdist_def split: if_splits)

lemma stays_iff:
  "hole < n \<Longrightarrow> h < n \<Longrightarrow> j < n \<Longrightarrow> hole \<noteq> j \<Longrightarrow>
     stays hole h j \<longleftrightarrow> 0 < cdist n hole h \<and> cdist n hole h \<le> cdist n hole j"
  by (auto simp: cdist_def stays_def)

lemma stays_not_passed:
  "hole < n \<Longrightarrow> h < n \<Longrightarrow> j < n \<Longrightarrow> hole \<noteq> j \<Longrightarrow> stays hole h j \<Longrightarrow> \<not> cdist n h hole < cdist n h j"
  by (auto simp: cdist_def stays_def split: if_splits)

lemma moves_passed:
  "hole < n \<Longrightarrow> h < n \<Longrightarrow> j < n \<Longrightarrow> hole \<noteq> j \<Longrightarrow> \<not> stays hole h j \<Longrightarrow> cdist n h hole < cdist n h j"
  by (auto simp: cdist_def stays_def split: if_splits)

lemma passed_beyond:
  "h < n \<Longrightarrow> hole < n \<Longrightarrow> i < n \<Longrightarrow> j < n \<Longrightarrow> cdist n h hole < cdist n h i \<Longrightarrow>
     cdist n hole j < cdist n hole i \<Longrightarrow> cdist n h j < cdist n h i"
  by (auto simp: cdist_def split: if_splits)

section \<open>The map and the slots\<close>

lemma ids_distinctD:
  "ids_distinct ss \<Longrightarrow> i < length ss \<Longrightarrow> j < length ss \<Longrightarrow> occupied (ss ! i) \<Longrightarrow>
     occupied (ss ! j) \<Longrightarrow> s_id (ss ! i) = s_id (ss ! j) \<Longrightarrow> i = j"
  by (auto simp: ids_distinct_def)

lemma probe_okD:
  "probe_ok ss \<Longrightarrow> i < length ss \<Longrightarrow> occupied (ss ! i) \<Longrightarrow> q < length ss \<Longrightarrow>
     cdist (length ss) (home ss i) q < cdist (length ss) (home ss i) i \<Longrightarrow> occupied (ss ! q)"
  unfolding probe_ok_def by blast

lemma ids_distinct_Cons:
  assumes "ids_distinct (s # ss)"
  shows "ids_distinct ss"
  unfolding ids_distinct_def
proof (intro allI impI)
  fix i j
  assume "i < length ss" "j < length ss" "occupied (ss ! i)" "occupied (ss ! j)"
    "s_id (ss ! i) = s_id (ss ! j)"
  then show "i = j" using ids_distinctD [OF assms, of "Suc i" "Suc j"] by simp
qed

lemma ids_distinct_filter: "ids_distinct ss \<Longrightarrow> distinct (map s_id (filter occupied ss))"
proof (induction ss)
  case Nil
  then show ?case by simp
next
  case (Cons s ss)
  have "s_id s \<notin> s_id ` {x \<in> set ss. occupied x}" if "occupied s"
  proof
    assume "s_id s \<in> s_id ` {x \<in> set ss. occupied x}"
    then obtain k where "k < length ss" "occupied (ss ! k)" "s_id (ss ! k) = s_id s"
      by (auto simp: in_set_conv_nth)
    with that ids_distinctD [OF Cons.prems, of 0 "Suc k"] show False by simp
  qed
  with Cons ids_distinct_Cons show ?case by auto
qed

lemma oid_map_Some_iff:
  assumes "ids_distinct (slots m)"
  shows "oid_map m i = Some p \<longleftrightarrow>
    (\<exists>k < length (slots m). occupied (slots m ! k) \<and> s_id (slots m ! k) = i \<and> the (s_ptr (slots m ! k)) = p)"
proof -
  let ?xs = "map (\<lambda>s. (s_id s, the (s_ptr s))) (filter occupied (slots m))"
  have "distinct (map fst ?xs)"
    using ids_distinct_filter [OF assms] by (simp add: o_def)
  then have "oid_map m i = Some p \<longleftrightarrow> (i, p) \<in> set ?xs"
    unfolding oid_map_def by (rule map_of_eq_Some_iff)
  also have "\<dots> \<longleftrightarrow> (\<exists>s \<in> set (slots m). occupied s \<and> s_id s = i \<and> the (s_ptr s) = p)"
    by auto
  also have "\<dots> \<longleftrightarrow> (\<exists>k < length (slots m). occupied (slots m ! k) \<and> s_id (slots m ! k) = i \<and>
      the (s_ptr (slots m ! k)) = p)"
    by (metis in_set_conv_nth)
  finally show ?thesis .
qed

lemma oid_map_None_iff:
  "oid_map m i = None \<longleftrightarrow> (\<forall>k < length (slots m). occupied (slots m ! k) \<longrightarrow> s_id (slots m ! k) \<noteq> i)"
proof -
  have "oid_map m i = None \<longleftrightarrow> (\<forall>s \<in> set (slots m). occupied s \<longrightarrow> s_id s \<noteq> i)"
    by (auto simp: oid_map_def map_of_eq_None_iff image_iff)
  then show ?thesis by (simp add: all_set_conv_all_nth)
qed

section \<open>Lookup\<close>

lemma find_loop_miss:
  assumes "is_pow2 (length ss)" "\<forall>k < length ss. occupied (ss ! k) \<longrightarrow> s_id (ss ! k) \<noteq> i"
  shows "idx < length ss \<Longrightarrow> find_loop ss i idx n = None \<and> locate_loop ss i idx n = None"
  using assms by (induction n arbitrary: idx) (auto simp: next_idx_less)

lemma find_loop_hit:
  assumes p2: "is_pow2 (length ss)" and t: "t < length ss" "occupied (ss ! t)" "s_id (ss ! t) = i"
  shows "idx < length ss \<Longrightarrow> cdist (length ss) idx t < n \<Longrightarrow>
    (\<And>q. q < length ss \<Longrightarrow> cdist (length ss) idx q < cdist (length ss) idx t \<Longrightarrow>
       occupied (ss ! q) \<and> s_id (ss ! q) \<noteq> i) \<Longrightarrow>
    find_loop ss i idx n = s_ptr (ss ! t) \<and> locate_loop ss i idx n = Some t"
proof (induction n arbitrary: idx)
  case 0
  then show ?case by simp
next
  case (Suc n)
  show ?case
  proof (cases "idx = t")
    case True
    with t show ?thesis by simp
  next
    case False
    let ?nx = "next_idx (length ss) idx"
    have nx: "?nx < length ss" using p2 by (rule next_idx_less)
    have d: "cdist (length ss) idx t = cdist (length ss) ?nx t + 1"
      using p2 Suc.prems(1) t(1) False by (rule cdist_next_left)
    have idx: "occupied (ss ! idx)" "s_id (ss ! idx) \<noteq> i"
      using Suc.prems(3) [of idx] Suc.prems(1) d by auto
    have "occupied (ss ! q) \<and> s_id (ss ! q) \<noteq> i"
      if q: "q < length ss" "cdist (length ss) ?nx q < cdist (length ss) ?nx t" for q
    proof (cases "q = idx")
      case True
      with idx show ?thesis by simp
    next
      case False
      with cdist_next_left [OF p2 Suc.prems(1) q(1)] q d Suc.prems(3) [OF q(1)] show ?thesis by simp
    qed
    with Suc.IH [OF nx] Suc.prems(2) d idx show ?thesis by simp
  qed
qed

lemma find_locate_hit:
  assumes "is_pow2 (length ss)" "probe_ok ss" "ids_distinct ss"
    and t: "t < length ss" "occupied (ss ! t)"
  shows "find_loop ss (s_id (ss ! t)) (home ss t) (length ss) = s_ptr (ss ! t) \<and>
    locate_loop ss (s_id (ss ! t)) (home ss t) (length ss) = Some t"
proof (rule find_loop_hit [OF assms(1) t refl])
  show h: "home ss t < length ss"
    unfolding home_def using assms(1) by (rule index_of_less)
  show "cdist (length ss) (home ss t) t < length ss"
    using h t(1) by (rule cdist_less)
  fix q assume q: "q < length ss" "cdist (length ss) (home ss t) q < cdist (length ss) (home ss t) t"
  with assms(2) t have "occupied (ss ! q)" by (blast intro: probe_okD)
  moreover have "q \<noteq> t" using q by auto
  ultimately show "occupied (ss ! q) \<and> s_id (ss ! q) \<noteq> s_id (ss ! t)"
    using ids_distinctD [OF assms(3) q(1) t(1)] t(2) by blast
qed

lemma oid_find_eq:
  assumes inv: "oid_inv m"
  shows "oid_find m i = oid_map m i"
proof (cases "oid_map m i")
  case None
  have "oid_find m i = None"
    using inv None find_loop_miss [of "slots m" i]
    by (simp add: oid_find_def oid_map_None_iff oid_inv_def index_of_less)
  with None show ?thesis by simp
next
  case (Some p)
  from inv have d: "ids_distinct (slots m)" by (simp add: oid_inv_def)
  from Some obtain t where t: "t < length (slots m)" "occupied (slots m ! t)"
    "s_id (slots m ! t) = i" "the (s_ptr (slots m ! t)) = p"
    unfolding oid_map_Some_iff [OF d] by blast
  with inv have "s_ptr (slots m ! t) = Some p" by (auto simp: oid_inv_def)
  moreover have "oid_find m i = s_ptr (slots m ! t)"
    using find_locate_hit [of "slots m" t] inv t by (simp add: oid_find_def oid_inv_def home_def)
  ultimately show ?thesis using Some by simp
qed

section \<open>The entries of a table\<close>

text \<open>The entries outside one slot: the contents of a table whose slot \<open>t\<close> is a hole.\<close>

definition live_but :: "slot list \<Rightarrow> nat \<Rightarrow> slot set" where
  "live_but ss t = {ss ! k | k. k < length ss \<and> k \<noteq> t \<and> occupied (ss ! k)}"

definition live :: "slot list \<Rightarrow> slot set" where
  "live ss = {ss ! k | k. k < length ss \<and> occupied (ss ! k)}"

lemma live_update:
  "t < length ss \<Longrightarrow> live (ss[t := s]) = (if occupied s then insert s (live_but ss t) else live_but ss t)"
  by (auto simp: live_def live_but_def nth_list_update)

lemma live_eq_but_empty: "\<not> occupied (ss ! t) \<Longrightarrow> live_but ss t = live ss"
  by (auto simp: live_def live_but_def)

lemma live_eq_but: "t < length ss \<Longrightarrow> occupied (ss ! t) \<Longrightarrow> live ss = insert (ss ! t) (live_but ss t)"
  by (auto simp: live_def live_but_def)

lemma oid_map_live:
  assumes "ids_distinct (slots m)"
  shows "oid_map m i = Some p \<longleftrightarrow> (\<exists>s \<in> live (slots m). s_id s = i \<and> the (s_ptr s) = p)"
  unfolding oid_map_Some_iff [OF assms] live_def by blast

lemma finite_occ_set [simp]: "finite (occ_set ss)"
  by (simp add: occ_set_def)

lemma occ_set_update:
  "t < length ss \<Longrightarrow> occ_set (ss[t := s]) = (if occupied s then insert t (occ_set ss) else occ_set ss - {t})"
  by (auto simp: occ_set_def nth_list_update)

lemma free_slot_exists:
  assumes "card (occ_set ss) < length ss"
  shows "\<exists>e < length ss. \<not> occupied (ss ! e)"
proof (rule ccontr)
  assume "\<not> ?thesis"
  then have "occ_set ss = {..<length ss}" by (auto simp: occ_set_def)
  with assms show False by simp
qed

section \<open>Insertion\<close>

lemma insert_loop_ok:
  assumes p2: "is_pow2 (length ss)" and e: "e < length ss" "\<not> occupied (ss ! e)"
  shows "idx < length ss \<Longrightarrow> cdist (length ss) idx e < n \<Longrightarrow>
    \<exists>t < length ss. \<not> occupied (ss ! t) \<and>
      insert_loop ss i p idx n = Some (ss[t := \<lparr>s_id = i, s_ptr = p, occupied = True\<rparr>]) \<and>
      (\<forall>q < length ss. cdist (length ss) idx q < cdist (length ss) idx t \<longrightarrow> occupied (ss ! q))"
proof (induction n arbitrary: idx)
  case 0
  then show ?case by simp
next
  case (Suc n)
  show ?case
  proof (cases "occupied (ss ! idx)")
    case False
    with Suc.prems show ?thesis by (intro exI [of _ idx]) simp
  next
    case True
    let ?nx = "next_idx (length ss) idx"
    have nx: "?nx < length ss" using p2 by (rule next_idx_less)
    from True e have "idx \<noteq> e" by auto
    with cdist_next_left [OF p2 Suc.prems(1) e(1)] Suc.prems(2)
    have "cdist (length ss) ?nx e < n" by simp
    from Suc.IH [OF nx this] obtain t where t: "t < length ss" "\<not> occupied (ss ! t)"
      "insert_loop ss i p ?nx n = Some (ss[t := \<lparr>s_id = i, s_ptr = p, occupied = True\<rparr>])"
      "\<And>q. q < length ss \<Longrightarrow> cdist (length ss) ?nx q < cdist (length ss) ?nx t \<Longrightarrow> occupied (ss ! q)"
      by blast
    from True t have "idx \<noteq> t" by auto
    then have dt: "cdist (length ss) idx t = cdist (length ss) ?nx t + 1"
      using cdist_next_left [OF p2 Suc.prems(1) t(1)] by simp
    have "occupied (ss ! q)" if "q < length ss" "cdist (length ss) idx q < cdist (length ss) idx t" for q
    proof (cases "q = idx")
      case False
      with cdist_next_left [OF p2 Suc.prems(1) that(1)] that(2) dt t(4) [OF that(1)]
      show ?thesis by simp
    qed (use True in simp)
    with t True show ?thesis by auto
  qed
qed

lemma probe_ok_insert:
  assumes "probe_ok ss" and t: "t < length ss" and s: "occupied s"
    and path: "\<And>q. q < length ss \<Longrightarrow> cdist (length ss) (index_of (length ss) (s_id s)) q
      < cdist (length ss) (index_of (length ss) (s_id s)) t \<Longrightarrow> occupied (ss ! q)"
  shows "probe_ok (ss[t := s])"
  unfolding probe_ok_def length_list_update
proof (intro allI impI)
  fix i q
  assume i: "i < length ss" "occupied (ss[t := s] ! i)" and q: "q < length ss"
    and lt: "cdist (length ss) (home (ss[t := s]) i) q < cdist (length ss) (home (ss[t := s]) i) i"
  have "occupied (ss ! q)"
  proof (cases "i = t")
    case True
    with t path [OF q] lt show ?thesis by (simp add: home_def)
  next
    case False
    with i lt have "occupied (ss ! i)" "cdist (length ss) (home ss i) q < cdist (length ss) (home ss i) i"
      by (simp_all add: home_def)
    with assms(1) i(1) q show ?thesis by (blast intro: probe_okD)
  qed
  with q s t show "occupied (ss[t := s] ! q)" by (cases "q = t") auto
qed

lemma ids_distinct_update:
  assumes "ids_distinct ss" "\<forall>k < length ss. occupied (ss ! k) \<longrightarrow> s_id (ss ! k) \<noteq> s_id s"
  shows "ids_distinct (ss[t := s])"
  unfolding ids_distinct_def length_list_update
proof (intro allI impI)
  fix i j
  assume ij: "i < length ss" "j < length ss" "occupied (ss[t := s] ! i)" "occupied (ss[t := s] ! j)"
    "s_id (ss[t := s] ! i) = s_id (ss[t := s] ! j)"
  show "i = j"
  proof (cases "i = t"; cases "j = t")
    assume "i \<noteq> t" "j \<noteq> t"
    with ij show ?thesis using ids_distinctD [OF assms(1)] by simp
  qed (use ij assms(2) in auto)
qed

lemma oid_insert_ok:
  assumes inv: "oid_inv m" and room: "m_size m < length (slots m)" and new: "oid_map m i = None"
  shows "\<exists>m'. oid_insert m i (Some p) = Some m' \<and> oid_inv m' \<and> oid_map m' = (oid_map m)(i \<mapsto> p) \<and>
    m_size m' = m_size m + 1 \<and> length (slots m') = length (slots m)"
proof -
  let ?ss = "slots m"
  let ?s = "\<lparr>s_id = i, s_ptr = Some p, occupied = True\<rparr>"
  from inv have I: "is_pow2 (length ?ss)" "probe_ok ?ss" "ids_distinct ?ss"
    "\<forall>s \<in> set ?ss. occupied s \<longrightarrow> s_ptr s \<noteq> None" "m_size m = card (occ_set ?ss)"
    by (simp_all add: oid_inv_def)
  have h: "index_of (length ?ss) i < length ?ss" using I(1) by (rule index_of_less)
  from room I(5) obtain e where e: "e < length ?ss" "\<not> occupied (?ss ! e)"
    using free_slot_exists by auto
  from insert_loop_ok [OF I(1) e h cdist_less [OF h e(1)], of i "Some p"]
  obtain t where t: "t < length ?ss" "\<not> occupied (?ss ! t)"
    "insert_loop ?ss i (Some p) (index_of (length ?ss) i) (length ?ss) = Some (?ss[t := ?s])"
    and path: "\<And>q. q < length ?ss \<Longrightarrow> cdist (length ?ss) (index_of (length ?ss) i) q
      < cdist (length ?ss) (index_of (length ?ss) i) t \<Longrightarrow> occupied (?ss ! q)"
    by blast
  let ?m = "m\<lparr>slots := ?ss[t := ?s], m_size := m_size m + 1\<rparr>"
  have run: "oid_insert m i (Some p) = Some ?m" using t(3) by (simp add: oid_insert_def)
  have dist: "ids_distinct (?ss[t := ?s])"
    using I(3) new by (intro ids_distinct_update) (auto simp: oid_map_None_iff)
  have "probe_ok (?ss[t := ?s])"
    using I(2) t(1) path by (intro probe_ok_insert) simp_all
  moreover have "card (occ_set (?ss[t := ?s])) = card (occ_set ?ss) + 1"
    using t(1,2) by (simp add: occ_set_update) (simp add: occ_set_def)
  moreover have "\<forall>s \<in> set (?ss[t := ?s]). occupied s \<longrightarrow> s_ptr s \<noteq> None"
    using I(4) by (auto dest!: set_update_subset_insert [THEN subsetD])
  ultimately have inv': "oid_inv ?m" using I(1,5) dist by (simp add: oid_inv_def)
  have "oid_map ?m = (oid_map m)(i \<mapsto> p)"
  proof (rule map_eqI)
    fix j q
    have "oid_map ?m j = Some q \<longleftrightarrow> (\<exists>s \<in> insert ?s (live ?ss). s_id s = j \<and> the (s_ptr s) = q)"
      using oid_map_live [of ?m] dist t live_eq_but_empty [OF t(2)] by (simp add: live_update)
    moreover have "\<forall>s \<in> live ?ss. s_id s \<noteq> i"
      using new by (auto simp: live_def oid_map_None_iff)
    ultimately show "oid_map ?m j = Some q \<longleftrightarrow> ((oid_map m)(i \<mapsto> p)) j = Some q"
      using oid_map_live [OF I(3)] by auto
  qed
  with run inv' show ?thesis by auto
qed

section \<open>Deletion\<close>

text \<open>
  The loop invariant of the backward shift.  Slot \<open>hole\<close> is the gap (its contents are stale).
  Entries keep their way from home occupied, and an entry whose way leads over the gap lies
  beyond the scan position \<open>j\<close>; an empty slot \<open>e\<close> lies ahead within reach of the remaining
  probes \<open>n\<close>.
\<close>

definition shift_inv :: "slot list \<Rightarrow> nat \<Rightarrow> nat \<Rightarrow> nat \<Rightarrow> nat \<Rightarrow> bool" where
  "shift_inv ss hole j e n \<longleftrightarrow> (let N = length ss in
     hole < N \<and> j < N \<and> e < N \<and> occupied (ss ! hole) \<and> \<not> occupied (ss ! e) \<and>
     cdist N hole j < cdist N hole e \<and> cdist N hole e \<le> cdist N hole j + n \<and>
     (\<forall>i < N. i \<noteq> hole \<longrightarrow> occupied (ss ! i) \<longrightarrow>
        (\<forall>q < N. cdist N (home ss i) q < cdist N (home ss i) i \<longrightarrow> occupied (ss ! q)) \<and>
        (cdist N (home ss i) hole < cdist N (home ss i) i \<longrightarrow> cdist N hole j < cdist N hole i)))"

definition ids_distinct_but :: "slot list \<Rightarrow> nat \<Rightarrow> bool" where
  "ids_distinct_but ss hole \<longleftrightarrow> (\<forall>i < length ss. \<forall>j < length ss. i \<noteq> hole \<longrightarrow> j \<noteq> hole \<longrightarrow>
     occupied (ss ! i) \<longrightarrow> occupied (ss ! j) \<longrightarrow> s_id (ss ! i) = s_id (ss ! j) \<longrightarrow> i = j)"

lemma shift_invD:
  assumes "shift_inv ss hole j e n"
  shows "hole < length ss" "j < length ss" "e < length ss" "occupied (ss ! hole)" "\<not> occupied (ss ! e)"
    "cdist (length ss) hole j < cdist (length ss) hole e"
    "cdist (length ss) hole e \<le> cdist (length ss) hole j + n"
    "\<And>i q. i < length ss \<Longrightarrow> i \<noteq> hole \<Longrightarrow> occupied (ss ! i) \<Longrightarrow> q < length ss \<Longrightarrow>
       cdist (length ss) (home ss i) q < cdist (length ss) (home ss i) i \<Longrightarrow> occupied (ss ! q)"
    "\<And>i. i < length ss \<Longrightarrow> i \<noteq> hole \<Longrightarrow> occupied (ss ! i) \<Longrightarrow>
       cdist (length ss) (home ss i) hole < cdist (length ss) (home ss i) i \<Longrightarrow>
       cdist (length ss) hole j < cdist (length ss) hole i"
  using assms unfolding shift_inv_def Let_def by blast+

lemma home_less: "is_pow2 (length ss) \<Longrightarrow> home ss i < length ss"
  unfolding home_def by (rule index_of_less)

lemma home_update [simp]: "length ss = n \<Longrightarrow> t < n \<Longrightarrow>
    home (ss[t := s]) i = (if i = t then index_of n (s_id s) else home ss i)"
  by (simp add: home_def)

text \<open>When the scan meets an empty slot, nothing leads over the gap any more.\<close>

lemma shift_done:
  assumes p2: "is_pow2 (length ss)" and I: "shift_inv ss hole j e n"
    and stop: "\<not> occupied (ss ! next_idx (length ss) j)"
  shows "probe_ok (ss[hole := empty_slot])"
  unfolding probe_ok_def length_list_update
proof (intro allI impI)
  let ?N = "length ss" and ?j = "next_idx (length ss) j"
  note D = shift_invD [OF I]
  have j: "?j < ?N" using p2 by (rule next_idx_less)
  have dj: "cdist ?N hole ?j = cdist ?N hole j + 1"
    using D(6) cdist_less [OF D(1,3)] by (intro cdist_next_right [OF p2 D(1,2)]) simp
  fix i q
  assume i: "i < ?N" "occupied (ss[hole := empty_slot] ! i)" and q: "q < ?N"
    and lt: "cdist ?N (home (ss[hole := empty_slot]) i) q < cdist ?N (home (ss[hole := empty_slot]) i) i"
  from i D(1) have ih: "i \<noteq> hole" by (auto simp: empty_slot_def)
  with i lt D(1) have oi: "occupied (ss ! i)" and lt': "cdist ?N (home ss i) q < cdist ?N (home ss i) i"
    by simp_all
  have h: "home ss i < ?N" using p2 by (rule home_less)
  have "\<not> cdist ?N (home ss i) hole < cdist ?N (home ss i) i"
  proof
    assume over: "cdist ?N (home ss i) hole < cdist ?N (home ss i) i"
    from D(9) [OF i(1) ih oi over] have "cdist ?N hole j < cdist ?N hole i" .
    moreover have "i \<noteq> ?j" using oi stop by auto
    then have "cdist ?N hole i \<noteq> cdist ?N hole ?j" using cdist_inj [OF D(1) i(1) j] by blast
    ultimately have "cdist ?N hole ?j < cdist ?N hole i" using dj by simp
    from passed_beyond [OF h D(1) i(1) j over this] D(8) [OF i(1) ih oi j] stop show False by blast
  qed
  with lt' have "q \<noteq> hole" by auto
  with D(8) [OF i(1) ih oi q lt'] show "occupied (ss[hole := empty_slot] ! q)" by simp
qed

lemma shift_stays:
  assumes p2: "is_pow2 (length ss)" and I: "shift_inv ss hole j e (Suc n)"
    and occ: "occupied (ss ! next_idx (length ss) j)"
    and st: "stays hole (home ss (next_idx (length ss) j)) (next_idx (length ss) j)"
  shows "shift_inv ss hole (next_idx (length ss) j) e n"
proof -
  let ?N = "length ss" and ?j = "next_idx (length ss) j"
  note D = shift_invD [OF I]
  have j: "?j < ?N" using p2 by (rule next_idx_less)
  have dj: "cdist ?N hole ?j = cdist ?N hole j + 1"
    using D(6) cdist_less [OF D(1,3)] by (intro cdist_next_right [OF p2 D(1,2)]) simp
  then have hj: "hole \<noteq> ?j" by auto
  have "?j \<noteq> e" using occ D(5) by auto
  then have "cdist ?N hole ?j \<noteq> cdist ?N hole e" using cdist_inj [OF D(1) j D(3)] by blast
  moreover have "cdist ?N hole ?j < cdist ?N hole i"
    if i: "i < ?N" "i \<noteq> hole" "occupied (ss ! i)" "cdist ?N (home ss i) hole < cdist ?N (home ss i) i" for i
  proof -
    have "i \<noteq> ?j" using i(4) stays_not_passed [OF D(1) home_less [OF p2] j hj st] by auto
    then have "cdist ?N hole i \<noteq> cdist ?N hole ?j" using cdist_inj [OF D(1) i(1) j] by blast
    with D(9) [OF i] dj show ?thesis by simp
  qed
  ultimately show ?thesis
    using D dj j unfolding shift_inv_def Let_def by auto
qed

lemma shift_moves:
  assumes p2: "is_pow2 (length ss)" and I: "shift_inv ss hole j e (Suc n)"
    and occ: "occupied (ss ! next_idx (length ss) j)"
    and mv: "\<not> stays hole (home ss (next_idx (length ss) j)) (next_idx (length ss) j)"
  shows "shift_inv (ss[hole := ss ! next_idx (length ss) j]) (next_idx (length ss) j) (next_idx (length ss) j) e n"
proof -
  let ?N = "length ss" and ?j = "next_idx (length ss) j"
  let ?ss = "ss[hole := ss ! ?j]"
  note D = shift_invD [OF I]
  have j: "?j < ?N" using p2 by (rule next_idx_less)
  have dj: "cdist ?N hole ?j = cdist ?N hole j + 1"
    using D(6) cdist_less [OF D(1,3)] by (intro cdist_next_right [OF p2 D(1,2)]) simp
  then have hj: "hole \<noteq> ?j" by auto
  have occ': "occupied (?ss ! q) = occupied (ss ! q)" if "q < ?N" for q
    using that occ D(1,4) by (cases "q = hole") auto
  have "?j \<noteq> e" using occ D(5) by auto
  then have "cdist ?N hole ?j \<noteq> cdist ?N hole e" using cdist_inj [OF D(1) j D(3)] by blast
  with D(6,7) dj have le: "cdist ?N hole ?j < cdist ?N hole e" by simp
  then have de: "cdist ?N hole e = cdist ?N hole ?j + cdist ?N ?j e"
    using cdist_split [OF D(1) j D(3)] by simp
  have way: "occupied (ss ! q)"
    if i: "i < ?N" "i \<noteq> ?j" "occupied (?ss ! i)" and q: "q < ?N"
      "cdist ?N (home ?ss i) q < cdist ?N (home ?ss i) i" for i q
  proof (cases "i = hole")
    case True
    with q(2) D(1) have "cdist ?N (home ss ?j) q < cdist ?N (home ss ?j) hole"
      by (simp add: home_def)
    with moves_passed [OF D(1) home_less [OF p2] j hj mv]
    have "cdist ?N (home ss ?j) q < cdist ?N (home ss ?j) ?j" by simp
    with D(8) [OF j _ occ q(1)] hj show ?thesis by auto
  next
    case False
    with i q D(1) have "occupied (ss ! i)" "cdist ?N (home ss i) q < cdist ?N (home ss i) i"
      by simp_all
    with D(8) [OF i(1) False _ q(1)] show ?thesis by blast
  qed
  have "0 < cdist ?N ?j i" if "i < ?N" "i \<noteq> ?j" for i
    using that cdist_0_iff [OF j that(1)] by auto
  then show ?thesis
    using D(1,3,5,7) j dj de le occ occ' way unfolding shift_inv_def Let_def by auto
qed

lemma live_but_move:
  assumes "hole < length ss" "j < length ss" "occupied (ss ! hole)" "occupied (ss ! j)" "hole \<noteq> j"
  shows "live_but (ss[hole := ss ! j]) j = live_but ss hole"
  using assms unfolding live_but_def by (auto simp: nth_list_update) metis+

lemma ids_distinct_but_move:
  assumes "hole < length ss" "j < length ss" "occupied (ss ! j)" "hole \<noteq> j" "ids_distinct_but ss hole"
  shows "ids_distinct_but (ss[hole := ss ! j]) j"
  unfolding ids_distinct_but_def length_list_update
proof (intro allI impI)
  fix a b
  assume ab: "a < length ss" "b < length ss" "a \<noteq> j" "b \<noteq> j" "occupied (ss[hole := ss ! j] ! a)"
    "occupied (ss[hole := ss ! j] ! b)" "s_id (ss[hole := ss ! j] ! a) = s_id (ss[hole := ss ! j] ! b)"
  have D: "x = y" if "x < length ss" "y < length ss" "x \<noteq> hole" "y \<noteq> hole" "occupied (ss ! x)"
    "occupied (ss ! y)" "s_id (ss ! x) = s_id (ss ! y)" for x y
    using assms(5) that unfolding ids_distinct_but_def by blast
  show "a = b"
  proof (cases "a = hole"; cases "b = hole")
    assume "a = hole" "b \<noteq> hole"
    with ab D [of j b] assms show ?thesis by simp
  next
    assume "a \<noteq> hole" "b = hole"
    with ab D [of a j] assms show ?thesis by simp
  next
    assume "a \<noteq> hole" "b \<noteq> hole"
    with ab D [of a b] show ?thesis by simp
  qed simp
qed

lemma shift_loop_ok:
  assumes "shift_loop ss hole j n = (ss', hole')" "is_pow2 (length ss)"
    "shift_inv ss hole j e n" "ids_distinct_but ss hole"
  shows "length ss' = length ss \<and> hole' < length ss \<and> probe_ok (ss'[hole' := empty_slot]) \<and>
    live_but ss' hole' = live_but ss hole \<and> ids_distinct_but ss' hole' \<and>
    occ_set ss' = occ_set ss \<and> hole' \<in> occ_set ss"
  using assms
proof (induction n arbitrary: ss hole j)
  case 0
  from shift_invD(6,7) [OF 0(3)] show ?case by simp
next
  case (Suc n)
  let ?j = "next_idx (length ss) j"
  note D = shift_invD [OF Suc.prems(3)]
  have j: "?j < length ss" using Suc.prems(2) by (rule next_idx_less)
  have "cdist (length ss) hole ?j = cdist (length ss) hole j + 1"
    using D(6) cdist_less [OF D(1,3)] by (intro cdist_next_right [OF Suc.prems(2) D(1,2)]) simp
  then have hj: "hole \<noteq> ?j" by auto
  consider (stop) "\<not> occupied (ss ! ?j)" | (stays) "occupied (ss ! ?j)" "stays hole (home ss ?j) ?j"
    | (moves) "occupied (ss ! ?j)" "\<not> stays hole (home ss ?j) ?j" by blast
  then show ?case
  proof cases
    case stop
    with Suc.prems D(1,4) shift_done [OF Suc.prems(2,3)] show ?thesis
      by (auto simp: occ_set_def)
  next
    case stays
    with Suc.prems(1) have "shift_loop ss hole ?j n = (ss', hole')" by (simp add: home_def)
    from Suc.IH [OF this Suc.prems(2) shift_stays [OF Suc.prems(2,3) stays] Suc.prems(4)]
    show ?thesis .
  next
    case moves
    let ?ss = "ss[hole := ss ! ?j]"
    from moves Suc.prems(1) have "shift_loop ?ss ?j ?j n = (ss', hole')"
      by (simp add: home_def Let_def)
    moreover have "occ_set ?ss = occ_set ss"
      using moves(1) D(1,4) by (auto simp: occ_set_def nth_list_update)
    ultimately show ?thesis
      using Suc.IH [of ?ss ?j ?j] Suc.prems(2) shift_moves [OF Suc.prems(2,3) moves]
        ids_distinct_but_move [OF D(1) j moves(1) hj Suc.prems(4)]
        live_but_move [OF D(1) j D(4) moves(1) hj] by simp
  qed
qed

lemma shift_inv_start:
  assumes "probe_ok ss" "hole < length ss" "occupied (ss ! hole)" "e < length ss" "\<not> occupied (ss ! e)"
  shows "shift_inv ss hole hole e (length ss - 1)"
proof -
  have "hole \<noteq> e" using assms by auto
  have pos: "0 < cdist (length ss) hole i" if "i < length ss" "i \<noteq> hole" for i
    using that cdist_0_iff [OF assms(2) that(1)] by auto
  moreover have "cdist (length ss) hole e \<le> length ss - 1"
    using cdist_less [OF assms(2,4)] by simp
  ultimately show ?thesis
    using assms(2-5) \<open>hole \<noteq> e\<close> unfolding shift_inv_def Let_def
    by (auto dest: probe_okD [OF assms(1)])
qed

lemma ids_distinct_fill:
  "ids_distinct_but ss hole \<Longrightarrow> ids_distinct (ss[hole := empty_slot])"
  unfolding ids_distinct_def ids_distinct_but_def length_list_update
proof (intro allI impI)
  fix i j
  assume but: "\<forall>i<length ss. \<forall>j<length ss. i \<noteq> hole \<longrightarrow> j \<noteq> hole \<longrightarrow> occupied (ss ! i) \<longrightarrow>
      occupied (ss ! j) \<longrightarrow> s_id (ss ! i) = s_id (ss ! j) \<longrightarrow> i = j"
    and ij: "i < length ss" "j < length ss" "occupied (ss[hole := empty_slot] ! i)"
      "occupied (ss[hole := empty_slot] ! j)"
      "s_id (ss[hole := empty_slot] ! i) = s_id (ss[hole := empty_slot] ! j)"
  then have "i \<noteq> hole" "j \<noteq> hole" by (auto simp: empty_slot_def)
  with but ij show "i = j" by simp
qed

lemma oid_erase_miss: "oid_inv m \<Longrightarrow> oid_map m i = None \<Longrightarrow> oid_erase m i = (False, m)"
  using find_loop_miss [of "slots m" i]
  by (simp add: oid_erase_def oid_map_None_iff oid_inv_def index_of_less)

lemma oid_erase_hit:
  assumes inv: "oid_inv m" and room: "m_size m < length (slots m)" and mem: "oid_map m i = Some p"
  shows "\<exists>m'. oid_erase m i = (True, m') \<and> oid_inv m' \<and> oid_map m' = (oid_map m)(i := None) \<and>
    m_size m = m_size m' + 1 \<and> length (slots m') = length (slots m)"
proof -
  let ?ss = "slots m"
  from inv have I: "is_pow2 (length ?ss)" "probe_ok ?ss" "ids_distinct ?ss"
    "\<forall>s \<in> set ?ss. occupied s \<longrightarrow> s_ptr s \<noteq> None" "m_size m = card (occ_set ?ss)"
    by (simp_all add: oid_inv_def)
  from mem obtain t where t: "t < length ?ss" "occupied (?ss ! t)" "s_id (?ss ! t) = i"
    unfolding oid_map_Some_iff [OF I(3)] by blast
  from room I(5) obtain e where e: "e < length ?ss" "\<not> occupied (?ss ! e)"
    using free_slot_exists by auto
  obtain ss' hole' where sl: "shift_loop ?ss t t (length ?ss - 1) = (ss', hole')" by fastforce
  have "ids_distinct_but ?ss t"
    using I(3) unfolding ids_distinct_def ids_distinct_but_def by blast
  from shift_loop_ok [OF sl I(1) shift_inv_start [OF I(2) t(1,2) e] this]
  have S: "length ss' = length ?ss" "hole' < length ?ss" "probe_ok (ss'[hole' := empty_slot])"
    "live_but ss' hole' = live_but ?ss t" "ids_distinct_but ss' hole'" "occ_set ss' = occ_set ?ss"
    "hole' \<in> occ_set ?ss" by blast+
  let ?m = "m\<lparr>slots := ss'[hole' := empty_slot], m_size := m_size m - 1\<rparr>"
  have run: "oid_erase m i = (True, ?m)"
    using find_locate_hit [OF I(1,2,3) t(1,2)] sl t(3) by (simp add: oid_erase_def home_def)
  have live': "live (ss'[hole' := empty_slot]) = live_but ?ss t"
    using S(1,2,4) by (simp add: live_update empty_slot_def)
  have "s_ptr s \<noteq> None" if "s \<in> live (ss'[hole' := empty_slot])" for s
    using that I(4) unfolding live' live_but_def by auto
  then have ptrs: "\<forall>s \<in> set (ss'[hole' := empty_slot]). occupied s \<longrightarrow> s_ptr s \<noteq> None"
    unfolding live_def by (fastforce simp: in_set_conv_nth)
  have "card (occ_set (ss'[hole' := empty_slot])) = card (occ_set ?ss) - 1"
    using S(1,2,6,7) by (simp add: occ_set_update empty_slot_def)
  with I(1,5) S(1,3) ids_distinct_fill [OF S(5)] ptrs have inv': "oid_inv ?m"
    by (simp add: oid_inv_def)
  have "0 < m_size m" using I(5) S(7) by (metis card_gt_0_iff empty_iff finite_occ_set)
  have "oid_map ?m = (oid_map m)(i := None)"
  proof (rule map_eqI)
    fix j q
    have "oid_map ?m j = Some q \<longleftrightarrow> (\<exists>s \<in> live_but ?ss t. s_id s = j \<and> the (s_ptr s) = q)"
      using oid_map_live [of ?m] ids_distinct_fill [OF S(5)] live' by simp
    moreover have "\<forall>s \<in> live_but ?ss t. s_id s \<noteq> i"
      using ids_distinctD [OF I(3) _ t(1) _ t(2)] t(3) by (auto simp: live_but_def)
    ultimately show "oid_map ?m j = Some q \<longleftrightarrow> ((oid_map m)(i := None)) j = Some q"
      using oid_map_live [OF I(3)] live_eq_but [OF t(1,2)] t(3) by auto
  qed
  with run inv' \<open>0 < m_size m\<close> S(1) show ?thesis by auto
qed

section \<open>Probe counts\<close>

lemma cdist_surj: "a < n \<Longrightarrow> k < n \<Longrightarrow> \<exists>q < n. cdist n a q = k"
  by (rule exI [of _ "if a + k < n then a + k else a + k - n"]) (auto simp: cdist_def)

lemma probe_loop_le:
  assumes p2: "is_pow2 (length ss)"
  shows "idx < length ss \<Longrightarrow> n \<le> length ss \<Longrightarrow> \<exists>d \<le> n. probe_loop ss i idx c n = c + d \<and>
    (\<forall>q < length ss. cdist (length ss) idx q < d \<longrightarrow> occupied (ss ! q))"
proof (induction n arbitrary: idx c)
  case 0
  then show ?case by simp
next
  case (Suc n)
  let ?nx = "next_idx (length ss) idx"
  show ?case
  proof (cases "occupied (ss ! idx) \<and> s_id (ss ! idx) \<noteq> i")
    case False
    then show ?thesis by (intro exI [of _ 0]) auto
  next
    case True
    from Suc.IH [OF next_idx_less [OF p2], of idx "c + 1"] Suc.prems(2)
    obtain d where d: "d \<le> n" "probe_loop ss i ?nx (c + 1) n = c + 1 + d"
      "\<And>q. q < length ss \<Longrightarrow> cdist (length ss) ?nx q < d \<Longrightarrow> occupied (ss ! q)" by auto
    have "occupied (ss ! q)" if "q < length ss" "cdist (length ss) idx q < Suc d" for q
    proof (cases "q = idx")
      case False
      with cdist_next_left [OF p2 Suc.prems(1) that(1)] that(2) d(3) [OF that(1)] show ?thesis by simp
    qed (use True in simp)
    with True d show ?thesis by (intro exI [of _ "Suc d"]) simp
  qed
qed

lemma probe_length_bound:
  assumes "oid_inv m"
  shows "probe_length m i \<le> m_size m + 1"
proof -
  let ?ss = "slots m" and ?h = "index_of (length (slots m)) i"
  from assms have p2: "is_pow2 (length ?ss)" and sz: "m_size m = card (occ_set ?ss)"
    by (simp_all add: oid_inv_def)
  have h: "?h < length ?ss" using p2 by (rule index_of_less)
  obtain d where d: "d \<le> length ?ss" "probe_length m i = 1 + d"
    "\<And>q. q < length ?ss \<Longrightarrow> cdist (length ?ss) ?h q < d \<Longrightarrow> occupied (?ss ! q)"
    using probe_loop_le [OF p2 h order_refl, of i 1] by (auto simp: probe_length_def)
  have "{..<d} \<subseteq> cdist (length ?ss) ?h ` occ_set ?ss"
  proof
    fix k assume "k \<in> {..<d}"
    moreover from this d(1) h obtain q where "q < length ?ss" "cdist (length ?ss) ?h q = k"
      using cdist_surj [of ?h "length ?ss" k] by auto
    ultimately show "k \<in> cdist (length ?ss) ?h ` occ_set ?ss" using d(3) by (auto simp: occ_set_def)
  qed
  then have "d \<le> card (occ_set ?ss)" by (metis card_lessThan finite_occ_set surj_card_le)
  with d(2) sz show ?thesis by simp
qed

section \<open>What an id index promises\<close>

locale id_index =
  fixes inv :: "'m \<Rightarrow> bool"
    and entries :: "'m \<Rightarrow> order_id \<Rightarrow> ptr option"
    and find :: "'m \<Rightarrow> order_id \<Rightarrow> ptr option"
    and ins :: "'m \<Rightarrow> order_id \<Rightarrow> ptr option \<Rightarrow> 'm option"
    and del :: "'m \<Rightarrow> order_id \<Rightarrow> bool \<times> 'm"
    and count :: "'m \<Rightarrow> nat"
    and room :: "'m \<Rightarrow> nat"
  assumes find_entries: "inv m \<Longrightarrow> find m i = entries m i"
    and ins_ok: "inv m \<Longrightarrow> count m < room m \<Longrightarrow> entries m i = None \<Longrightarrow>
      \<exists>m'. ins m i (Some p) = Some m' \<and> inv m' \<and> entries m' = (entries m)(i \<mapsto> p) \<and> room m' = room m"
    and del_miss: "inv m \<Longrightarrow> entries m i = None \<Longrightarrow> del m i = (False, m)"
    and del_hit: "inv m \<Longrightarrow> count m < room m \<Longrightarrow> entries m i = Some p \<Longrightarrow>
      \<exists>m'. del m i = (True, m') \<and> inv m' \<and> entries m' = (entries m)(i := None) \<and> room m' = room m"
    and count_entries: "inv m \<Longrightarrow> finite (dom (entries m)) \<and> count m = card (dom (entries m))"
begin

lemma find_after_ins:
  assumes "inv m" "count m < room m" "find m i = None" "ins m i (Some p) = Some m'"
  shows "find m' j = (if j = i then Some p else find m j)"
  using assms ins_ok [of m i p] find_entries by auto

lemma find_after_del:
  assumes "inv m" "count m < room m" "del m i = (b, m')"
  shows "find m' j = (if j = i then None else find m j) \<and> b = (find m i \<noteq> None)"
proof (cases "entries m i")
  case None
  with assms del_miss [of m i] find_entries [of m] show ?thesis by auto
next
  case (Some p)
  with assms del_hit [of m i p] find_entries show ?thesis by auto
qed

lemma ins_del:
  assumes "inv m" "count m + 1 < room m" "find m i = None"
  shows "\<exists>m' m''. ins m i (Some p) = Some m' \<and> del m' i = (True, m'') \<and> entries m'' = entries m"
proof -
  from assms obtain m' where m': "ins m i (Some p) = Some m'" "inv m'"
    "entries m' = (entries m)(i \<mapsto> p)" "room m' = room m"
    using ins_ok [of m i p] find_entries [of m i] by auto
  have "count m' \<le> count m + 1"
    using count_entries [OF assms(1)] count_entries [OF m'(2)] m'(3) by (simp add: card_insert_if)
  with del_hit [of m' i p] m' assms find_entries [of m i] show ?thesis
    by (auto simp: fun_upd_idem)
qed

end

lemma oid_map_count:
  assumes "oid_inv m"
  shows "finite (dom (oid_map m)) \<and> m_size m = card (dom (oid_map m))"
proof -
  from assms have d: "ids_distinct (slots m)" and sz: "m_size m = card (occ_set (slots m))"
    by (simp_all add: oid_inv_def)
  have "dom (oid_map m) = (\<lambda>k. s_id (slots m ! k)) ` occ_set (slots m)"
    using oid_map_Some_iff [OF d] by (auto simp: occ_set_def image_iff)
  moreover have "inj_on (\<lambda>k. s_id (slots m ! k)) (occ_set (slots m))"
    using ids_distinctD [OF d] by (auto simp: inj_on_def occ_set_def)
  ultimately show ?thesis using sz by (simp add: card_image)
qed

interpretation oids: id_index oid_inv oid_map oid_find oid_insert oid_erase m_size "\<lambda>m. length (slots m)"
proof unfold_locales
qed (use oid_find_eq oid_insert_ok oid_erase_miss oid_erase_hit oid_map_count in blast)+

lemma oid_inv_new: "is_pow2 cap \<Longrightarrow> oid_inv (new_id_map cap)"
  by (auto simp: oid_inv_def new_id_map_def probe_ok_def ids_distinct_def occ_set_def empty_slot_def)

lemma oid_map_new [simp]: "oid_map (new_id_map cap) = Map.empty"
  by (auto simp: oid_map_def new_id_map_def empty_slot_def filter_empty_conv intro!: map_of_eq_empty_iff [THEN iffD2])

section \<open>Properties\<close>

text \<open>
  C15.  The open-addressing table is a map, as long as it has a free slot: inserting a new id makes exactly that id found in addition;
  erasing any id, wherever it stands among colliding entries that have to be moved, returns whether it was there and makes exactly that id
  not found; both keep the table's invariant and its capacity; and no lookup inspects more slots than there are entries plus one.
\<close>

theorem id_map_lookup_laws:
  assumes "oid_inv m" "m_size m < length (slots m)"
  shows "(oid_find m i = None \<longrightarrow> (\<exists>m'. oid_insert m i (Some p) = Some m' \<and> oid_inv m' \<and> length (slots m') = length (slots m) \<and>
      (\<forall>j. oid_find m' j = (if j = i then Some p else oid_find m j)))) \<and>
    (\<exists>m'. oid_erase m i = (oid_find m i \<noteq> None, m') \<and> oid_inv m' \<and> length (slots m') = length (slots m) \<and>
      (\<forall>j. oid_find m' j = (if j = i then None else oid_find m j))) \<and>
    (\<forall>j. probe_length m j \<le> m_size m + 1)"
proof (intro conjI impI allI)
  assume "oid_find m i = None"
  then have "oid_map m i = None" using oids.find_entries [OF assms(1)] by simp
  from oids.ins_ok [OF assms this, of p] obtain m' where
    m': "oid_insert m i (Some p) = Some m'" "oid_inv m'" "oid_map m' = (oid_map m)(i \<mapsto> p)" "length (slots m') = length (slots m)" by blast
  then show "\<exists>m'. oid_insert m i (Some p) = Some m' \<and> oid_inv m' \<and> length (slots m') = length (slots m) \<and>
      (\<forall>j. oid_find m' j = (if j = i then Some p else oid_find m j))"
    using oids.find_entries [OF assms(1)] oids.find_entries [OF m'(2)] by auto
next
  show "\<exists>m'. oid_erase m i = (oid_find m i \<noteq> None, m') \<and> oid_inv m' \<and> length (slots m') = length (slots m) \<and>
      (\<forall>j. oid_find m' j = (if j = i then None else oid_find m j))"
  proof (cases "oid_map m i")
    case None
    then show ?thesis using oids.del_miss [OF assms(1) None] oids.find_entries [OF assms(1)] assms(1) by auto
  next
    case (Some q)
    from oids.del_hit [OF assms Some] obtain m' where
      m': "oid_erase m i = (True, m')" "oid_inv m'" "oid_map m' = (oid_map m)(i := None)" "length (slots m') = length (slots m)" by blast
    then show ?thesis using Some oids.find_entries [OF assms(1)] oids.find_entries [OF m'(2)] by auto
  qed
next
  show "probe_length m j \<le> m_size m + 1" for j by (rule probe_length_bound [OF assms(1)])
qed

text \<open>Two ids with the same home slot; the one that is in the way of the other is erased.\<close>

theorem id_map_lookup_laws_witness:
  "\<exists>m1 m2 m3. index_of 4 3 = index_of 4 4 \<and> oid_insert (new_id_map 4) 3 (Some 7) = Some m1 \<and> oid_insert m1 4 (Some 8) = Some m2 \<and>
    oid_erase m2 3 = (True, m3) \<and> oid_find m3 3 = None \<and> oid_find m3 4 = Some 8 \<and> probe_length m2 4 \<le> 3"
proof -
  have h: "index_of 4 3 = index_of 4 4" by (simp add: index_of_def)
  let ?m = "new_id_map 4"
  have 0: "oid_inv ?m" using oid_inv_new [of 4] is_pow2_power [of 2] by simp
  then have e: "oid_find ?m j = None" for j using oids.find_entries by simp
  have s0: "m_size ?m = 0" "length (slots ?m) = 4" by (simp_all add: new_id_map_def)
  have sz: "m_size m' = m_size m + 1" if "oid_insert m i p = Some m'" for m m' i p
    using that by (auto simp: oid_insert_def split: option.splits)
  from id_map_lookup_laws [OF 0, of 3 7] s0 e obtain m1 where
    1: "oid_insert ?m 3 (Some 7) = Some m1" "oid_inv m1" "length (slots m1) = 4" "\<And>j. oid_find m1 j = (if j = 3 then Some 7 else None)" by auto
  have s1: "m_size m1 = 1" using sz [OF 1(1)] s0 by simp
  from id_map_lookup_laws [OF 1(2), of 4 8] s1 1(3,4) obtain m2 where
    2: "oid_insert m1 4 (Some 8) = Some m2" "oid_inv m2" "length (slots m2) = 4" "\<And>j. oid_find m2 j = (if j = 4 then Some 8 else oid_find m1 j)" by auto
  have s2: "m_size m2 = 2" using sz [OF 2(1)] s1 by simp
  from id_map_lookup_laws [OF 2(2), of 3] s2 2(3,4) 1(4) obtain m3 where
    "oid_erase m2 3 = (True, m3)" "oid_find m3 3 = None" "oid_find m3 4 = Some 8" "probe_length m2 4 \<le> 3" by auto
  with h 1(1) 2(1) show ?thesis by blast
qed

end
