(* ===== verification/Book_Core.thy ===== *)
theory Book_Core
  imports Book_Laws Price_Level Memory_Pool Order_Id_Map
begin

text \<open>
  What an order book keeps apart from the container of its price levels: the orders in the pool,
  the queues that link them, and the id map.  A container appears here only as the map from prices
  to levels that it represents.  The simulation relation \<open>core_rel\<close> links these to ghost data,
  the queue of pointers at each price of each side, and the specification state is what the object
  store says about these pointers.  Each step of the matching code is verified here once, for every
  container.
\<close>

section \<open>The simulation relation\<close>

type_synonym ghost = "side \<Rightarrow> (price \<times> ptr list) list"
type_synonym levels = "price \<rightharpoonup> price_level"

definition ptrs :: "(price \<times> ptr list) list \<Rightarrow> ptr set" where
  "ptrs ls = (\<Union>(p, ps) \<in> set ls. set ps)"

definition resting_ok :: "side \<Rightarrow> price \<Rightarrow> heap \<Rightarrow> ptr \<Rightarrow> bool" where
  "resting_ok s p h x \<longleftrightarrow> (\<exists>r. h x = Some r \<and> o_price r = p \<and> o_side r = s \<and> 0 < o_quantity r)"

definition level_ok :: "side \<Rightarrow> heap \<Rightarrow> levels \<Rightarrow> price \<Rightarrow> ptr list \<Rightarrow> bool" where
  "level_ok s h am p ps \<longleftrightarrow> (\<exists>l. am p = Some l \<and> level_rep h l ps) \<and> (\<forall>x \<in> set ps. resting_ok s p h x)"

definition side_rel :: "side \<Rightarrow> heap \<Rightarrow> levels \<Rightarrow> (price \<times> ptr list) list \<Rightarrow> bool" where
  "side_rel s h am ls \<longleftrightarrow> sorted_wrt (\<lambda>x y. pbetter s (fst x) (fst y)) ls \<and> dom am = fst ` set ls \<and>
     (\<forall>(p, ps) \<in> set ls. level_ok s h am p ps)"

text \<open>\<open>ex\<close> is the order being added, which is allocated but not yet in a queue.\<close>

definition core_rel :: "(side \<Rightarrow> levels) \<Rightarrow> pool \<Rightarrow> id_map \<Rightarrow> ghost \<Rightarrow> ptr set \<Rightarrow> bool" where
  "core_rel am P m g ex \<longleftrightarrow>
     (\<forall>s. side_rel s (storage P) (am s) (g s)) \<and>
     dom (storage P) = ptrs (g Buy) \<union> ptrs (g Sell) \<union> ex \<and> ex \<inter> (ptrs (g Buy) \<union> ptrs (g Sell)) = {} \<and>
     pool_inv P \<and> oid_inv m \<and> p_capacity P < length (slots m) \<and>
     (\<forall>i x. oid_map m i = Some x \<longleftrightarrow>
        x \<in> ptrs (g Buy) \<union> ptrs (g Sell) \<and> (\<exists>r. storage P x = Some r \<and> o_id r = i))"

definition no_empty :: "ghost \<Rightarrow> bool" where
  "no_empty g \<longleftrightarrow> (\<forall>s. \<forall>(p, ps) \<in> set (g s). ps \<noteq> [])"

text \<open>What the ghost data say in the specification.\<close>

definition qview :: "heap \<Rightarrow> ptr list \<Rightarrow> spec_queue" where
  "qview h ps = map (\<lambda>x. (o_id (the (h x)), o_quantity (the (h x)))) ps"

definition sview :: "heap \<Rightarrow> (price \<times> ptr list) list \<Rightarrow> spec_side" where
  "sview h ls = map (\<lambda>(p, ps). (p, qview h ps)) ls"

definition bview :: "heap \<Rightarrow> ghost \<Rightarrow> spec_book" where
  "bview h g = \<lparr>s_bids = sview h (g Buy), s_asks = sview h (g Sell)\<rparr>"

text \<open>The total that a container keeps at a price.\<close>

definition total_at :: "levels \<Rightarrow> price \<Rightarrow> quantity" where
  "total_at am p = (case am p of None \<Rightarrow> 0 | Some l \<Rightarrow> total_qty l)"

section \<open>Views\<close>

lemma qview_simps [simp]:
  "qview h [] = []" "qview h (x # xs) = (o_id (the (h x)), o_quantity (the (h x))) # qview h xs"
  "qview h (xs @ ys) = qview h xs @ qview h ys" "qview h xs = [] \<longleftrightarrow> xs = []"
  by (simp_all add: qview_def)

lemma sview_simps [simp]:
  "sview h [] = []" "sview h ((p, ps) # ls) = (p, qview h ps) # sview h ls"
  "sview h (ls @ ms) = sview h ls @ sview h ms"
  by (simp_all add: sview_def)

lemma ptrs_simps [simp]:
  "ptrs [] = {}" "ptrs ((p, ps) # ls) = set ps \<union> ptrs ls" "ptrs (ls @ ms) = ptrs ls \<union> ptrs ms"
  by (auto simp: ptrs_def)

lemma ptrs_mem: "(p, ps) \<in> set ls \<Longrightarrow> x \<in> set ps \<Longrightarrow> x \<in> ptrs ls"
  by (auto simp: ptrs_def)

lemma qview_cong:
  assumes "\<And>x. x \<in> set ps \<Longrightarrow> data h' x = data h x \<and> x \<in> dom h"
  shows "qview h' ps = qview h ps"
proof -
  have "o_id (the (h' x)) = o_id (the (h x)) \<and> o_quantity (the (h' x)) = o_quantity (the (h x))" if "x \<in> set ps" for x
  proof -
    from assms [OF that] obtain r where r: "h x = Some r" "data h' x = Some (payload r)" by (auto simp: data_def)
    then obtain r' where "h' x = Some r'" "payload r' = payload r" by (auto simp: data_def)
    with r show ?thesis by (auto dest: payload_eqD)
  qed
  then show ?thesis by (simp add: qview_def)
qed

lemma sview_cong:
  assumes "\<And>x. x \<in> ptrs ls \<Longrightarrow> data h' x = data h x \<and> x \<in> dom h"
  shows "sview h' ls = sview h ls"
proof -
  have "qview h' ps = qview h ps" if "(p, ps) \<in> set ls" for p ps
    using that assms ptrs_mem by (intro qview_cong) blast
  then show ?thesis by (auto simp: sview_def)
qed

lemma sview_data: "data h' = data h \<Longrightarrow> sview h' ls = sview h ls"
proof -
  assume d: "data h' = data h"
  have "o_id (the (h' x)) = o_id (the (h x)) \<and> o_quantity (the (h' x)) = o_quantity (the (h x))" for x
    using fun_cong [OF d, of x] by (cases "h x"; cases "h' x") (auto simp: data_def dest: payload_eqD)
  then show ?thesis by (simp add: sview_def qview_def)
qed

section \<open>The side relation\<close>

lemma resting_data: "resting_ok s p h x \<Longrightarrow> data h' x = data h x \<Longrightarrow> resting_ok s p h' x"
proof -
  assume "resting_ok s p h x" and d: "data h' x = data h x"
  then obtain r where r: "h x = Some r" "o_price r = p" "o_side r = s" "0 < o_quantity r" by (auto simp: resting_ok_def)
  with d obtain r' where "h' x = Some r'" "payload r' = payload r" by (auto simp: data_def)
  with r payload_eqD [of r' r] show ?thesis by (auto simp: resting_ok_def)
qed

lemma data_id: "data h' y = data h y \<Longrightarrow> (\<exists>r. h' y = Some r \<and> o_id r = i) \<longleftrightarrow> (\<exists>r. h y = Some r \<and> o_id r = i)"
proof -
  have "(\<exists>r. k y = Some r \<and> o_id r = i) \<longleftrightarrow> map_option o_id (data k y) = Some i" for k :: heap
    by (auto simp: data_def)
  then show "data h' y = data h y \<Longrightarrow> ?thesis" by (simp only:)
qed

lemma side_relD:
  assumes "side_rel s h am ls"
  shows "sorted_wrt (\<lambda>x y. pbetter s (fst x) (fst y)) ls" "dom am = fst ` set ls" "(p, ps) \<in> set ls \<Longrightarrow> level_ok s h am p ps"
  using assms by (auto simp: side_rel_def)

lemma side_ptr:
  assumes "side_rel s h am ls" "x \<in> ptrs ls"
  shows "\<exists>p ps. (p, ps) \<in> set ls \<and> x \<in> set ps \<and> resting_ok s p h x"
  using assms side_relD(3) [OF assms(1)] by (fastforce simp: ptrs_def level_ok_def)

lemma side_price_unique:
  "side_rel s h am ls \<Longrightarrow> (p, ps) \<in> set ls \<Longrightarrow> (p, qs) \<in> set ls \<Longrightarrow> ps = qs"
  by (drule side_relD(1), drule sorted_prices_distinct) (metis eq_key_imp_eq_value)

text \<open>A pointer is in one queue only.\<close>

lemma side_ptr_unique:
  assumes "side_rel s h am ls" "(p, ps) \<in> set ls" "(q, qs) \<in> set ls" "x \<in> set ps" "x \<in> set qs"
  shows "p = q \<and> ps = qs"
proof -
  have "resting_ok s p h x" "resting_ok s q h x"
    using side_relD(3) [OF assms(1)] assms(2-5) by (auto simp: level_ok_def)
  then have "p = q" by (auto simp: resting_ok_def)
  with side_price_unique [OF assms(1)] assms(2,3) show ?thesis by simp
qed

lemma level_ptrs_disjoint:
  assumes "side_rel s h am (as @ (p, ps) # bs)" "x \<in> set ps"
  shows "x \<notin> ptrs as \<union> ptrs bs"
proof
  assume "x \<in> ptrs as \<union> ptrs bs"
  then obtain q qs where q: "(q, qs) \<in> set as \<union> set bs" "x \<in> set qs" by (auto simp: ptrs_def)
  then have "p = q" using side_ptr_unique [OF assms(1), of p ps q qs x] assms(2) by auto
  with q(1) sorted_prices_distinct [OF side_relD(1) [OF assms(1)]] show False by (force simp: image_iff)
qed

lemma sides_disjoint:
  assumes "side_rel Buy h am ls" "side_rel Sell h am' ms"
  shows "ptrs ls \<inter> ptrs ms = {}"
proof -
  have "False" if "x \<in> ptrs ls" "x \<in> ptrs ms" for x
    using side_ptr [OF assms(1) that(1)] side_ptr [OF assms(2) that(2)] by (auto simp: resting_ok_def)
  then show ?thesis by blast
qed

text \<open>A side is not affected by changes to orders it does not hold.\<close>

lemma level_ok_frame: "level_ok s h am p ps \<Longrightarrow> (\<And>x. x \<in> set ps \<Longrightarrow> h' x = h x) \<Longrightarrow> level_ok s h' am p ps"
  using level_rep_cong [of ps h' h] by (auto simp: level_ok_def resting_ok_def)

lemma level_ok_other: "q \<noteq> p \<Longrightarrow> level_ok s h (am(p := v)) q qs = level_ok s h am q qs"
  by (simp add: level_ok_def)

lemma side_rel_frame:
  assumes "side_rel s h am ls" "\<And>x. x \<in> ptrs ls \<Longrightarrow> h' x = h x"
  shows "side_rel s h' am ls"
proof -
  have "level_ok s h' am p ps" if "(p, ps) \<in> set ls" for p ps
    using side_relD(3) [OF assms(1) that] assms(2) ptrs_mem [OF that] by (auto intro: level_ok_frame)
  then show ?thesis using assms(1) by (auto simp: side_rel_def)
qed

text \<open>Replacing the queue at one price, and closing an empty one.\<close>

lemma side_rel_update:
  assumes rel: "side_rel s h am (as @ (p, ps) # bs)" and rep: "level_rep h' l ps'"
    and rest: "\<And>x. x \<in> set ps' \<Longrightarrow> resting_ok s p h' x"
    and frame: "\<And>x. x \<in> ptrs as \<union> ptrs bs \<Longrightarrow> h' x = h x"
  shows "side_rel s h' (am(p \<mapsto> l)) (as @ (p, ps') # bs)"
proof -
  note R = side_relD [OF rel]
  have new: "level_ok s h' (am(p \<mapsto> l)) p ps'" using rep rest by (simp add: level_ok_def)
  have other: "level_ok s h' (am(p \<mapsto> l)) q qs" if q: "(q, qs) \<in> set as \<union> set bs" for q qs
  proof -
    have "q \<noteq> p" using sorted_prices_distinct [OF R(1)] q by (force simp: image_iff)
    moreover have "h' x = h x" if "x \<in> set qs" for x using q that frame ptrs_mem by fastforce
    ultimately show ?thesis using R(3) q by (auto simp: level_ok_other intro: level_ok_frame [of s h am q qs h'])
  qed
  have "p \<in> dom am" using R(2) by simp
  then have "dom (am(p \<mapsto> l)) = fst ` set (as @ (p, ps') # bs)" using R(2) by auto
  moreover have "sorted_wrt (\<lambda>x y. pbetter s (fst x) (fst y)) (as @ (p, ps') # bs)"
    using R(1) by (simp add: sorted_wrt_append)
  ultimately show ?thesis using new other by (auto simp: side_rel_def)
qed

lemma side_rel_erase:
  assumes rel: "side_rel s h am (as @ (p, []) # bs)"
  shows "side_rel s h (am(p := None)) (as @ bs)"
proof -
  note R = side_relD [OF rel]
  have p: "p \<notin> fst ` set (as @ bs)" using sorted_prices_distinct [OF R(1)] by (auto simp: image_iff)
  have "level_ok s h (am(p := None)) q qs" if "(q, qs) \<in> set (as @ bs)" for q qs
  proof -
    have "q \<noteq> p" using that p by force
    with R(3) that show ?thesis by (auto simp: level_ok_other)
  qed
  moreover have "dom (am(p := None)) = fst ` set (as @ bs)" using R(2) p by auto
  moreover have "sorted_wrt (\<lambda>x y. pbetter s (fst x) (fst y)) (as @ bs)" using R(1) by (simp add: sorted_wrt_append)
  ultimately show ?thesis unfolding side_rel_def by auto
qed

section \<open>The core\<close>

lemma side_cases: "(\<forall>s'. P s') \<longleftrightarrow> P s \<and> P (opposite s)"
  by (cases s) (metis opposite.simps side.exhaust)+

lemma core_relD:
  assumes "core_rel am P m g ex"
  shows "side_rel s (storage P) (am s) (g s)"
    "dom (storage P) = ptrs (g s) \<union> ptrs (g (opposite s)) \<union> ex" "ex \<inter> (ptrs (g s) \<union> ptrs (g (opposite s))) = {}"
    "oid_map m i = Some x \<longleftrightarrow> x \<in> ptrs (g s) \<union> ptrs (g (opposite s)) \<and> (\<exists>r. storage P x = Some r \<and> o_id r = i)"
    "ptrs (g s) \<inter> ptrs (g (opposite s)) = {}"
  using assms sides_disjoint [of "storage P" "am Buy" "g Buy" "am Sell" "g Sell"]
  unfolding core_rel_def side_cases [of _ Buy] by (cases s; auto)+

lemma core_relP:
  assumes "core_rel am P m g ex"
  shows "pool_inv P" "oid_inv m" "p_capacity P < length (slots m)"
  using assms by (simp_all add: core_rel_def)

lemma core_relI:
  assumes "\<And>t. side_rel t (storage P) (am t) (g t)"
    "dom (storage P) = ptrs (g s) \<union> ptrs (g (opposite s)) \<union> ex" "ex \<inter> (ptrs (g s) \<union> ptrs (g (opposite s))) = {}"
    "pool_inv P" "oid_inv m" "p_capacity P < length (slots m)"
    "\<And>i x. oid_map m i = Some x \<longleftrightarrow>
       x \<in> ptrs (g s) \<union> ptrs (g (opposite s)) \<and> (\<exists>r. storage P x = Some r \<and> o_id r = i)"
  shows "core_rel am P m g ex"
  using assms unfolding core_rel_def by (cases s) auto

lemma core_count:
  assumes "core_rel am P m g ex"
  shows "finite (dom (storage P))" "card (dom (storage P)) \<le> p_capacity P" "m_size m < length (slots m)"
proof -
  note B = core_relD [OF assms, where s = Buy] and Q = core_relP [OF assms]
  show fin: "finite (dom (storage P))" and le: "card (dom (storage P)) \<le> p_capacity P"
    using pool_accounted [OF Q(1)] by auto
  have "i = j" if "oid_map m i = Some x" "oid_map m j = Some x" for i j x
    using that B(4) [of i x] B(4) [of j x] by auto
  then have "inj_on (\<lambda>i. the (oid_map m i)) (dom (oid_map m))" by (auto simp: inj_on_def)
  moreover have "the (oid_map m i) \<in> dom (storage P)" if "oid_map m i = Some x" for i x using that B(4) [of i x] by auto
  then have "(\<lambda>i. the (oid_map m i)) ` dom (oid_map m) \<subseteq> dom (storage P)" by blast
  ultimately have "card (dom (oid_map m)) \<le> card (dom (storage P))" using fin by (meson card_inj_on_le)
  then show "m_size m < length (slots m)" using le Q(3) oid_map_count [OF Q(2)] by simp
qed

text \<open>The level at a price of the ghost data, and the effect of replacing its queue.\<close>

lemma core_level:
  assumes "core_rel am P m g ex" "g s = as @ (p, ps) # bs"
  shows "\<exists>l. am s p = Some l \<and> level_rep (storage P) l ps" "distinct ps" "\<And>x. x \<in> set ps \<Longrightarrow> resting_ok s p (storage P) x"
    "ex \<inter> set ps = {}"
proof -
  have "level_ok s (storage P) (am s) p ps" using side_relD(3) [OF core_relD(1) [OF assms(1)], of p ps s] assms(2) by simp
  then show "\<exists>l. am s p = Some l \<and> level_rep (storage P) l ps" "distinct ps" "\<And>x. x \<in> set ps \<Longrightarrow> resting_ok s p (storage P) x"
    by (auto simp: level_ok_def level_rep_def)
  show "ex \<inter> set ps = {}" using core_relD(3) [OF assms(1), where s = s] assms(2) by auto
qed

lemma core_other_ptrs:
  assumes "core_rel am P m g ex" "g s = as @ (p, ps) # bs" "x \<in> set ps"
  shows "x \<notin> ptrs as" "x \<notin> ptrs bs" "x \<notin> ptrs (g (opposite s))"
  using level_ptrs_disjoint [of s "storage P" "am s" as p ps bs x] core_relD(1,5) [OF assms(1), of s] assms(2,3) by auto

lemma core_sides:
  assumes rel: "core_rel am P m g ex" and g: "g s = as @ (p, ps) # bs"
    and rep: "level_rep h l ps'" and rest: "\<And>x. x \<in> set ps' \<Longrightarrow> resting_ok s p h x"
    and frame: "\<And>y. y \<notin> set ps \<union> ex \<Longrightarrow> h y = storage P y"
  shows "side_rel t h ((am(s := (am s)(p \<mapsto> l))) t) ((g(s := as @ (p, ps') # bs)) t)"
proof (cases "t = s")
  case True
  have "side_rel s h ((am s)(p \<mapsto> l)) (as @ (p, ps') # bs)"
  proof (rule side_rel_update [OF _ rep rest])
    show rel0: "side_rel s (storage P) (am s) (as @ (p, ps) # bs)" using core_relD(1) [OF rel, of s] g by simp
    fix y assume y: "y \<in> ptrs as \<union> ptrs bs"
    then have "y \<notin> set ps" using level_ptrs_disjoint [OF rel0] by blast
    moreover have "y \<notin> ex" using core_relD(3) [OF rel, where s = s] y g by auto
    ultimately show "h y = storage P y" using frame by simp
  qed
  with True show ?thesis by simp
next
  case False
  then have t: "t = opposite s" by (cases s; cases t) simp_all
  have "side_rel (opposite s) h (am (opposite s)) (g (opposite s))"
  proof (rule side_rel_frame [OF core_relD(1) [OF rel]])
    fix y assume "y \<in> ptrs (g (opposite s))"
    then have "y \<notin> set ps \<union> ex" using core_relD(3,5) [OF rel, where s = s] g by auto
    then show "h y = storage P y" by (rule frame)
  qed
  with t show ?thesis by simp
qed

section \<open>One trade\<close>

text \<open>The trade leaves the resting order with an open quantity.\<close>

lemma core_partial:
  assumes rel: "core_rel am P m g {inc}" and g: "g s = (p, x # xs) # rest" and l: "am s p = Some l"
    and io: "storage P inc = Some io" and xo: "storage P x = Some xo"
    and q: "0 < o_quantity io" "o_quantity io < o_quantity xo"
    and h: "h = (storage P)(inc \<mapsto> io\<lparr>o_quantity := 0\<rparr>)"
  shows "\<exists>l'. l_head l = Some x \<and> reduce_head h l (o_quantity io) = Some (h(x \<mapsto> xo\<lparr>o_quantity := o_quantity xo - o_quantity io\<rparr>), l') \<and>
    l_price l' = l_price l \<and>
    core_rel (am(s := (am s)(p \<mapsto> l'))) (P\<lparr>storage := h(x \<mapsto> xo\<lparr>o_quantity := o_quantity xo - o_quantity io\<rparr>)\<rparr>) m g {inc}"
proof -
  have g': "g s = [] @ (p, x # xs) # rest" using g by simp
  note L = core_level [OF rel g'] and B = core_relD [OF rel, where s = s] and Q = core_relP [OF rel]
  have rep: "level_rep (storage P) l (x # xs)" using L(1) l by auto
  have inc: "inc \<notin> set (x # xs)" using L(4) by auto
  let ?h = "h(x \<mapsto> xo\<lparr>o_quantity := o_quantity xo - o_quantity io\<rparr>)"
  have "level_rep h l (x # xs)" using rep inc h by (subst level_rep_cong [of _ _ "storage P"]) auto
  from reduce_head_rep [OF this, of xo "o_quantity io"] xo inc h q obtain l' where
    l': "reduce_head h l (o_quantity io) = Some (?h, l')" "level_rep ?h l' (x # xs)" "l_price l' = l_price l" by auto
  have rest: "resting_ok s p ?h y" if "y \<in> set (x # xs)" for y
    using L(3) [OF that] that inc xo q h by (cases "y = x") (auto simp: resting_ok_def)
  have dom: "dom ?h = dom (storage P)" using io xo h by auto
  have ids: "(\<exists>r. ?h y = Some r \<and> o_id r = i) \<longleftrightarrow> (\<exists>r. storage P y = Some r \<and> o_id r = i)" for y i
    using io xo h inc by auto
  have "side_rel t ?h ((am(s := (am s)(p \<mapsto> l'))) t) ((g(s := [] @ (p, x # xs) # rest)) t)" for t
    using h by (intro core_sides [OF rel g' l'(2) rest]) auto
  moreover have "g(s := [] @ (p, x # xs) # rest) = g" using g by auto
  ultimately have "core_rel (am(s := (am s)(p \<mapsto> l'))) (P\<lparr>storage := ?h\<rparr>) m g {inc}"
    using B Q dom by (intro core_relI [of _ _ _ s]) (simp_all add: pool_inv_storage_dom ids del: fun_upd_apply)
  with l' rep show ?thesis by (auto simp: level_rep_def)
qed

text \<open>Filling the head of a queue and unlinking it.\<close>

lemma fill_head:
  assumes rep: "level_rep h l (x # xs)" and xo: "h x = Some xo" and h': "h' = h(x \<mapsto> xo\<lparr>o_quantity := 0\<rparr>)"
  shows "\<exists>l1 h3 l2 xd. l_head l = Some x \<and> reduce_head h l (o_quantity xo) = Some (h', l1) \<and> l_price l1 = l_price l \<and>
    remove h' l1 x = Some (h3, l2) \<and> l_price l2 = l_price l \<and> level_rep h3 l2 xs \<and> h3 x = Some xd \<and> o_id xd = o_id xo \<and>
    data h3 = data h' \<and> (\<forall>y. y \<notin> set (x # xs) \<longrightarrow> h3 y = h y)"
proof -
  have "0 \<le> o_quantity xo" using rep xo by (auto simp: level_rep_def qty_at_def)
  from reduce_head_rep [OF rep xo this order_refl] obtain l1 where
    l1: "reduce_head h l (o_quantity xo) = Some (h', l1)" "level_rep h' l1 (x # xs)" "l_price l1 = l_price l" using h' by auto
  from remove_rep [of h' l1 "[]" x xs] l1 obtain h3 l2 where
    l2: "remove h' l1 x = Some (h3, l2)" "level_rep h3 l2 xs" "l_price l2 = l_price l" "data h3 = data h'"
      "\<And>y. y \<notin> set (x # xs) \<Longrightarrow> h3 y = h' y" by auto
  from data_eq_Some [OF l2(4), of x] h' obtain xd where "h3 x = Some xd" "o_id xd = o_id xo" by (auto dest: payload_eqD(1))
  with l1 l2 rep h' show ?thesis by (auto simp: level_rep_def)
qed

text \<open>The trade fills the resting order, which leaves the queue, the id map and the pool.\<close>

text \<open>The first order \<open>x\<close> of the best level is gone from the store, from its level and from the id map.\<close>

lemma core_drop_first:
  assumes rel: "core_rel am P m g {inc}" and g: "g s = (p, x # xs) # rest" and xo: "storage P x = Some xo"
    and sides: "\<And>t. side_rel t (storage P') ((am(s := (am s)(p \<mapsto> l2))) t) ((g(s := (p, xs) # rest)) t)"
    and P': "pool_inv P'" "p_capacity P' = p_capacity P" "dom (storage P') = dom (storage P) - {x}"
    and ids: "\<And>y i. (\<exists>r. storage P' y = Some r \<and> o_id r = i) \<longleftrightarrow> y \<noteq> x \<and> (\<exists>r. storage P y = Some r \<and> o_id r = i)"
    and m': "oid_inv m'" "oid_map m' = (oid_map m)(o_id xo := None)" "length (slots m') = length (slots m)"
  shows "core_rel (am(s := (am s)(p \<mapsto> l2))) P' m' (g(s := (p, xs) # rest)) {inc}"
proof -
  have g': "g s = [] @ (p, x # xs) # rest" using g by simp
  note L = core_level [OF rel g'] and B = core_relD [OF rel, where s = s] and Q = core_relP [OF rel]
  have fresh: "x \<notin> set xs" "inc \<notin> set (x # xs)" using L(2,4) by auto
  note xnot = core_other_ptrs [OF rel g', of x, simplified]
  have uniq: "y = x" if "y \<in> ptrs (g s) \<union> ptrs (g (opposite s))" "storage P y = Some r'" "o_id r' = o_id xo" for y r'
    using B(4) [of "o_id xo" y] B(4) [of "o_id xo" x] that xo g by auto
  show ?thesis
  proof (rule core_relI [of _ _ _ s])
    show "dom (storage P') = ptrs ((g(s := (p, xs) # rest)) s) \<union> ptrs ((g(s := (p, xs) # rest)) (opposite s)) \<union> {inc}"
      unfolding P'(3) using B(2) g fresh xnot by auto
    show "oid_map m' i = Some y \<longleftrightarrow>
        y \<in> ptrs ((g(s := (p, xs) # rest)) s) \<union> ptrs ((g(s := (p, xs) # rest)) (opposite s)) \<and>
        (\<exists>r. storage P' y = Some r \<and> o_id r = i)" for i y
      unfolding ids using B(4) [of i y] m'(2) g fresh xnot uniq [of y] xo by auto
  qed (use sides B(3) g P' m' Q fresh in auto)
qed

lemma core_full:
  assumes rel: "core_rel am P m g {inc}" and g: "g s = (p, x # xs) # rest" and l: "am s p = Some l"
    and io: "storage P inc = Some io" and xo: "storage P x = Some xo"
    and h: "h = (storage P)(inc \<mapsto> io\<lparr>o_quantity := o_quantity io - o_quantity xo\<rparr>)"
  shows "\<exists>l1 h3 l2 xd m' P'. l_head l = Some x \<and>
    reduce_head h l (o_quantity xo) = Some (h(x \<mapsto> xo\<lparr>o_quantity := 0\<rparr>), l1) \<and> l_price l1 = l_price l \<and>
    remove (h(x \<mapsto> xo\<lparr>o_quantity := 0\<rparr>)) l1 x = Some (h3, l2) \<and> l_price l2 = l_price l \<and>
    h3 x = Some xd \<and> o_id xd = o_id xo \<and> oid_erase m (o_id xo) = (True, m') \<and>
    release (P\<lparr>storage := h3\<rparr>) x = Some P' \<and> storage P' = h3(x := None) \<and> p_capacity P' = p_capacity P \<and>
    storage P' inc = Some (io\<lparr>o_quantity := o_quantity io - o_quantity xo\<rparr>) \<and>
    (\<forall>y \<in> set xs. data (storage P') y = data (storage P) y) \<and>
    (\<forall>y. y \<notin> set (x # xs) \<union> {inc} \<longrightarrow> storage P' y = storage P y) \<and>
    core_rel (am(s := (am s)(p \<mapsto> l2))) P' m' (g(s := (p, xs) # rest)) {inc}"
proof -
  have g': "g s = [] @ (p, x # xs) # rest" using g by simp
  note L = core_level [OF rel g'] and B = core_relD [OF rel, where s = s] and Q = core_relP [OF rel]
  have rep: "level_rep (storage P) l (x # xs)" and dist: "x \<notin> set xs" using L(1,2) l by auto
  have inc: "inc \<notin> set (x # xs)" using L(4) by auto
  let ?h = "h(x \<mapsto> xo\<lparr>o_quantity := 0\<rparr>)"
  have "level_rep h l (x # xs)" using rep inc h by (subst level_rep_cong [of _ _ "storage P"]) auto
  from fill_head [OF this _ refl, of xo] xo inc h obtain l1 h3 l2 xd where
    hd: "l_head l = Some x" "reduce_head h l (o_quantity xo) = Some (?h, l1)" "l_price l1 = l_price l"
      "remove ?h l1 x = Some (h3, l2)" "l_price l2 = l_price l" and
    l2: "level_rep h3 l2 xs" "data h3 = data ?h" "\<And>y. y \<notin> set (x # xs) \<Longrightarrow> h3 y = h y" and
    xd: "h3 x = Some xd" "o_id xd = o_id xo" by auto
  have "oid_map m (o_id xo) = Some x" using B(4) g xo by auto
  from oid_erase_hit [OF Q(2) core_count(3) [OF rel] this] obtain m' where
    m': "oid_erase m (o_id xo) = (True, m')" "oid_inv m'" "oid_map m' = (oid_map m)(o_id xo := None)" "length (slots m') = length (slots m)" by blast
  have dom3: "dom h3 = dom (storage P)" using arg_cong [OF l2(2), of dom] io xo h by (auto simp: data_def dom_def)
  then have "pool_inv (P\<lparr>storage := h3\<rparr>)" using Q(1) by (intro pool_inv_storage_dom)
  from release_ok [OF this, of x xd] xd obtain P' where
    P': "release (P\<lparr>storage := h3\<rparr>) x = Some P'" "pool_inv P'" "storage P' = h3(x := None)" "p_capacity P' = p_capacity P" by auto
  have hinc: "storage P' inc = Some (io\<lparr>o_quantity := o_quantity io - o_quantity xo\<rparr>)" using l2(3) [of inc] inc h P'(3) by auto
  have hxs: "data (storage P') y = data (storage P) y" if "y \<in> set xs" for y
    using fun_cong [OF l2(2), of y] that dist inc h P'(3) by (auto simp: data_def)
  have hout: "storage P' y = storage P y" if "y \<notin> set (x # xs) \<union> {inc}" for y using l2(3) [of y] that h P'(3) by auto
  have "level_rep (storage P') l2 xs" using l2(1) dist P'(3) by (subst level_rep_cong [of _ _ h3]) auto
  moreover have "resting_ok s p (storage P') y" if "y \<in> set xs" for y
    using L(3) [of y] that hxs [OF that] by (auto intro: resting_data)
  ultimately have sides: "side_rel t (storage P') ((am(s := (am s)(p \<mapsto> l2))) t) ((g(s := [] @ (p, xs) # rest)) t)" for t
    by (rule core_sides [OF rel g']) (simp_all add: hout)
  have "(\<exists>r. storage P' y = Some r \<and> o_id r = i) \<longleftrightarrow> y \<noteq> x \<and> (\<exists>r. storage P y = Some r \<and> o_id r = i)" for y i
  proof (cases "y = x \<or> y = inc")
    case True
    then show ?thesis using hinc io inc P'(3) by auto
  next
    case False
    then have "data (storage P') y = data (storage P) y" using hxs [of y] hout [of y] by (cases "y \<in> set xs") (auto simp: data_def)
    with False show ?thesis using data_id by blast
  qed
  moreover have "dom (storage P') = dom (storage P) - {x}" unfolding P'(3) using dom3 by auto
  ultimately have "core_rel (am(s := (am s)(p \<mapsto> l2))) P' m' (g(s := (p, xs) # rest)) {inc}"
    by (intro core_drop_first [OF rel g xo] P'(2,4) m'(2-4)) (use sides in simp_all)
  with hd xd m'(1) P'(1,3,4) hinc hxs hout show ?thesis by auto
qed

section \<open>Counting resting orders\<close>

lemma ptrs_concat: "ptrs ls = set (concat (map snd ls))"
  by (auto simp: ptrs_def)

lemma side_orders_sview: "side_orders (sview h ls) = qview h (concat (map snd ls))"
  by (induction ls) (auto simp: side_orders_def)

lemma side_distinct: "side_rel s h am ls \<Longrightarrow> distinct (concat (map snd ls))"
proof -
  assume rel: "side_rel s h am ls"
  have "distinct (concat (map snd bs))" if "ls = as @ bs" for as bs
    using that
  proof (induction bs arbitrary: as)
    case (Cons lv bs)
    obtain p ps where lv: "lv = (p, ps)" by (cases lv)
    have "level_ok s h am p ps" using side_relD(3) [OF rel] Cons.prems lv by simp
    then have "distinct ps" by (auto simp: level_ok_def level_rep_def)
    moreover have "set ps \<inter> ptrs bs = {}" using level_ptrs_disjoint [of s h am as p ps bs] rel Cons.prems lv by blast
    ultimately show ?case using Cons.IH [of "as @ [lv]"] Cons.prems lv by (simp add: ptrs_concat)
  qed simp
  then show ?thesis by blast
qed

lemma side_count: "side_rel s h am ls \<Longrightarrow> length (side_orders (sview h ls)) = card (ptrs ls)"
  unfolding side_orders_sview ptrs_concat by (simp only: distinct_card [OF side_distinct] qview_def length_map)

lemma level_count:
  assumes "side_rel s h am ls" "\<forall>(p, ps) \<in> set ls. ps \<noteq> []"
  shows "card (dom (am)) \<le> card (ptrs ls)"
proof -
  have "length ms \<le> length (concat (map snd ms))" if "\<forall>(p, ps) \<in> set ms. ps \<noteq> []" for ms :: "(price \<times> ptr list) list"
    using that
  proof (induction ms)
    case (Cons m ms)
    then obtain a as where "snd m = a # as" by (cases "snd m") auto
    with Cons show ?case by auto
  qed simp
  from this [OF assms(2)] have "length ls \<le> card (ptrs ls)"
    using distinct_card [OF side_distinct [OF assms(1)]] by (simp only: ptrs_concat)
  moreover have "card (fst ` set ls) \<le> length ls" by (metis card_length length_map list.set_map)
  ultimately show ?thesis using side_relD(2) [OF assms(1)] by simp
qed

lemma bview_side: "side_of s (bview h g) = sview h (g s)"
  by (cases s) (simp_all add: bview_def)

lemma set_side_bview: "set_side s (sview h ls) (bview h g) = bview h (g(s := ls))"
  by (cases s) (simp_all add: bview_def)

lemma book_ids_set: "set (book_ids (bview h g)) = (\<lambda>x. o_id (the (h x))) ` (ptrs (g s) \<union> ptrs (g (opposite s)))"
  by (cases s) (auto simp: book_ids_def bview_def side_orders_sview qview_def ptrs_concat)

lemma known_id:
  assumes "core_rel am P m g ex"
  shows "oid_map m i \<noteq> None \<longleftrightarrow> i \<in> set (book_ids (bview (storage P) g))"
proof -
  have "oid_map m i = Some x \<longleftrightarrow> x \<in> ptrs (g Buy) \<union> ptrs (g Sell) \<and> o_id (the (storage P x)) = i" for x
  proof -
    have "(\<exists>r. storage P x = Some r \<and> o_id r = i) \<longleftrightarrow> x \<in> dom (storage P) \<and> o_id (the (storage P x)) = i" by auto
    then show ?thesis using core_relD(2,4) [OF assms, where s = Buy] by auto
  qed
  then show ?thesis using book_ids_set [of "storage P" g Buy] by auto
qed

lemma order_count:
  assumes "core_rel am P m g ex"
  shows "length (book_ids (bview (storage P) g)) = card (ptrs (g s) \<union> ptrs (g (opposite s)))"
proof -
  have S: "length (side_orders (sview (storage P) (g t))) = card (ptrs (g t))" for t
    using side_count [OF core_relD(1) [OF assms]] .
  have fin: "finite (ptrs (g t))" for t by (simp add: ptrs_concat)
  have "card (ptrs (g s) \<union> ptrs (g (opposite s))) = card (ptrs (g s)) + card (ptrs (g (opposite s)))"
    using core_relD(5) [OF assms, of s] fin by (intro card_Un_disjoint)
  then show ?thesis using S by (cases s) (simp_all add: book_ids_def bview_def)
qed

lemma core_available:
  assumes "core_rel am P m g {}"
  shows "0 < available P \<longleftrightarrow> length (book_ids (bview (storage P) g)) < p_capacity P"
  using order_count [OF assms, of Buy] core_relD(2) [OF assms, where s = Buy] pool_accounted [OF core_relP(1) [OF assms]] by auto

section \<open>Resting the remainder\<close>

lemma enqueue_sview: "sview h (enqueue s p x ls) = enqueue s p (o_id (the (h x)), o_quantity (the (h x))) (sview h ls)"
  by (induction s p x ls rule: enqueue.induct) auto

text \<open>Where the new entry goes: the end of an existing queue, or a new level between two others.\<close>

definition enqueue_at :: "side \<Rightarrow> price \<Rightarrow> 'a \<Rightarrow> (price \<times> 'a list) list \<Rightarrow> bool" where
  "enqueue_at s p x ls \<longleftrightarrow>
     (\<exists>as ps bs. ls = as @ (p, ps) # bs \<and> enqueue s p x ls = as @ (p, ps @ [x]) # bs) \<or>
     (p \<notin> fst ` set ls \<and> (\<exists>as bs. ls = as @ bs \<and> enqueue s p x ls = as @ (p, [x]) # bs \<and>
        (\<forall>a \<in> set as. pbetter s (fst a) p) \<and> (\<forall>c \<in> set bs. pbetter s p (fst c))))"

lemma enqueue_split:
  "sorted_wrt (\<lambda>x y. pbetter s (fst x) (fst y)) ls \<Longrightarrow> enqueue_at s p x ls"
proof (induction s p x ls rule: enqueue.induct)
  case (2 s p x p' xs ls)
  consider "p = p'" | "p \<noteq> p'" "pbetter s p p'" | "p \<noteq> p'" "pbetter s p' p"
    using pbetter_cases by blast
  then show ?case
  proof cases
    case 1
    then show ?thesis unfolding enqueue_at_def
      by (intro disjI1 exI [of _ "[]"] exI [of _ xs] exI [of _ ls]) simp
  next
    case 2
    then have "\<forall>c \<in> set ((p', xs) # ls). pbetter s p (fst c)" using "2.prems" by (auto intro: pbetter_trans)
    moreover from this have "p \<notin> fst ` set ((p', xs) # ls)" by force
    ultimately show ?thesis unfolding enqueue_at_def
      using 2 by (intro disjI2 conjI exI [of _ "[]"] exI [of _ "(p', xs) # ls"]) simp_all
  next
    case 3
    then have nb: "\<not> pbetter s p p'" by (blast dest: pbetter_asym)
    then have step: "enqueue s p x ((p', xs) # ls) = (p', xs) # enqueue s p x ls" using 3 by simp
    have "enqueue_at s p x ls" using "2.IH" [OF 3(1) nb] "2.prems" by simp
    then consider as ps bs where "ls = as @ (p, ps) # bs" "enqueue s p x ls = as @ (p, ps @ [x]) # bs"
      | as bs where "p \<notin> fst ` set ls" "ls = as @ bs" "enqueue s p x ls = as @ (p, [x]) # bs"
        "\<forall>a \<in> set as. pbetter s (fst a) p" "\<forall>c \<in> set bs. pbetter s p (fst c)"
      unfolding enqueue_at_def by blast
    then show ?thesis
    proof cases
      case (1 as ps bs)
      then show ?thesis unfolding enqueue_at_def step
        by (intro disjI1 exI [of _ "(p', xs) # as"] exI [of _ ps] exI [of _ bs]) simp
    next
      case (2 as bs)
      then show ?thesis unfolding enqueue_at_def step
        using 3 by (intro disjI2 conjI exI [of _ "(p', xs) # as"] exI [of _ bs]) simp_all
    qed
  qed
qed (simp add: enqueue_at_def)

lemma side_rel_open:
  assumes rel: "side_rel s h am ls" and l: "case am p of None \<Rightarrow> level_rep h l [] | Some l' \<Rightarrow> l = l'"
  shows "\<exists>as ps bs. side_rel s h (am(p \<mapsto> l)) (as @ (p, ps) # bs) \<and> enqueue s p x ls = as @ (p, ps @ [x]) # bs \<and>
    set (as @ bs) \<subseteq> set ls \<and> ptrs (as @ (p, ps) # bs) = ptrs ls"
proof -
  note R = side_relD [OF rel]
  from enqueue_split [OF R(1), of p x] show ?thesis
    unfolding enqueue_at_def
  proof (elim disjE exE conjE)
    fix as ps bs assume ls: "ls = as @ (p, ps) # bs" "enqueue s p x ls = as @ (p, ps @ [x]) # bs"
    then have "p \<in> dom am" using R(2) by simp
    then have "am(p \<mapsto> l) = am" using l by (auto simp: fun_upd_idem)
    with ls rel show ?thesis by auto
  next
    fix as bs assume new: "p \<notin> fst ` set ls" and ls: "ls = as @ bs" "enqueue s p x ls = as @ (p, [x]) # bs"
      and srt: "\<forall>a \<in> set as. pbetter s (fst a) p" "\<forall>c \<in> set bs. pbetter s p (fst c)"
    have "am p = None" using new R(2) by auto
    then have "level_ok s h (am(p \<mapsto> l)) p []" using l by (simp add: level_ok_def)
    moreover have "level_ok s h (am(p \<mapsto> l)) q qs" if "(q, qs) \<in> set ls" for q qs
      using R(3) [OF that] new that by (force simp: level_ok_def)
    ultimately have "side_rel s h (am(p \<mapsto> l)) (as @ (p, []) # bs)"
      using R ls srt by (auto simp: side_rel_def sorted_wrt_append)
    with ls show ?thesis by (intro exI [of _ as] exI [of _ "[]"] exI [of _ bs]) auto
  qed
qed

text \<open>A side has at most as many levels as there are orders, counting the one being added.\<close>

lemma core_room:
  assumes rel: "core_rel am P m g {x}" and ne: "no_empty g"
  shows "card (insert p (dom (am s))) \<le> p_capacity P"
proof -
  note B = core_relD [OF rel, where s = s]
  have xn: "x \<notin> ptrs (g s)" using B(3) by auto
  have "card (dom (am s)) \<le> card (ptrs (g s))" using ne by (intro level_count [OF B(1)]) (simp add: no_empty_def)
  moreover have "card (insert x (ptrs (g s))) \<le> card (dom (storage P))" using B(2) core_count(1) [OF rel] by (intro card_mono) auto
  moreover have "card (insert x (ptrs (g s))) = card (ptrs (g s)) + 1" using xn by (simp add: ptrs_concat)
  moreover have "finite (dom (am s))" using side_relD(2) [OF B(1)] by simp
  then have "card (insert p (dom (am s))) \<le> card (dom (am s)) + 1" by (simp add: card_insert_if)
  ultimately show ?thesis using core_count(2) [OF rel] by simp
qed

text \<open>The level that the order joins, which may be a new one.\<close>

lemma core_open:
  assumes rel: "core_rel am P m g {x}" and l: "case am s p of None \<Rightarrow> level_rep (storage P) l [] | Some l' \<Rightarrow> l = l'"
  shows "\<exists>as ps bs. core_rel (am(s := (am s)(p \<mapsto> l))) P m (g(s := as @ (p, ps) # bs)) {x} \<and> enqueue s p x (g s) = as @ (p, ps @ [x]) # bs \<and>
    set (as @ bs) \<subseteq> set (g s) \<and> ptrs (as @ (p, ps) # bs) = ptrs (g s) \<and> level_rep (storage P) l ps \<and> x \<notin> set ps \<and> total_qty l = total_at (am s) p"
proof -
  note B = core_relD [OF rel, where s = s] and Q = core_relP [OF rel]
  from side_rel_open [OF B(1) l, of x] obtain as ps bs where
    O: "side_rel s (storage P) ((am s)(p \<mapsto> l)) (as @ (p, ps) # bs)" "enqueue s p x (g s) = as @ (p, ps @ [x]) # bs"
      "set (as @ bs) \<subseteq> set (g s)" "ptrs (as @ (p, ps) # bs) = ptrs (g s)" by blast
  let ?am = "am(s := (am s)(p \<mapsto> l))" and ?g = "g(s := as @ (p, ps) # bs)"
  have "core_rel ?am P m ?g {x}"
  proof (rule core_relI [of _ _ _ s])
    fix t show "side_rel t (storage P) (?am t) (?g t)" using O(1) core_relD(1) [OF rel, of t] by (cases "t = s") simp_all
  qed (use B(2-4) O(4) Q in auto)
  then have rel': "core_rel ?am P m ?g {x}" and g': "?g s = as @ (p, ps) # bs" by simp_all
  from core_level(1,4) [OF rel' g'] have "level_rep (storage P) l ps" "x \<notin> set ps" by auto
  moreover have "total_qty l = total_at (am s) p" using l by (auto simp: total_at_def level_rep_def split: option.splits)
  ultimately show ?thesis using rel' O by (intro exI [of _ as] exI [of _ ps] exI [of _ bs]) simp
qed

text \<open>The total at its price overflows, and nothing else can go wrong.\<close>

lemma core_rest_overflow:
  assumes "core_rel am P m g {x}" "storage P x = Some xo" "case am s p of None \<Rightarrow> level_rep (storage P) l [] | Some l' \<Rightarrow> l = l'"
    "2 ^ 63 \<le> total_at (am s) p + o_quantity xo"
  shows "push_back (storage P) l x = None"
  using core_open [OF assms(1,3)] push_back_overflow [of "storage P" l _ x xo] assms(2,4) by auto

lemma core_rest:
  assumes rel: "core_rel am P m g {x}" and ne: "no_empty g" and xo: "storage P x = Some xo" "o_side xo = s" "o_price xo = p" "0 < o_quantity xo"
    and new: "oid_map m (o_id xo) = None" and l: "case am s p of None \<Rightarrow> level_rep (storage P) l [] | Some l' \<Rightarrow> l = l'"
    and room: "total_at (am s) p + o_quantity xo < 2 ^ 63"
  shows "\<exists>h l' m'. push_back (storage P) l x = Some (h, l') \<and> l_price l' = l_price l \<and> oid_insert m (o_id xo) (Some x) = Some m' \<and>
    data h = data (storage P) \<and> core_rel (am(s := (am s)(p \<mapsto> l'))) (P\<lparr>storage := h\<rparr>) m' (g(s := enqueue s p x (g s))) {} \<and>
    no_empty (g(s := enqueue s p x (g s)))"
proof -
  note B = core_relD [OF rel, where s = s] and Q = core_relP [OF rel]
  from core_open [OF rel l] obtain as ps bs where rel': "core_rel (am(s := (am s)(p \<mapsto> l))) P m (g(s := as @ (p, ps) # bs)) {x}"
    and O: "enqueue s p x (g s) = as @ (p, ps @ [x]) # bs" "set (as @ bs) \<subseteq> set (g s)" "ptrs (as @ (p, ps) # bs) = ptrs (g s)"
    and rep: "level_rep (storage P) l ps" "x \<notin> set ps" "total_qty l = total_at (am s) p" by blast
  let ?am = "am(s := (am s)(p \<mapsto> l))" and ?g = "g(s := as @ (p, ps) # bs)"
  have g': "?g s = as @ (p, ps) # bs" by simp
  note L = core_level [OF rel' g']
  from push_back_rep [OF rep(1,2) xo(1)] xo(4) room rep(3) obtain h l' where h: "push_back (storage P) l x = Some (h, l')" "level_rep h l' (ps @ [x])"
    "l_price l' = l_price l" "data h = data (storage P)" "\<And>y. y \<notin> set (ps @ [x]) \<Longrightarrow> h y = storage P y" by auto
  from oid_insert_ok [OF Q(2) core_count(3) [OF rel] new, of x] obtain m' where
    m': "oid_insert m (o_id xo) (Some x) = Some m'" "oid_inv m'" "oid_map m' = (oid_map m)(o_id xo \<mapsto> x)" "length (slots m') = length (slots m)" by blast
  have rest: "resting_ok s p h y" if "y \<in> set (ps @ [x])" for y
  proof -
    have "resting_ok s p (storage P) y" using that L(3) [of y] xo by (auto simp: resting_ok_def)
    then show ?thesis by (rule resting_data) (simp add: h(4))
  qed
  have sides: "side_rel t h ((?am(s := (?am s)(p \<mapsto> l'))) t) ((?g(s := as @ (p, ps @ [x]) # bs)) t)" for t
    using h(5) by (intro core_sides [OF rel' g' h(2) rest]) auto
  have dom: "dom h = dom (storage P)" using arg_cong [OF h(4), of dom] by (auto simp: data_def dom_def)
  have ids: "(\<exists>r. h y = Some r \<and> o_id r = i) \<longleftrightarrow> (\<exists>r. storage P y = Some r \<and> o_id r = i)" for y i
    by (rule data_id) (simp add: h(4))
  have pt: "ptrs (as @ (p, ps @ [x]) # bs) = insert x (ptrs (g s))" using O(3) by auto
  have xn: "x \<notin> ptrs (g s)" "x \<notin> ptrs (g (opposite s))" using B(3) by auto
  have "core_rel (am(s := (am s)(p \<mapsto> l'))) (P\<lparr>storage := h\<rparr>) m' (g(s := as @ (p, ps @ [x]) # bs)) {}"
  proof (rule core_relI [of _ _ _ s])
    show "oid_map m' i = Some y \<longleftrightarrow> y \<in> ptrs ((g(s := as @ (p, ps @ [x]) # bs)) s) \<union> ptrs ((g(s := as @ (p, ps @ [x]) # bs)) (opposite s)) \<and>
        (\<exists>r. storage (P\<lparr>storage := h\<rparr>) y = Some r \<and> o_id r = i)" for i y
      using B(4) [of i y] new xo xn by (auto simp: m'(3) pt ids simp del: ptrs_simps)
  qed (use sides B(2) pt dom m' Q in \<open>auto simp: pool_inv_storage_dom simp del: ptrs_simps\<close>)
  moreover have "no_empty (g(s := as @ (p, ps @ [x]) # bs))" using ne O(2) by (auto simp: no_empty_def)
  ultimately show ?thesis using h(1,3,4) m'(1) O(1) by auto
qed

section \<open>Orders outside the queues\<close>

lemma core_pool:
  assumes rel: "core_rel am P m g ex" and P': "pool_inv P'" "p_capacity P' = p_capacity P"
    and frame: "\<And>s y. y \<in> ptrs (g s) \<Longrightarrow> storage P' y = storage P y"
    and dom: "dom (storage P') = ptrs (g Buy) \<union> ptrs (g Sell) \<union> ex'" and ex: "ex' \<inter> (ptrs (g Buy) \<union> ptrs (g Sell)) = {}"
  shows "core_rel am P' m g ex'"
proof -
  have "side_rel s (storage P') (am s) (g s)" for s by (rule side_rel_frame [OF core_relD(1) [OF rel] frame])
  moreover have "oid_map m i = Some y \<longleftrightarrow> y \<in> ptrs (g Buy) \<union> ptrs (g Sell) \<and> (\<exists>r. storage P' y = Some r \<and> o_id r = i)" for i y
  proof -
    have "y \<in> ptrs (g Buy) \<union> ptrs (g Sell) \<Longrightarrow> storage P' y = storage P y" using frame by blast
    then show ?thesis using core_relD(4) [OF rel, where s = Buy and i = i and x = y]
      by (cases "y \<in> ptrs (g Buy) \<union> ptrs (g Sell)") simp_all
  qed
  ultimately show ?thesis using P' dom ex core_relP [OF rel] unfolding core_rel_def by simp
qed

lemma core_allocate:
  assumes rel: "core_rel am P m g {}" and room: "0 < available P"
  shows "\<exists>x P'. allocate P xo = (Some x, P') \<and> core_rel am P' m g {x} \<and> storage P' = (storage P)(x \<mapsto> xo) \<and> x \<notin> dom (storage P) \<and>
    p_capacity P' = p_capacity P"
proof -
  note B = core_relD [OF rel, where s = Buy]
  from allocate_ok [OF core_relP(1) [OF rel] room, of xo] obtain x P' where P': "allocate P xo = (Some x, P')" "pool_inv P'" "storage P x = None"
    "storage P' = (storage P)(x \<mapsto> xo)" "p_capacity P' = p_capacity P" by blast
  have xn: "x \<notin> ptrs (g Buy)" "x \<notin> ptrs (g Sell)" using B(2) P'(3) by (auto simp: domIff)
  then have "x \<notin> ptrs (g s)" for s by (cases s) auto
  then have "core_rel am P' m g {x}" using P' xn B(2) by (intro core_pool [OF rel]) auto
  with P' show ?thesis by (auto simp: domIff)
qed

lemma core_release:
  assumes rel: "core_rel am P m g {x}"
  shows "\<exists>P'. release P x = Some P' \<and> core_rel am P' m g {} \<and> storage P' = (storage P)(x := None) \<and> p_capacity P' = p_capacity P"
proof -
  note B = core_relD [OF rel, where s = Buy]
  obtain xo where xo: "storage P x = Some xo" using B(2) by auto
  from release_ok [OF core_relP(1) [OF rel] xo] obtain P' where P': "release P x = Some P'" "pool_inv P'"
    "storage P' = (storage P)(x := None)" "p_capacity P' = p_capacity P" by auto
  have xn: "x \<notin> ptrs (g Buy)" "x \<notin> ptrs (g Sell)" using B(3) by auto
  then have "x \<notin> ptrs (g s)" for s by (cases s) auto
  then have "core_rel am P' m g {}" using P' xn B(2) by (intro core_pool [OF rel]) auto
  with P' show ?thesis by blast
qed

section \<open>Cancelling\<close>

text \<open>Closing a level whose queue is empty.\<close>

lemma core_close:
  assumes "core_rel am P m g ex" "g s = as @ (p, []) # bs"
  shows "core_rel (am(s := (am s)(p := None))) P m (g(s := as @ bs)) ex"
proof (rule core_relI [of _ _ _ s])
  have "side_rel s (storage P) (am s) (as @ (p, []) # bs)" using core_relD(1) [OF assms(1), of s] assms(2) by simp
  from side_rel_erase [OF this] show "side_rel t (storage P) ((am(s := (am s)(p := None))) t) ((g(s := as @ bs)) t)" for t
    using core_relD(1) [OF assms(1), of t] by (cases "t = s") simp_all
qed (use core_relD(2-4) [OF assms(1), where s = s] core_relP [OF assms(1)] assms(2) in simp_all)

text \<open>Unlinking the order \<open>x\<close> makes it an order outside the queues; its id is still in the map.\<close>

definition unlinked :: "(price \<times> ptr list) list \<Rightarrow> price \<Rightarrow> ptr list \<Rightarrow> (price \<times> ptr list) list \<Rightarrow> (price \<times> ptr list) list" where
  "unlinked as p ps bs = as @ (if ps = [] then [] else [(p, ps)]) @ bs"

lemma core_unlink:
  assumes rel: "core_rel am P m g {}" and g: "g s = as @ (p, xs @ x # ys) # bs" and xo: "storage P x = Some xo" and l: "am s p = Some l"
  shows "\<exists>h l' m'. remove (storage P) l x = Some (h, l') \<and> l_price l' = l_price l \<and> (level_empty l' \<longleftrightarrow> xs @ ys = []) \<and>
    oid_erase m (o_id xo) = (True, m') \<and> data h = data (storage P) \<and>
    core_rel (am(s := (am s)(p := if xs @ ys = [] then None else Some l'))) (P\<lparr>storage := h\<rparr>) m' (g(s := unlinked as p (xs @ ys) bs)) {x}"
proof -
  note B = core_relD [OF rel, where s = s] and Q = core_relP [OF rel] and L = core_level [OF rel g]
  have rep: "level_rep (storage P) l (xs @ x # ys)" and dist: "x \<notin> set (xs @ ys)" using L(1,2) l by auto
  from remove_rep [OF rep] obtain h l' where h: "remove (storage P) l x = Some (h, l')" "level_rep h l' (xs @ ys)" "l_price l' = l_price l"
    "data h = data (storage P)" "\<And>y. y \<notin> set (xs @ x # ys) \<Longrightarrow> h y = storage P y" by auto
  have i: "oid_map m (o_id xo) = Some x" using B(4) [of "o_id xo" x] g xo by simp
  from oid_erase_hit [OF Q(2) core_count(3) [OF rel] i] obtain m' where
    m': "oid_erase m (o_id xo) = (True, m')" "oid_inv m'" "oid_map m' = (oid_map m)(o_id xo := None)" "length (slots m') = length (slots m)" by blast
  have rest: "resting_ok s p h y" if "y \<in> set (xs @ ys)" for y
    using that L(3) [of y] by (intro resting_data [of s p "storage P" y h]) (auto simp: h(4))
  let ?g = "g(s := as @ (p, xs @ ys) # bs)" and ?am = "am(s := (am s)(p \<mapsto> l'))"
  have sides: "side_rel t h (?am t) (?g t)" for t using h(5) by (intro core_sides [OF rel g h(2) rest]) auto
  have dom: "dom h = dom (storage P)" using arg_cong [OF h(4), of dom] by (auto simp: data_def dom_def)
  have ids: "(\<exists>r. h y = Some r \<and> o_id r = j) \<longleftrightarrow> (\<exists>r. storage P y = Some r \<and> o_id r = j)" for y j
    by (rule data_id) (simp add: h(4))
  have pt: "ptrs (as @ (p, xs @ ys) # bs) = ptrs (g s) - {x}" "x \<in> ptrs (g s)" "x \<notin> ptrs (g (opposite s))"
    using core_other_ptrs [OF rel g, of x] g dist by auto
  have "core_rel ?am (P\<lparr>storage := h\<rparr>) m' ?g {x}"
  proof (rule core_relI [of _ _ _ s])
    show "oid_map m' j = Some y \<longleftrightarrow> y \<in> ptrs (?g s) \<union> ptrs (?g (opposite s)) \<and> (\<exists>r. storage (P\<lparr>storage := h\<rparr>) y = Some r \<and> o_id r = j)" for j y
      using B(4) [of j y] B(4) [of j x] i xo pt(3) by (cases "y = x") (auto simp: m'(3) pt(1) ids simp del: ptrs_simps)
  qed (use sides B(2) pt dom m' Q in \<open>auto simp: pool_inv_storage_dom simp del: ptrs_simps\<close>)
  then have "core_rel (am(s := (am s)(p := if xs @ ys = [] then None else Some l'))) (P\<lparr>storage := h\<rparr>) m' (g(s := unlinked as p (xs @ ys) bs)) {x}"
    using core_close [of ?am "P\<lparr>storage := h\<rparr>" m' ?g "{x}" s as p bs] by (auto simp: unlinked_def)
  with h(1,3,4) level_rep_empty_iff [OF h(2)] m'(1) show ?thesis by auto
qed

lemma resting_position:
  assumes rel: "core_rel am P m g {}" and i: "oid_map m i = Some x"
  shows "\<exists>s as p xs ys bs xo. g s = as @ (p, xs @ x # ys) # bs \<and> storage P x = Some xo \<and> o_side xo = s \<and> o_price xo = p \<and> o_id xo = i"
proof -
  from i core_relD(4) [OF rel, where s = Buy] obtain xo where x: "x \<in> ptrs (g Buy) \<union> ptrs (g Sell)"
    and xo: "storage P x = Some xo" "o_id xo = i" by auto
  then obtain s where "x \<in> ptrs (g s)" by blast
  from side_ptr [OF core_relD(1) [OF rel] this] obtain p ps where ps: "(p, ps) \<in> set (g s)" "x \<in> set ps"
    "resting_ok s p (storage P) x" by blast
  from split_list [OF ps(1)] split_list [OF ps(2)] ps(3) xo show ?thesis by (auto simp: resting_ok_def)
qed

lemma drop_id_append: "drop_id i (xs @ ys) = drop_id i xs @ drop_id i ys"
  by (simp add: drop_id_def)

lemma drop_id_other:
  "i \<notin> fst ` set (side_orders ls) \<Longrightarrow> \<forall>(p, xs) \<in> set ls. xs \<noteq> [] \<Longrightarrow> drop_id i ls = ls"
proof (induction ls)
  case (Cons l ls)
  obtain p xs where l: "l = (p, xs)" by (cases l)
  have "filter (\<lambda>(j, _). j \<noteq> i) xs = xs"
    using Cons.prems(1) l by (intro filter_True) (force simp: side_orders_def)
  moreover have "drop_id i ls = ls" using Cons by (auto simp: side_orders_def)
  ultimately show ?case using Cons.prems(2) l by (simp add: drop_id_def)
qed (simp add: drop_id_def)

lemma queue_view_ids:
  assumes "(p, ps) \<in> set ls" "x \<in> set ps"
  shows "o_id (the (h x)) \<in> fst ` set (side_orders (sview h ls))"
  using assms by (force simp: side_orders_sview qview_def)

lemma cancel_view:
  assumes rel: "core_rel am P m g {}" and ne: "no_empty g" and g: "g s = as @ (p, xs @ x # ys) # bs"
    and i: "oid_map m i = Some x"
  shows "sview (storage P) (unlinked as p (xs @ ys) bs) = drop_id i (sview (storage P) (g s))"
    "sview (storage P) (g (opposite s)) = drop_id i (sview (storage P) (g (opposite s)))"
proof -
  let ?h = "storage P"
  have uniq: "o_id (the (?h y)) = i \<longleftrightarrow> y = x" if "y \<in> ptrs (g s) \<union> ptrs (g (opposite s))" for y
    using core_relD(2,4) [OF rel, where s = s] that i by (metis (no_types, lifting) Un_empty_right domD option.inject option.sel)
  have dist: "x \<notin> set (xs @ ys)"
    using core_level(2) [OF rel g] by simp
  have xn: "x \<notin> ptrs as" "x \<notin> ptrs bs" "x \<notin> ptrs (g (opposite s))"
    using core_other_ptrs [OF rel g, of x] by simp_all
  have keep: "drop_id i (sview ?h ls) = sview ?h ls"
    if k: "x \<notin> ptrs ls" "ptrs ls \<subseteq> ptrs (g s) \<union> ptrs (g (opposite s))" "\<forall>(q, qs) \<in> set ls. qs \<noteq> []" for ls
  proof (rule drop_id_other)
    have "fst ` set (side_orders (sview ?h ls)) = (\<lambda>y. o_id (the (?h y))) ` ptrs ls"
      by (simp only: side_orders_sview qview_def ptrs_concat set_map image_image fst_conv)
    moreover have "o_id (the (?h y)) \<noteq> i" if y: "y \<in> ptrs ls" for y
    proof -
      have "y \<in> ptrs (g s) \<union> ptrs (g (opposite s))" using k(2) y by (rule subsetD)
      moreover have "y \<noteq> x" using k(1) y by metis
      ultimately show ?thesis using uniq by simp
    qed
    ultimately show "i \<notin> fst ` set (side_orders (sview ?h ls))" by (simp add: image_iff) metis
    show "\<forall>(p, xs) \<in> set (sview ?h ls). xs \<noteq> []" using k(3) by (auto simp: sview_def)
  qed
  have nes: "\<forall>(q, qs) \<in> set (g t). qs \<noteq> []" for t using ne by (simp add: no_empty_def)
  show "sview ?h (g (opposite s)) = drop_id i (sview ?h (g (opposite s)))" using keep [of "g (opposite s)"] xn nes by simp
  have other: "filter (\<lambda>(j, _). j \<noteq> i) (qview ?h zs) = qview ?h zs" if "x \<notin> set zs" "set zs \<subseteq> ptrs (g s)" for zs
    using that uniq by (intro filter_True) (auto simp: qview_def)
  have "set xs \<subseteq> ptrs (g s)" "set ys \<subseteq> ptrs (g s)" "x \<in> ptrs (g s)" using g by auto
  then have "filter (\<lambda>(j, _). j \<noteq> i) (qview ?h (xs @ x # ys)) = qview ?h (xs @ ys)"
    using dist uniq [of x] other [of xs] other [of ys] by simp
  then have "drop_id i (sview ?h [(p, xs @ x # ys)]) = sview ?h (if xs @ ys = [] then [] else [(p, xs @ ys)])"
    by (simp add: drop_id_def sview_def del: qview_simps(3))
  moreover have "drop_id i (sview ?h as) = sview ?h as" "drop_id i (sview ?h bs) = sview ?h bs"
    using nes [of s] g xn by (auto intro!: keep)
  moreover have "g s = as @ [(p, xs @ x # ys)] @ bs" using g by simp
  ultimately show "sview ?h (unlinked as p (xs @ ys) bs) = drop_id i (sview ?h (g s))"
    by (simp only: unlinked_def sview_simps(3) drop_id_append)
qed

section \<open>Depth and totals\<close>

definition depth :: "spec_side \<Rightarrow> level_qty list" where
  "depth ls = map (\<lambda>(p, xs). \<lparr>lq_price = p, lq_qty = queue_qty xs\<rparr>) ls"

lemma level_rep_qty: "level_rep h l ps \<Longrightarrow> total_qty l = queue_qty (qview h ps)"
proof -
  assume rep: "level_rep h l ps"
  have "qty_at h x = o_quantity (the (h x))" if "x \<in> set ps" for x
    using level_rep_alive [OF rep that] by (auto simp: qty_at_def)
  then have "map (qty_at h) ps = map snd (qview h ps)" by (simp add: qview_def)
  with rep show ?thesis by (simp add: level_rep_def queue_qty_def)
qed

text \<open>The totals that the levels keep are those of the represented queues.\<close>

lemma level_total:
  assumes "side_rel s h am ls" "x \<in> set ls"
  shows "total_qty (the (am (fst x))) = queue_qty (qview h (snd x))"
  using side_relD(3) [OF assms(1), of "fst x" "snd x"] assms(2) by (auto simp: level_ok_def level_rep_qty)

lemma level_nonneg:
  assumes "side_rel s h am ls" "am p = Some l"
  shows "0 \<le> total_qty l"
proof -
  from assms side_relD(2) [OF assms(1)] obtain ps where "(p, ps) \<in> set ls" by force
  from side_relD(3) [OF assms(1) this] assms(2) level_rep_total show ?thesis by (auto simp: level_ok_def)
qed

lemma depth_levels:
  assumes "side_rel s h am ls"
  shows "depth (sview h ls) = map (\<lambda>p. \<lparr>lq_price = p, lq_qty = total_qty (the (am p))\<rparr>) (map fst ls)"
  using level_total [OF assms] by (simp add: depth_def sview_def case_prod_beta)

lemma side_qty_levels:
  assumes "side_rel s h am ls"
  shows "side_qty (sview h ls) = (\<Sum>p\<leftarrow>map fst ls. total_qty (the (am p)))"
  using level_total [OF assms] by (simp add: side_qty_def sview_def comp_def case_prod_beta cong: map_cong)

text \<open>The represented levels fit, and so does the one that an order joins exactly when its total stays in 64 bits.\<close>

lemma side_rel_fits: "side_rel s h am ls \<Longrightarrow> side_fits (sview h ls)"
  using side_relD(3) level_rep_qty level_rep_total by (fastforce simp: side_fits_def sview_def level_ok_def)

lemma core_levels_fit: "core_rel am P m g ex \<Longrightarrow> book_fits (bview (storage P) g)"
  using core_relD(1) side_rel_fits by (fastforce simp: book_fits_sides [of _ Buy] bview_side)

lemma total_at_view:
  assumes "side_rel s h am ls"
  shows "total_at am p = level_qty_of (sview h ls) p"
proof (cases "p \<in> dom am")
  case True
  then obtain ps where ps: "(p, ps) \<in> set ls" using side_relD(2) [OF assms] by auto
  have "distinct (map fst (sview h ls))" using sorted_prices_distinct [OF side_relD(1) [OF assms]] by (simp add: sview_def comp_def case_prod_beta)
  moreover have "(p, qview h ps) \<in> set (sview h ls)" using ps by (force simp: sview_def)
  ultimately have "map_of (sview h ls) p = Some (qview h ps)" by simp
  with level_total [OF assms ps] True show ?thesis by (auto simp: total_at_def level_qty_of_def)
next
  case False
  then have "p \<notin> fst ` set (sview h ls)" using side_relD(2) [OF assms] by (simp add: sview_def image_image case_prod_beta)
  with False show ?thesis by (auto simp: total_at_def level_qty_of_def map_of_eq_None_iff [THEN iffD2] split: option.splits)
qed

lemma enqueue_room:
  assumes "sorted_wrt (\<lambda>x y. pbetter s (fst x) (fst y)) ls" "side_fits (enqueue s p (i, q) ls)"
  shows "level_qty_of ls p + q < 2 ^ 63"
  using enqueue_split [OF assms(1), of p "(i, q)"] unfolding enqueue_at_def
proof (elim disjE exE conjE)
  fix as xs bs assume ls: "ls = as @ (p, xs) # bs" "enqueue s p (i, q) ls = as @ (p, xs @ [(i, q)]) # bs"
  have "map_of ls p = Some xs" using sorted_prices_distinct [OF assms(1)] ls(1) by (intro map_of_is_SomeI) simp_all
  with assms(2) ls(2) show ?thesis by (auto simp: level_qty_of_def side_fits_def)
next
  fix as bs assume "p \<notin> fst ` set ls" "enqueue s p (i, q) ls = as @ (p, [(i, q)]) # bs"
  then show ?thesis using assms(2) by (auto simp: level_qty_of_def side_fits_def map_of_eq_None_iff [THEN iffD2])
qed

end
