(* ===== verification/Book_Engine.thy ===== *)
theory Book_Engine
  imports Book_Core
begin

text \<open>
  The interface between the matching algorithm and a book that holds its price levels in some
  container.  \<open>level_book\<close> states what one trade, one lookup of the best level and one removal of an
  empty level do to the represented queues, and how the two loops of the algorithm are built from
  them; from this follows, once for every container, that matching stops and does what the
  specification says.  \<open>order_entry\<close> adds the entry of a new order and the cancellation.
\<close>

section \<open>Specification lemmas\<close>

lemma take_queue_rest: "take_queue i p q xs = (q', xs', fs) \<Longrightarrow> xs' \<noteq> [] \<Longrightarrow> q' \<le> 0"
  by (induction i p q xs arbitrary: q' xs' fs rule: take_queue.induct) (auto split: if_splits prod.splits)

lemma take_queue_ids: "take_queue i p q xs = (q', xs', fs) \<Longrightarrow> fst ` set xs' \<subseteq> fst ` set xs"
  by (induction i p q xs arbitrary: q' xs' fs rule: take_queue.induct) (force split: if_splits prod.splits)+

lemma take_side_ids:
  "take_side s i l q ls = (q', ls', fs) \<Longrightarrow> fst ` set (side_orders ls') \<subseteq> fst ` set (side_orders ls)"
proof (induction ls arbitrary: q q' ls' fs)
  case (Cons lv ls)
  obtain p xs where lv: "lv = (p, xs)" by (cases lv)
  from Cons.prems [unfolded lv] show ?case
  proof (cases rule: take_side_split)
    case (part xs1)
    with take_queue_ids [OF part(3)] lv show ?thesis by (auto simp: side_orders_def)
  next
    case (full q1 fs1 fs2)
    with Cons.IH [OF full(4)] lv show ?thesis by (simp add: side_orders_def image_Un le_supI2)
  qed (simp add: lv)
qed simp

lemma spec_add_accept:
  assumes "i \<notin> set (book_ids B)" "length (book_ids B) < cap"
    "take_side (opposite s) i p q (side_of (opposite s) B) = (q', ls, fs)"
  shows "spec_add cap i s p q B = (True, if q' > 0 then set_side s (enqueue s p (i, q') (side_of s B)) (set_side (opposite s) ls B)
    else set_side (opposite s) ls B, fs)"
  using assms by (cases s) (simp_all add: spec_add_def Let_def)

section \<open>Books with levels\<close>

locale level_book =
  fixes rel :: "'b \<Rightarrow> ghost \<Rightarrow> ptr set \<Rightarrow> bool"
    and levels_of :: "'b \<Rightarrow> side \<Rightarrow> levels"
    and pool_of :: "'b \<Rightarrow> pool"
    and ids_of :: "'b \<Rightarrow> id_map"
    and calls :: "'b \<Rightarrow> fill list"
    and listens :: "'b \<Rightarrow> bool"
    and keep :: "'b \<Rightarrow> 'b \<Rightarrow> bool"
    and ref :: "side \<Rightarrow> price \<Rightarrow> 'r \<Rightarrow> 'b \<Rightarrow> bool"
    and level_at :: "side \<Rightarrow> 'r \<Rightarrow> 'b \<Rightarrow> price_level option"
    and top :: "side \<Rightarrow> 'b \<Rightarrow> 'r option"
    and trade :: "side \<Rightarrow> ptr \<Rightarrow> 'r \<Rightarrow> price \<Rightarrow> 'b \<Rightarrow> 'b option"
    and close :: "side \<Rightarrow> 'r \<Rightarrow> 'b \<Rightarrow> 'b option"
    and level_loop :: "side \<Rightarrow> ptr \<Rightarrow> 'r \<Rightarrow> price \<Rightarrow> 'b \<Rightarrow> 'b option"
    and side_loop :: "side \<Rightarrow> ptr \<Rightarrow> 'b \<Rightarrow> 'b option"
  assumes rel_core: "rel b g ex \<Longrightarrow> core_rel (levels_of b) (pool_of b) (ids_of b) g ex"
    and keep_refl: "keep b b"
    and keep_trans: "keep b c \<Longrightarrow> keep c d \<Longrightarrow> keep b d"
    and keep_same: "keep b c \<Longrightarrow> listens c = listens b \<and> p_capacity (pool_of c) = p_capacity (pool_of b)"
    and level_at_ref: "rel b g ex \<Longrightarrow> ref s p r b \<Longrightarrow> level_at s r b = levels_of b s p"
    and top_empty: "rel b g ex \<Longrightarrow> g s = [] \<Longrightarrow> top s b = None"
    and top_first: "rel b g ex \<Longrightarrow> g s = (p, ps) # ls \<Longrightarrow> \<exists>r. top s b = Some r \<and> ref s p r b"
    and trade_partial: "rel b g {inc} \<Longrightarrow> g s = (p, x # xs) # ls \<Longrightarrow> ref s p r b \<Longrightarrow>
      storage (pool_of b) inc = Some io \<Longrightarrow> storage (pool_of b) x = Some xo \<Longrightarrow> fits_int64 (o_quantity io) \<Longrightarrow> 0 < o_quantity io \<Longrightarrow> o_quantity io < o_quantity xo \<Longrightarrow>
      \<exists>b'. trade s inc r p b = Some b' \<and> rel b' g {inc} \<and> ref s p r b' \<and> keep b b' \<and>
        storage (pool_of b') = (storage (pool_of b))(inc \<mapsto> io\<lparr>o_quantity := 0\<rparr>, x \<mapsto> xo\<lparr>o_quantity := o_quantity xo - o_quantity io\<rparr>) \<and>
        calls b' = calls b @ (if listens b
          then [\<lparr>resting_id = o_id xo, incoming_id = o_id io, f_price = p, f_qty = o_quantity io\<rparr>] else [])"
    and trade_full: "rel b g {inc} \<Longrightarrow> g s = (p, x # xs) # ls \<Longrightarrow> ref s p r b \<Longrightarrow>
      storage (pool_of b) inc = Some io \<Longrightarrow> storage (pool_of b) x = Some xo \<Longrightarrow> fits_int64 (o_quantity io) \<Longrightarrow> 0 < o_quantity io \<Longrightarrow> o_quantity xo \<le> o_quantity io \<Longrightarrow>
      \<exists>b'. trade s inc r p b = Some b' \<and> rel b' (g(s := (p, xs) # ls)) {inc} \<and> ref s p r b' \<and> keep b b' \<and>
        storage (pool_of b') inc = Some (io\<lparr>o_quantity := o_quantity io - o_quantity xo\<rparr>) \<and>
        (\<forall>y \<in> set xs. data (storage (pool_of b')) y = data (storage (pool_of b)) y) \<and>
        (\<forall>y. y \<notin> set (x # xs) \<union> {inc} \<longrightarrow> storage (pool_of b') y = storage (pool_of b) y) \<and>
        calls b' = calls b @ (if listens b
          then [\<lparr>resting_id = o_id xo, incoming_id = o_id io, f_price = p, f_qty = o_quantity xo\<rparr>] else [])"
    and close_law: "rel b g ex \<Longrightarrow> g s = (p, []) # ls \<Longrightarrow> ref s p r b \<Longrightarrow>
      \<exists>b'. close s r b = Some b' \<and> rel b' (g(s := ls)) ex \<and> keep b b' \<and> pool_of b' = pool_of b \<and> calls b' = calls b"
    and level_loop_stop: "storage (pool_of b) inc = Some io \<Longrightarrow> level_at s r b = Some l \<Longrightarrow> o_quantity io \<le> 0 \<or> level_empty l \<Longrightarrow>
      level_loop s inc r p b = Some b"
    and level_loop_step: "storage (pool_of b) inc = Some io \<Longrightarrow> level_at s r b = Some l \<Longrightarrow> 0 < o_quantity io \<Longrightarrow> \<not> level_empty l \<Longrightarrow>
      trade s inc r p b = Some b' \<Longrightarrow> level_loop s inc r p b = level_loop s inc r p b'"
    and side_loop_stop: "storage (pool_of b) inc = Some io \<Longrightarrow> o_quantity io \<le> 0 \<or> top s b = None \<Longrightarrow> side_loop s inc b = Some b"
    and side_loop_limit: "rel b g ex \<Longrightarrow> storage (pool_of b) inc = Some io \<Longrightarrow> top s b = Some r \<Longrightarrow> ref s p r b \<Longrightarrow>
      levels_of b s p \<noteq> None \<Longrightarrow> pbetter s (o_price io) p \<Longrightarrow> side_loop s inc b = Some b"
    and side_loop_step: "rel b g ex \<Longrightarrow> storage (pool_of b) inc = Some io \<Longrightarrow> 0 < o_quantity io \<Longrightarrow> top s b = Some r \<Longrightarrow> ref s p r b \<Longrightarrow>
      levels_of b s p \<noteq> None \<Longrightarrow> \<not> pbetter s (o_price io) p \<Longrightarrow> level_loop s inc r p b = Some c \<Longrightarrow> level_at s r c = Some l \<Longrightarrow>
      side_loop s inc b = Option.bind (if level_empty l then close s r c else Some c) (side_loop s inc)"
begin

lemma front_level:
  assumes "rel b g ex" "g s = (p, ps) # ls" "ref s p r b"
  shows "\<exists>l. level_at s r b = Some l \<and> levels_of b s p = Some l \<and> level_rep (storage (pool_of b)) l ps"
  using core_level(1) [OF rel_core [OF assms(1)], of s "[]" p ps ls] assms(2) level_at_ref [OF assms(1,3)] by auto

text \<open>
  What the loop over one level achieves, from \<open>b\<close> to \<open>b'\<close>, for the incoming order \<open>io\<close> at the pointer \<open>inc\<close>
  and the queue \<open>ps\<close> in front of the levels \<open>ls\<close>.
\<close>

definition level_done :: "side \<Rightarrow> ptr \<Rightarrow> 'r \<Rightarrow> price \<Rightarrow> order \<Rightarrow> ghost \<Rightarrow> ptr list \<Rightarrow> (price \<times> ptr list) list \<Rightarrow> 'b \<Rightarrow> ptr list \<Rightarrow> quantity \<Rightarrow> fill list \<Rightarrow> 'b \<Rightarrow> bool" where
  "level_done s inc r p io g ps ls b ps' q' fs b' \<longleftrightarrow> rel b' (g(s := (p, ps') # ls)) {inc} \<and> ref s p r b' \<and> keep b b' \<and>
     take_queue (o_id io) p (o_quantity io) (qview (storage (pool_of b)) ps) = (q', qview (storage (pool_of b')) ps', fs) \<and>
     storage (pool_of b') inc = Some (io\<lparr>o_quantity := q'\<rparr>) \<and> fits_int64 q' \<and>
     (\<forall>y. y \<notin> set ps \<union> {inc} \<longrightarrow> storage (pool_of b') y = storage (pool_of b) y) \<and>
     calls b' = calls b @ (if listens b then fs else [])"

lemma level_stop:
  assumes "rel b g {inc}" "g s = (p, ps) # ls" "ref s p r b" "storage (pool_of b) inc = Some io" "fits_int64 (o_quantity io)" "o_quantity io \<le> 0 \<or> ps = []"
  shows "level_loop s inc r p b = Some b" "level_done s inc r p io g ps ls b ps (o_quantity io) [] b"
proof -
  from front_level [OF assms(1-3)] obtain l where l: "level_at s r b = Some l" "level_rep (storage (pool_of b)) l ps" by blast
  with assms(4,6) show "level_loop s inc r p b = Some b" by (intro level_loop_stop) (auto simp: level_rep_empty_iff)
  have "g(s := (p, ps) # ls) = g" using assms(2) by auto
  moreover have "take_queue (o_id io) p (o_quantity io) (qview (storage (pool_of b)) ps) = (o_quantity io, qview (storage (pool_of b)) ps, [])"
    using assms(6) by (cases ps) auto
  ultimately show "level_done s inc r p io g ps ls b ps (o_quantity io) [] b" using assms keep_refl by (simp add: level_done_def)
qed

lemma level_step:
  assumes "rel b g {inc}" "g s = (p, x # xs) # ls" "ref s p r b" "storage (pool_of b) inc = Some io" "0 < o_quantity io" "trade s inc r p b = Some b'"
  shows "level_loop s inc r p b = level_loop s inc r p b'"
proof -
  from front_level [OF assms(1-3)] obtain l where "level_at s r b = Some l" "level_rep (storage (pool_of b)) l (x # xs)" by blast
  with assms(4-6) show ?thesis by (intro level_loop_step) (auto simp: level_rep_empty_iff)
qed

lemma queue_facts:
  assumes "rel b g {inc}" "g s = (p, x # xs) # ls"
  shows "x \<notin> set xs" "inc \<notin> set (x # xs)" "\<And>y. y \<in> set (x # xs) \<Longrightarrow> y \<in> dom (storage (pool_of b))"
proof -
  note L = core_level [OF rel_core [OF assms(1)], of s "[]" p "x # xs" ls, simplified append_Nil, OF assms(2)]
  show "x \<notin> set xs" "inc \<notin> set (x # xs)" using L(2,4) by auto
  show "y \<in> dom (storage (pool_of b))" if "y \<in> set (x # xs)" for y using L(3) [OF that] by (auto simp: resting_ok_def)
qed

lemma level_partial:
  assumes rel: "rel b g {inc}" and g: "g s = (p, x # xs) # ls" and r: "ref s p r b"
    and io: "storage (pool_of b) inc = Some io" and xo: "storage (pool_of b) x = Some xo" and fits: "fits_int64 (o_quantity io)"
    and q: "0 < o_quantity io" "o_quantity io < o_quantity xo"
  shows "\<exists>b' fs. level_loop s inc r p b = Some b' \<and> level_done s inc r p io g (x # xs) ls b (x # xs) 0 fs b'"
proof -
  let ?h = "storage (pool_of b)" and ?fs = "[\<lparr>resting_id = o_id xo, incoming_id = o_id io, f_price = p, f_qty = o_quantity io\<rparr>]"
  note F = queue_facts [OF rel g]
  from trade_partial [OF rel g r io xo fits q] obtain b' where b': "trade s inc r p b = Some b'" "rel b' g {inc}" "ref s p r b'" "keep b b'"
    "storage (pool_of b') = ?h(inc \<mapsto> io\<lparr>o_quantity := 0\<rparr>, x \<mapsto> xo\<lparr>o_quantity := o_quantity xo - o_quantity io\<rparr>)"
    "calls b' = calls b @ (if listens b then ?fs else [])" by blast
  have h': "storage (pool_of b') inc = Some (io\<lparr>o_quantity := 0\<rparr>)"
    "storage (pool_of b') x = Some (xo\<lparr>o_quantity := o_quantity xo - o_quantity io\<rparr>)"
    "\<forall>y. y \<notin> set (x # xs) \<union> {inc} \<longrightarrow> storage (pool_of b') y = ?h y" using b'(5) F(2) by auto
  have "qview (storage (pool_of b')) xs = qview ?h xs" using b'(5) F by (intro qview_cong) (auto simp: data_def)
  with h' b' q xo g have "level_done s inc r p io g (x # xs) ls b (x # xs) 0 ?fs b'" by (simp add: level_done_def fun_upd_idem fits_int64_def)
  moreover have "level_loop s inc r p b = Some b'"
    using level_step [OF rel g r io q(1) b'(1)] level_stop(1) [OF b'(2) g b'(3) h'(1)] by (simp add: fits_int64_def)
  ultimately show ?thesis by blast
qed

lemma level_full:
  assumes rel: "rel b g {inc}" and g: "g s = (p, x # xs) # ls" and r: "ref s p r b"
    and io: "storage (pool_of b) inc = Some io" and xo: "storage (pool_of b) x = Some xo" and fits: "fits_int64 (o_quantity io)"
    and q: "0 < o_quantity io" "o_quantity xo \<le> o_quantity io"
    and more: "\<And>b' io'. rel b' (g(s := (p, xs) # ls)) {inc} \<Longrightarrow> ref s p r b' \<Longrightarrow> storage (pool_of b') inc = Some io' \<Longrightarrow> fits_int64 (o_quantity io') \<Longrightarrow>
      \<exists>b'' ps' q' fs. level_loop s inc r p b' = Some b'' \<and> level_done s inc r p io' (g(s := (p, xs) # ls)) xs ls b' ps' q' fs b''"
  shows "\<exists>b'' ps' q' fs. level_loop s inc r p b = Some b'' \<and> level_done s inc r p io g (x # xs) ls b ps' q' fs b''"
proof -
  let ?h = "storage (pool_of b)" and ?f = "\<lparr>resting_id = o_id xo, incoming_id = o_id io, f_price = p, f_qty = o_quantity xo\<rparr>"
  note F = queue_facts [OF rel g]
  have "0 < o_quantity xo" using core_level(3) [OF rel_core [OF rel], of s "[]" p "x # xs" ls x] g xo by (auto simp: resting_ok_def)
  then have fits': "fits_int64 (o_quantity io - o_quantity xo)" using fits q by (simp add: fits_int64_def)
  from trade_full [OF rel g r io xo fits q] obtain b' where b': "trade s inc r p b = Some b'" "rel b' (g(s := (p, xs) # ls)) {inc}" "ref s p r b'" "keep b b'"
    "storage (pool_of b') inc = Some (io\<lparr>o_quantity := o_quantity io - o_quantity xo\<rparr>)"
    "\<And>y. y \<in> set xs \<Longrightarrow> data (storage (pool_of b')) y = data ?h y"
    "\<And>y. y \<notin> set (x # xs) \<union> {inc} \<Longrightarrow> storage (pool_of b') y = ?h y"
    "calls b' = calls b @ (if listens b then [?f] else [])" by metis
  from more [OF b'(2,3,5)] fits' obtain b'' ps' q' fs where run: "level_loop s inc r p b' = Some b''"
    and D: "level_done s inc r p (io\<lparr>o_quantity := o_quantity io - o_quantity xo\<rparr>) (g(s := (p, xs) # ls)) xs ls b' ps' q' fs b''" by auto
  have "qview (storage (pool_of b')) xs = qview ?h xs" using b'(6) F(3) by (intro qview_cong) auto
  then have "level_done s inc r p io g (x # xs) ls b ps' q' (?f # fs) b''"
    using D q b'(7,8) xo keep_trans [OF b'(4)] keep_same [OF b'(4)] by (auto simp: level_done_def)
  then show ?thesis using run level_step [OF rel g r io q(1) b'(1)] by auto
qed

lemma level_loop_ok:
  assumes "rel b g {inc}" "g s = (p, ps) # ls" "ref s p r b" "storage (pool_of b) inc = Some io" "fits_int64 (o_quantity io)"
  shows "\<exists>b' ps' q' fs. level_loop s inc r p b = Some b' \<and> level_done s inc r p io g ps ls b ps' q' fs b'"
  using assms
proof (induction ps arbitrary: b g io)
  case Nil
  with level_stop [OF Nil.prems] show ?case by blast
next
  case (Cons x xs)
  from queue_facts(3) [OF Cons.prems(1,2), of x] obtain xo where xo: "storage (pool_of b) x = Some xo" by auto
  consider "o_quantity io \<le> 0" | "0 < o_quantity io" "o_quantity io < o_quantity xo" | "0 < o_quantity io" "o_quantity xo \<le> o_quantity io" by linarith
  then show ?case
  proof cases
    case 1
    with level_stop [OF Cons.prems] show ?thesis by blast
  next
    case 2
    from level_partial [OF Cons.prems(1-4) xo Cons.prems(5) this] show ?thesis by blast
  next
    case 3
    show ?thesis by (rule level_full [OF Cons.prems(1-4) xo Cons.prems(5) 3]) (rule Cons.IH, assumption, simp, assumption+)
  qed
qed

text \<open>What the loop over the levels of a side achieves.\<close>

definition side_done :: "side \<Rightarrow> ptr \<Rightarrow> order \<Rightarrow> ghost \<Rightarrow> (price \<times> ptr list) list \<Rightarrow> 'b \<Rightarrow> (price \<times> ptr list) list \<Rightarrow> quantity \<Rightarrow> fill list \<Rightarrow> 'b \<Rightarrow> bool" where
  "side_done s inc io g ls b ls' q' fs b' \<longleftrightarrow> rel b' (g(s := ls')) {inc} \<and> (\<forall>(p, ps) \<in> set ls'. ps \<noteq> []) \<and> keep b b' \<and>
     take_side s (o_id io) (o_price io) (o_quantity io) (sview (storage (pool_of b)) ls) = (q', sview (storage (pool_of b')) ls', fs) \<and>
     storage (pool_of b') inc = Some (io\<lparr>o_quantity := q'\<rparr>) \<and>
     (\<forall>y. y \<notin> ptrs ls \<union> {inc} \<longrightarrow> storage (pool_of b') y = storage (pool_of b) y) \<and>
     calls b' = calls b @ (if listens b then fs else [])"

lemma other_levels_same:
  assumes "rel b g {inc}" "g s = (p, ps) # ls" "level_done s inc r p io g ps ls b ps' q' fs c"
  shows "sview (storage (pool_of c)) ls = sview (storage (pool_of b)) ls"
proof (rule sview_cong)
  note C = rel_core [OF assms(1)]
  fix y assume y: "y \<in> ptrs ls"
  then have "y \<notin> set ps" using core_other_ptrs(2) [OF C, of s "[]" p ps ls y] assms(2) by auto
  moreover have "y \<noteq> inc" "y \<in> dom (storage (pool_of b))" using core_relD(2,3) [OF C, where s = s] assms(2) y by auto
  ultimately show "data (storage (pool_of c)) y = data (storage (pool_of b)) y \<and> y \<in> dom (storage (pool_of b))"
    using assms(3) by (simp add: data_def level_done_def)
qed

lemma side_next:
  assumes D: "level_done s inc r p io g ps ls b [] q' fs c" and q: "0 < o_quantity io" "\<not> pbetter s (o_price io) p"
    and v: "sview (storage (pool_of c)) ls = sview (storage (pool_of b)) ls"
    and d: "keep c d" "pool_of d = pool_of c" "calls d = calls c"
    and E: "side_done s inc (io\<lparr>o_quantity := q'\<rparr>) (g(s := ls)) ls d ls' q'' fs' b'"
  shows "side_done s inc io g ((p, ps) # ls) b ls' q'' (fs @ fs') b'"
proof -
  have D': "take_queue (o_id io) p (o_quantity io) (qview (storage (pool_of b)) ps) = (q', [], fs)" "keep b c"
    "\<And>y. y \<notin> set ps \<union> {inc} \<Longrightarrow> storage (pool_of c) y = storage (pool_of b) y" "calls c = calls b @ (if listens b then fs else [])"
    using D by (simp_all add: level_done_def)
  have "listens d = listens b" using keep_same [OF D'(2)] keep_same [OF d(1)] by simp
  with D' E d v q keep_trans [OF keep_trans [OF D'(2) d(1)]] show ?thesis by (auto simp: side_done_def)
qed

lemma side_last:
  assumes D: "level_done s inc r p io g ps ls b ps' q' fs c" and ne: "ps' \<noteq> []" "\<forall>(p, ps) \<in> set ls. ps \<noteq> []"
    and q: "0 < o_quantity io" "\<not> pbetter s (o_price io) p" and v: "sview (storage (pool_of c)) ls = sview (storage (pool_of b)) ls"
  shows "side_done s inc io g ((p, ps) # ls) b ((p, ps') # ls) q' fs c" "q' \<le> 0"
proof -
  from D ne(1) take_queue_rest show "q' \<le> 0" by (fastforce simp: level_done_def)
  from D ne q v show "side_done s inc io g ((p, ps) # ls) b ((p, ps') # ls) q' fs c" by (auto simp: side_done_def level_done_def)
qed

lemma side_loop_ok:
  assumes "rel b g {inc}" "g s = ls" "storage (pool_of b) inc = Some io" "\<forall>(p, ps) \<in> set ls. ps \<noteq> []" "fits_int64 (o_quantity io)"
  shows "\<exists>b' ls' q' fs. side_loop s inc b = Some b' \<and> side_done s inc io g ls b ls' q' fs b'"
  using assms
proof (induction ls arbitrary: b g io)
  case Nil
  have "side_loop s inc b = Some b" using top_empty [OF Nil.prems(1,2)] Nil.prems(3) by (intro side_loop_stop) auto
  moreover have "side_done s inc io g [] b [] (o_quantity io) [] b" using Nil.prems keep_refl by (simp add: side_done_def fun_upd_idem)
  ultimately show ?case by blast
next
  case (Cons lv ls)
  obtain p ps where lv: "lv = (p, ps)" by (cases lv)
  note prems = Cons.prems [unfolded lv]
  obtain r where r: "top s b = Some r" "ref s p r b" using top_first [OF prems(1,2)] by blast
  from front_level [OF prems(1,2) r(2)] have l: "levels_of b s p \<noteq> None" by auto
  show ?case
  proof (cases "o_quantity io \<le> 0 \<or> pbetter s (o_price io) p")
    case True
    then have "side_loop s inc b = Some b" using side_loop_stop [OF prems(3)] side_loop_limit [OF prems(1,3) r l] by blast
    moreover have "side_done s inc io g (lv # ls) b (lv # ls) (o_quantity io) [] b"
      using True Cons.prems lv keep_refl by (simp add: side_done_def fun_upd_idem)
    ultimately show ?thesis by blast
  next
    case False
    then have q: "0 < o_quantity io" "\<not> pbetter s (o_price io) p" by auto
    from level_loop_ok [OF prems(1,2) r(2) prems(3,5)] obtain c ps' q' fs where
      c: "level_loop s inc r p b = Some c" and D: "level_done s inc r p io g ps ls b ps' q' fs c" by blast
    note v = other_levels_same [OF prems(1,2) D]
    from D have relc: "rel c (g(s := (p, ps') # ls)) {inc}" "ref s p r c" "storage (pool_of c) inc = Some (io\<lparr>o_quantity := q'\<rparr>)" "fits_int64 q'"
      by (simp_all add: level_done_def)
    from front_level [OF relc(1) _ relc(2)] obtain m where m: "level_at s r c = Some m" "level_rep (storage (pool_of c)) m ps'" by auto
    note unf = side_loop_step [OF prems(1,3) q(1) r l q(2) c m(1), unfolded level_rep_empty_iff [OF m(2)]]
    show ?thesis
    proof (cases "ps' = []")
      case True
      from close_law [OF relc(1) _ relc(2), of ls] True obtain d where
        d: "close s r c = Some d" "rel d (g(s := ls)) {inc}" "keep c d" "pool_of d = pool_of c" "calls d = calls c" by auto
      have "storage (pool_of d) inc = Some (io\<lparr>o_quantity := q'\<rparr>)" "\<forall>(p, ps) \<in> set ls. ps \<noteq> []"
        "fits_int64 (o_quantity (io\<lparr>o_quantity := q'\<rparr>))" using d(4) relc(3,4) prems(4) by simp_all
      from Cons.IH [OF d(2) fun_upd_same this] obtain b' ls' q'' fs' where
        b': "side_loop s inc d = Some b'" "side_done s inc (io\<lparr>o_quantity := q'\<rparr>) (g(s := ls)) ls d ls' q'' fs' b'" by blast
      from side_next [OF D [unfolded True] q v d(3-5) b'(2)] unf True d(1) b'(1) lv show ?thesis by auto
    next
      case ne: False
      from side_last [OF D ne _ q v] prems(4) have S: "side_done s inc io g (lv # ls) b ((p, ps') # ls) q' fs c" "q' \<le> 0"
        using lv by simp_all
      with relc(3) side_loop_stop [of c inc] have "side_loop s inc c = Some c" by auto
      with unf ne S(1) show ?thesis by auto
    qed
  qed
qed

end

section \<open>Entering and cancelling orders\<close>

lemma bview_cong:
  "(\<And>s x. x \<in> ptrs (g s) \<Longrightarrow> data h' x = data h x \<and> x \<in> dom h) \<Longrightarrow> bview h' g = bview h g"
  unfolding bview_def using sview_cong [of "g Buy" h' h] sview_cong [of "g Sell" h' h] by auto

locale order_entry = level_book +
  fixes ok_price :: "price \<Rightarrow> bool"
    and enter :: "order \<Rightarrow> 'a \<Rightarrow> ptr option \<times> 'a"
    and rest :: "ptr \<Rightarrow> 'a \<Rightarrow> 'a option"
    and leave :: "ptr \<Rightarrow> 'a \<Rightarrow> 'a option"
    and drop :: "order_id \<Rightarrow> ptr \<Rightarrow> 'a \<Rightarrow> 'a option"
  assumes enter_law: "rel b g {} \<Longrightarrow> 0 < available (pool_of b) \<Longrightarrow>
      \<exists>x b'. enter xo b = (Some x, b') \<and> rel b' g {x} \<and> keep b b' \<and> storage (pool_of b') = (storage (pool_of b))(x \<mapsto> xo) \<and>
        x \<notin> dom (storage (pool_of b)) \<and> calls b' = calls b"
    and rest_law: "rel b g {x} \<Longrightarrow> no_empty g \<Longrightarrow> storage (pool_of b) x = Some xo \<Longrightarrow> ok_price (o_price xo) \<Longrightarrow> 0 < o_quantity xo \<Longrightarrow>
      oid_map (ids_of b) (o_id xo) = None \<Longrightarrow> total_at (levels_of b (o_side xo)) (o_price xo) + o_quantity xo < 2 ^ 63 \<Longrightarrow>
      \<exists>b'. rest x b = Some b' \<and> rel b' (g(o_side xo := enqueue (o_side xo) (o_price xo) x (g (o_side xo)))) {} \<and>
        no_empty (g(o_side xo := enqueue (o_side xo) (o_price xo) x (g (o_side xo)))) \<and>
        keep b b' \<and> data (storage (pool_of b')) = data (storage (pool_of b)) \<and> calls b' = calls b"
    and rest_overflow: "rel b g {x} \<Longrightarrow> no_empty g \<Longrightarrow> storage (pool_of b) x = Some xo \<Longrightarrow> ok_price (o_price xo) \<Longrightarrow>
      2 ^ 63 \<le> total_at (levels_of b (o_side xo)) (o_price xo) + o_quantity xo \<Longrightarrow> rest x b = None"
    and leave_law: "rel b g {x} \<Longrightarrow>
      \<exists>b'. leave x b = Some b' \<and> rel b' g {} \<and> keep b b' \<and> storage (pool_of b') = (storage (pool_of b))(x := None) \<and> calls b' = calls b"
    and drop_law: "rel b g {} \<Longrightarrow> g s = as @ (p, xs @ x # ys) # bs \<Longrightarrow> storage (pool_of b) x = Some xo \<Longrightarrow> o_side xo = s \<Longrightarrow> o_price xo = p \<Longrightarrow> o_id xo = i \<Longrightarrow>
      \<exists>b'. drop i x b = Some b' \<and> rel b' (g(s := unlinked as p (xs @ ys) bs)) {} \<and> keep b b' \<and>
        data (storage (pool_of b')) = (data (storage (pool_of b)))(x := None) \<and> calls b' = calls b"
begin

text \<open>The books at rest that represent \<open>B\<close>.\<close>

definition represents :: "'a \<Rightarrow> spec_book \<Rightarrow> bool" where
  "represents b B \<longleftrightarrow> (\<exists>g. rel b g {} \<and> no_empty g \<and> B = bview (storage (pool_of b)) g)"

text \<open>The incoming order trades with the opposite side.\<close>

lemma match_ok:
  assumes rel: "rel b g {x}" and ne: "no_empty g" and xo: "storage (pool_of b) x = Some xo" "o_side xo = s" "fits_int64 (o_quantity xo)"
  shows "\<exists>b' ls q' fs. side_loop (opposite s) x b = Some b' \<and> rel b' (g(opposite s := ls)) {x} \<and> no_empty (g(opposite s := ls)) \<and> keep b b' \<and>
    storage (pool_of b') x = Some (xo\<lparr>o_quantity := q'\<rparr>) \<and>
    take_side (opposite s) (o_id xo) (o_price xo) (o_quantity xo) (sview (storage (pool_of b)) (g (opposite s))) = (q', sview (storage (pool_of b')) ls, fs) \<and>
    sview (storage (pool_of b')) (g s) = sview (storage (pool_of b)) (g s) \<and> calls b' = calls b @ (if listens b then fs else [])"
proof -
  have "\<forall>(p, ps) \<in> set (g (opposite s)). ps \<noteq> []" using ne by (simp add: no_empty_def)
  from side_loop_ok [OF rel refl xo(1) this xo(3)] obtain b' ls q' fs where
    b': "side_loop (opposite s) x b = Some b'" and D: "side_done (opposite s) x xo g (g (opposite s)) b ls q' fs b'" by blast
  have "sview (storage (pool_of b')) (g s) = sview (storage (pool_of b)) (g s)"
  proof (rule sview_cong)
    note C = core_relD [OF rel_core [OF rel], where s = s]
    fix y assume y: "y \<in> ptrs (g s)"
    then have "y \<notin> ptrs (g (opposite s)) \<union> {x}" using C(3,5) by auto
    with D y show "data (storage (pool_of b')) y = data (storage (pool_of b)) y \<and> y \<in> dom (storage (pool_of b))"
      using C(2) by (simp add: data_def side_done_def)
  qed
  moreover have "no_empty (g(opposite s := ls))" using ne D by (simp add: no_empty_def side_done_def)
  ultimately show ?thesis using b' D by (auto simp: side_done_def)
qed

lemma id_stays_new:
  assumes rel: "rel b' (g(opposite s := ls)) {x}" and ts: "take_side (opposite s) i p q (sview h (g (opposite s))) = (q', sview (storage (pool_of b')) ls, fs)"
    and v: "sview (storage (pool_of b')) (g s) = sview h (g s)" and new: "i \<notin> set (book_ids (bview h g))"
  shows "oid_map (ids_of b') i = None"
proof (rule ccontr)
  assume "oid_map (ids_of b') i \<noteq> None"
  then have "i \<in> set (book_ids (bview (storage (pool_of b')) (g(opposite s := ls))))" using known_id [OF rel_core [OF rel], of i] by auto
  then have "i \<in> fst ` set (side_orders (sview (storage (pool_of b')) ls)) \<union> fst ` set (side_orders (sview h (g s)))"
    using v by (cases s) (auto simp: book_ids_def bview_def)
  with take_side_ids [OF ts] have "i \<in> set (book_ids (bview h g))" by (cases s) (auto simp: book_ids_def bview_def)
  with new show False by simp
qed

text \<open>What is left of the order rests, or the order leaves the book.\<close>

lemma rest_represents:
  assumes rel: "rel b (g(opposite s := ls)) {x}" "no_empty (g(opposite s := ls))" and x: "storage (pool_of b) x = Some xo" "o_side xo = s"
    and ok: "ok_price (o_price xo)" "0 < o_quantity xo" "oid_map (ids_of b) (o_id xo) = None"
      "total_at (levels_of b s) (o_price xo) + o_quantity xo < 2 ^ 63" and v: "sview (storage (pool_of b)) (g s) = sview h (g s)"
  shows "\<exists>b'. rest x b = Some b' \<and> keep b b' \<and> calls b' = calls b \<and>
    represents b' (set_side s (enqueue s (o_price xo) (o_id xo, o_quantity xo) (sview h (g s))) (set_side (opposite s) (sview (storage (pool_of b)) ls) (bview h g)))"
proof -
  let ?g = "g(opposite s := ls)" let ?g' = "?g(s := enqueue s (o_price xo) x (?g s))"
  from rest_law [OF rel x(1) ok(1-3)] ok(4) x(2) obtain b' where b': "rest x b = Some b'" "rel b' ?g' {}" "no_empty ?g'" "keep b b'"
    "data (storage (pool_of b')) = data (storage (pool_of b))" "calls b' = calls b" by auto
  from data_eq_Some [OF b'(5) x(1)] obtain xr where xr: "storage (pool_of b') x = Some xr" "o_id xr = o_id xo" "o_quantity xr = o_quantity xo"
    by (auto dest: payload_eqD(1,4))
  have "bview (storage (pool_of b')) ?g' = set_side s (enqueue s (o_price xo) (o_id xo, o_quantity xo) (sview h (g s)))
      (set_side (opposite s) (sview (storage (pool_of b)) ls) (bview h g))"
    using v xr sview_data [OF b'(5)] by (cases s) (simp_all add: bview_def enqueue_sview)
  with b' show ?thesis unfolding represents_def by metis
qed

lemma leave_represents:
  assumes rel: "rel b (g(opposite s := ls)) {x}" "no_empty (g(opposite s := ls))" and v: "sview (storage (pool_of b)) (g s) = sview h (g s)"
  shows "\<exists>b'. leave x b = Some b' \<and> keep b b' \<and> calls b' = calls b \<and> represents b' (set_side (opposite s) (sview (storage (pool_of b)) ls) (bview h g))"
proof -
  let ?g = "g(opposite s := ls)"
  from leave_law [OF rel(1)] obtain b' where b': "leave x b = Some b'" "rel b' ?g {}" "keep b b'"
    "storage (pool_of b') = (storage (pool_of b))(x := None)" "calls b' = calls b" by blast
  have "bview (storage (pool_of b')) ?g = bview (storage (pool_of b)) ?g"
  proof (rule bview_cong)
    fix t y assume "y \<in> ptrs (?g t)"
    then have "y \<noteq> x" "y \<in> dom (storage (pool_of b))" using core_relD(2,3) [OF rel_core [OF rel(1)], where s = t] by auto
    then show "data (storage (pool_of b')) y = data (storage (pool_of b)) y \<and> y \<in> dom (storage (pool_of b))" using b'(4) by (simp add: data_def)
  qed
  also have "\<dots> = set_side (opposite s) (sview (storage (pool_of b)) ls) (bview h g)" using v by (cases s) (simp_all add: bview_def)
  finally show ?thesis using b' rel(2) unfolding represents_def by metis
qed

text \<open>The outcome when the order rests: it depends on the total at its price only.\<close>

lemma represents_fits: "represents b B \<Longrightarrow> book_fits B"
  using core_levels_fit [OF rel_core] by (auto simp: represents_def)

lemma rest_outcome:
  assumes rel: "rel b (g(opposite s := ls)) {x}" "no_empty (g(opposite s := ls))" and x: "storage (pool_of b) x = Some xo" "o_side xo = s"
    and ok: "ok_price (o_price xo)" "0 < o_quantity xo" "oid_map (ids_of b) (o_id xo) = None" and v: "sview (storage (pool_of b)) (g s) = sview h (g s)"
    and B: "B' = set_side s (enqueue s (o_price xo) (o_id xo, o_quantity xo) (sview h (g s))) (set_side (opposite s) (sview (storage (pool_of b)) ls) (bview h g))"
  shows "book_fits B' \<longrightarrow> (\<exists>b'. rest x b = Some b' \<and> keep b b' \<and> calls b' = calls b \<and> represents b' B')"
    "\<not> book_fits B' \<longrightarrow> rest x b = None"
proof -
  let ?t = "total_at (levels_of b s) (o_price xo)"
  note S = core_relD(1) [OF rel_core [OF rel(1)], of s]
  have run: "\<exists>b'. rest x b = Some b' \<and> keep b b' \<and> calls b' = calls b \<and> represents b' B'" if "?t + o_quantity xo < 2 ^ 63"
    unfolding B by (rule rest_represents [OF rel x ok that v])
  have "?t + o_quantity xo < 2 ^ 63" if "book_fits B'"
  proof -
    have "?t = level_qty_of (sview h (g s)) (o_price xo)" using total_at_view [OF S] v by simp
    moreover have "sorted_wrt (\<lambda>x y. pbetter s (fst x) (fst y)) (sview h (g s))"
      using side_relD(1) [OF S] by (simp add: sview_def sorted_wrt_map case_prod_beta)
    moreover have "side_fits (enqueue s (o_price xo) (o_id xo, o_quantity xo) (sview h (g s)))"
      using that by (simp add: B book_fits_sides [of _ s])
    ultimately show ?thesis using enqueue_room by simp
  qed
  with run show "book_fits B' \<longrightarrow> (\<exists>b'. rest x b = Some b' \<and> keep b b' \<and> calls b' = calls b \<and> represents b' B')" by blast
  have "2 ^ 63 \<le> ?t + o_quantity xo" if "\<not> book_fits B'" using run represents_fits that by force
  with rest_overflow [OF rel x(1) ok(1)] x(2) show "\<not> book_fits B' \<longrightarrow> rest x b = None" by blast
qed

text \<open>
  An accepted order: the calls that the code makes, in their order, return, and lead where the specification says, unless the
  total of the level that it joins overflows.
\<close>

definition accepts :: "ptr \<Rightarrow> quantity \<Rightarrow> 'a \<Rightarrow> 'a \<Rightarrow> spec_book \<Rightarrow> fill list \<Rightarrow> bool" where
  "accepts x q' b b2 B' fs \<longleftrightarrow>
     (book_fits B' \<longrightarrow> (\<exists>b3. (if 0 < q' then rest x b2 else leave x b2) = Some b3 \<and> represents b3 B' \<and> keep b b3 \<and>
        calls b3 = calls b @ (if listens b then fs else []))) \<and>
     (\<not> book_fits B' \<longrightarrow> 0 < q' \<and> rest x b2 = None)"

lemma accept_ok:
  assumes rel: "rel b g {}" and ne: "no_empty g" and B: "B = bview (storage (pool_of b)) g"
    and xo: "xo = \<lparr>o_id = i, o_side = s, o_price = p, o_quantity = q, o_timestamp = ts, o_prev = None, o_next = None\<rparr>"
    and ok: "ok_price p" "fits_int64 q" "oid_map (ids_of b) i = None" "0 < available (pool_of b)"
  shows "\<exists>x b1 b2 q' B' fs. enter xo b = (Some x, b1) \<and> storage (pool_of b1) x = Some xo \<and> side_loop (opposite s) x b1 = Some b2 \<and>
    storage (pool_of b2) x = Some (xo\<lparr>o_quantity := q'\<rparr>) \<and> spec_add (p_capacity (pool_of b)) i s p q B = (True, B', fs) \<and> accepts x q' b b2 B' fs"
proof -
  let ?h = "storage (pool_of b)"
  note C = rel_core [OF rel]
  have new: "i \<notin> set (book_ids B)" using known_id [OF C, of i] ok(3) B by auto
  have cap: "length (book_ids B) < p_capacity (pool_of b)" using core_available [OF C] ok(4) B by simp
  from enter_law [OF rel ok(4), of xo] obtain x b1 where A: "enter xo b = (Some x, b1)" "rel b1 g {x}" "keep b b1"
    "storage (pool_of b1) = ?h(x \<mapsto> xo)" "x \<notin> dom ?h" "calls b1 = calls b" by blast
  have keep1: "sview (storage (pool_of b1)) (g t) = sview ?h (g t)" for t
    using A(4,5) core_relD(2) [OF C, where s = t] by (intro sview_cong) (auto simp: data_def)
  have x1: "storage (pool_of b1) x = Some xo" using A(4) by simp
  from match_ok [OF A(2) ne x1, of s] ok(2) obtain b2 ls q' fs where
    M: "side_loop (opposite s) x b1 = Some b2" "rel b2 (g(opposite s := ls)) {x}" "no_empty (g(opposite s := ls))" "keep b1 b2"
      "storage (pool_of b2) x = Some (xo\<lparr>o_quantity := q'\<rparr>)"
      "take_side (opposite s) i p q (sview ?h (g (opposite s))) = (q', sview (storage (pool_of b2)) ls, fs)"
      "sview (storage (pool_of b2)) (g s) = sview ?h (g s)" "calls b2 = calls b @ (if listens b then fs else [])"
    unfolding keep1 using xo A(6) keep_same [OF A(3)] by auto
  note spec = spec_add_accept [OF new cap, of s p q q' "sview (storage (pool_of b2)) ls" fs, unfolded B bview_side, OF M(6), folded B]
  define B' where "B' = (if q' > 0 then set_side s (enqueue s p (i, q') (sview ?h (g s))) (set_side (opposite s) (sview (storage (pool_of b2)) ls) B)
    else set_side (opposite s) (sview (storage (pool_of b2)) ls) B)"
  have keep2: "keep b b3" if "keep b2 b3" for b3 by (rule keep_trans [OF A(3) keep_trans [OF M(4) that]])
  have "accepts x q' b b2 B' fs"
  proof (cases "0 < q'")
    case True
    have "oid_map (ids_of b2) i = None" using id_stays_new [OF M(2,6,7)] new B by simp
    with rest_outcome [OF M(2,3,5) _ _ _ _ M(7), of B'] True xo ok(1) B M(8) keep2 show ?thesis by (auto simp: B'_def accepts_def)
  next
    case False
    from leave_represents [OF M(2,3,7)] obtain b3 where b3: "leave x b2 = Some b3" "keep b2 b3" "calls b3 = calls b2" "represents b3 B'"
      using False B by (auto simp: B'_def)
    with False M(8) keep2 represents_fits show ?thesis by (auto simp: accepts_def)
  qed
  moreover have "spec_add (p_capacity (pool_of b)) i s p q B = (True, B', fs)" using spec by (simp add: B'_def B bview_side)
  ultimately show ?thesis using A(1) x1 M(1,5) by blast
qed

text \<open>A known id is cancelled.\<close>

lemma drop_ok:
  assumes rel: "rel b g {}" and ne: "no_empty g" and B: "B = bview (storage (pool_of b)) g" and i: "oid_map (ids_of b) i = Some x"
  shows "\<exists>b'. drop i x b = Some b' \<and> spec_cancel i B = (True, snd (spec_cancel i B)) \<and> represents b' (snd (spec_cancel i B)) \<and> keep b b' \<and> calls b' = calls b"
proof -
  let ?h = "storage (pool_of b)"
  note C = rel_core [OF rel]
  have mem: "i \<in> set (book_ids B)" using known_id [OF C, of i] i B by auto
  from resting_position [OF C i] obtain s as p xs ys bs xo where
    g: "g s = as @ (p, xs @ x # ys) # bs" and xo: "?h x = Some xo" "o_side xo = s" "o_price xo = p" "o_id xo = i" by blast
  from drop_law [OF rel g xo] obtain b' where b': "drop i x b = Some b'" "rel b' (g(s := unlinked as p (xs @ ys) bs)) {}" "keep b b'"
    "data (storage (pool_of b')) = (data ?h)(x := None)" "calls b' = calls b" by blast
  let ?g = "g(s := unlinked as p (xs @ ys) bs)"
  have "bview (storage (pool_of b')) ?g = bview ?h ?g"
  proof (rule bview_cong)
    fix t y assume "y \<in> ptrs (?g t)"
    then have "y \<in> dom (storage (pool_of b'))" using core_relD(2) [OF rel_core [OF b'(2)], where s = t] by blast
    then have "data (storage (pool_of b')) y \<noteq> None" by (auto simp: data_def)
    then show "data (storage (pool_of b')) y = data ?h y \<and> y \<in> dom ?h" using b'(4) by (auto simp: data_def split: if_splits)
  qed
  also have "\<dots> = snd (spec_cancel i B)" using cancel_view [OF C ne g i] B mem by (cases s) (simp_all add: bview_def spec_cancel_def)
  finally have v: "snd (spec_cancel i B) = bview (storage (pool_of b')) ?g" by simp
  have "\<forall>(q, qs) \<in> set (as @ (p, xs @ x # ys) # bs). qs \<noteq> []" using ne g by (metis no_empty_def)
  then have "no_empty ?g" using ne by (auto simp: no_empty_def unlinked_def)
  then have "represents b' (snd (spec_cancel i B))" using b'(2) unfolding represents_def v by blast
  with b' mem show ?thesis by (auto simp: spec_cancel_def)
qed

end

end
