(* ===== verification/Order_Book.thy ===== *)
theory Order_Book
  imports Level_Ladder Memory_Pool Order_Id_Map
begin

text \<open>
  The class \<^verbatim>\<open>OrderBook\<close> of \<^verbatim>\<open>include/order_book.hpp\<close>: two ladders, the order pool and the id
  map, and the operations that add, match and cancel orders.  The fill handler is a function
  pointer supplied by the client; \<open>fill_log\<close> is the sequence of the calls made to it, and stays
  empty when the pointer is null.

  The loops are \<^theory_text>\<open>partial_function\<close>s of the option monad: a loop that does not stop, like a
  read through a dead pointer or an overflow of a quantity, is \<^const>\<open>None\<close>.
\<close>

section \<open>State\<close>

record book_stats =
  pool_exhausted :: u64
  duplicate_id :: u64

record order_book =
  bids :: ladder
  asks :: ladder
  book_pool :: pool
  order_ids :: id_map
  has_handler :: bool
  fill_log :: "fill list"
  stats :: book_stats

text \<open>
  The loop of \<^verbatim>\<open>id_map_capacity\<close>: the smallest power of two that is at least \<open>2 * PoolCapacity\<close>.  It runs at compile time
  on a \<^verbatim>\<open>std::size_t\<close>; no shift of it leaves 64 bits as long as \<open>2 * PoolCapacity\<close> is at most \<open>2 ^ 63\<close>, see \<open>capacity_loop_bound\<close> below.
\<close>

function capacity_loop :: "nat \<Rightarrow> nat \<Rightarrow> nat" where
  "capacity_loop pool_capacity n =
     (if 0 < n \<and> n < 2 * pool_capacity then capacity_loop pool_capacity (push_bit 1 n) else n)"
  by pat_completeness auto
termination
  by (relation "measure (\<lambda>(c, n). 2 * c - n)") (auto simp: push_bit_eq_mult)

declare capacity_loop.simps [simp del]

lemma capacity_loop_bound: "n \<le> m \<Longrightarrow> is_pow2 n \<Longrightarrow> 2 * c \<le> m \<Longrightarrow> is_pow2 m \<Longrightarrow> capacity_loop c n \<le> m"
proof (induction c n rule: capacity_loop.induct)
  case (1 c n)
  show ?case
  proof (cases "0 < n \<and> n < 2 * c")
    case True
    from "1.prems" obtain j k where jk: "n = 2 ^ j" "m = 2 ^ k" by (auto simp: is_pow2_iff)
    with True "1.prems"(3) have "(2 :: nat) ^ j < 2 ^ k" by linarith
    then have "j < k" by simp
    then have "(2 :: nat) ^ Suc j \<le> 2 ^ k" by (intro power_increasing) simp_all
    then have "push_bit 1 n \<le> m" "is_pow2 (push_bit 1 n)"
      using jk is_pow2_power [of "Suc j"] by (simp_all add: push_bit_eq_mult mult.commute)
    with "1.IH" [OF True] "1.prems" True show ?thesis by (subst capacity_loop.simps) simp
  next
    case False
    then show ?thesis using "1.prems" by (subst capacity_loop.simps) auto
  qed
qed

definition id_map_capacity :: "nat \<Rightarrow> nat" where
  "id_map_capacity pool_capacity = capacity_loop pool_capacity 1"

definition new_book :: "bool \<Rightarrow> nat \<Rightarrow> nat \<Rightarrow> order_book" where
  "new_book handler cap w = \<lparr>bids = new_ladder True w cap, asks = new_ladder False w cap,
     book_pool = new_pool cap, order_ids = new_id_map (id_map_capacity cap), has_handler = handler,
     fill_log = [], stats = \<lparr>pool_exhausted = 0, duplicate_id = 0\<rparr>\<rparr>"

text \<open>The resting orders of one side, and the object store.\<close>

fun ladder_of :: "side \<Rightarrow> order_book \<Rightarrow> ladder" where
  "ladder_of Buy b = bids b"
| "ladder_of Sell b = asks b"

fun set_ladder :: "side \<Rightarrow> ladder \<Rightarrow> order_book \<Rightarrow> order_book" where
  "set_ladder Buy L b = b\<lparr>bids := L\<rparr>"
| "set_ladder Sell L b = b\<lparr>asks := L\<rparr>"

definition book_heap :: "order_book \<Rightarrow> heap" where
  "book_heap b = storage (book_pool b)"

definition set_heap :: "heap \<Rightarrow> order_book \<Rightarrow> order_book" where
  "set_heap h b = b\<lparr>book_pool := (book_pool b)\<lparr>storage := h\<rparr>\<rparr>"

section \<open>Operations\<close>

definition emit_fill :: "fill \<Rightarrow> order_book \<Rightarrow> order_book" where
  "emit_fill f b = (if has_handler b then b\<lparr>fill_log := fill_log b @ [f]\<rparr> else b)"

text \<open>
  The body of the loop of \<^verbatim>\<open>match_against_level\<close>.  The level is a reference into the ladder of
  side \<open>s\<close>; it is read and written there, as the C++ reference parameter is.
\<close>

definition match_step :: "side \<Rightarrow> ptr \<Rightarrow> level_ref \<Rightarrow> price \<Rightarrow> order_book \<Rightarrow> order_book option" where
  "match_step s incoming r trade_price b = do {
     level \<leftarrow> deref (ladder_of s b) r;
     resting \<leftarrow> l_head level;
     inc \<leftarrow> book_heap b incoming;
     res \<leftarrow> book_heap b resting;
     traded \<leftarrow> Some (min (o_quantity inc) (o_quantity res));
     left \<leftarrow> checked64 (o_quantity inc - traded);
     h \<leftarrow> modify (book_heap b) incoming (\<lambda>x. x\<lparr>o_quantity := left\<rparr>);
     (h, level) \<leftarrow> reduce_head h level traded;
     L \<leftarrow> store_level (ladder_of s b) r level;
     b \<leftarrow> Some (set_ladder s L (set_heap h b));
     b \<leftarrow> Some (emit_fill \<lparr>resting_id = o_id res, incoming_id = o_id inc, f_price = trade_price, f_qty = traded\<rparr> b);
     res \<leftarrow> book_heap b resting;
     if o_quantity res = 0
     then do {
       (h, level) \<leftarrow> remove (book_heap b) level resting;
       L \<leftarrow> store_level (ladder_of s b) r level;
       b \<leftarrow> Some (set_ladder s L (set_heap h b));
       dead \<leftarrow> book_heap b resting;
       b \<leftarrow> Some (b\<lparr>order_ids := snd (oid_erase (order_ids b) (o_id dead))\<rparr>);
       P \<leftarrow> release (book_pool b) resting;
       Some (b\<lparr>book_pool := P\<rparr>) }
     else Some b }"

partial_function (option) match_against_level ::
  "side \<Rightarrow> ptr \<Rightarrow> level_ref \<Rightarrow> price \<Rightarrow> order_book \<Rightarrow> order_book option" where
  "match_against_level s incoming r trade_price b =
     Option.bind (book_heap b incoming) (\<lambda>inc.
     Option.bind (deref (ladder_of s b) r) (\<lambda>level.
       if o_quantity inc > 0 \<and> \<not> level_empty level
       then Option.bind (match_step s incoming r trade_price b) (match_against_level s incoming r trade_price)
       else Some b))"

text \<open>
  The two loops of \<^verbatim>\<open>match\<close> differ in the ladder they look at and in the test that no price
  crosses any more; \<open>s\<close> is the side of the resting orders.
\<close>

definition no_cross :: "side \<Rightarrow> price \<Rightarrow> price \<Rightarrow> bool" where
  "no_cross s best_price price = (case s of Sell \<Rightarrow> best_price > price | Buy \<Rightarrow> best_price < price)"

partial_function (option) match_loop :: "side \<Rightarrow> ptr \<Rightarrow> order_book \<Rightarrow> order_book option" where
  "match_loop s incoming b =
     Option.bind (book_heap b incoming) (\<lambda>inc.
       if o_quantity inc > 0
       then (case best (ladder_of s b) of
           None \<Rightarrow> Some b
         | Some r \<Rightarrow>
             Option.bind (deref (ladder_of s b) r) (\<lambda>level.
               if no_cross s (l_price level) (o_price inc) then Some b
               else Option.bind (match_against_level s incoming r (l_price level) b) (\<lambda>b.
                 Option.bind (deref (ladder_of s b) r) (\<lambda>level.
                   Option.bind (if level_empty level
                       then Option.bind (erase_level (ladder_of s b) r) (\<lambda>L. Some (set_ladder s L b))
                       else Some b) (\<lambda>b.
                     match_loop s incoming b)))))
       else Some b)"

definition match_order :: "ptr \<Rightarrow> order_book \<Rightarrow> order_book option" where
  "match_order incoming b = do {
     inc \<leftarrow> book_heap b incoming;
     match_loop (opposite (o_side inc)) incoming b }"

text \<open>The price and the quantity are of type \<^verbatim>\<open>std::int64_t\<close>: with an integer outside this type there is no such call.\<close>

definition add_order :: "order_id \<Rightarrow> side \<Rightarrow> price \<Rightarrow> quantity \<Rightarrow> nanos \<Rightarrow> order_book \<Rightarrow> (bool \<times> order_book) option" where
  "add_order oid s price qty ts b =
     (if \<not> (fits_int64 price \<and> fits_int64 qty) then None
      else if oid_find (order_ids b) oid \<noteq> None
      then Some (False, b\<lparr>stats := (stats b)\<lparr>duplicate_id := duplicate_id (stats b) + 1\<rparr>\<rparr>)
      else
       (case allocate (book_pool b) \<lparr>o_id = oid, o_side = s, o_price = price, o_quantity = qty,
           o_timestamp = ts, o_prev = None, o_next = None\<rparr> of
          (None, P) \<Rightarrow> Some (False, b\<lparr>book_pool := P,
            stats := (stats b)\<lparr>pool_exhausted := pool_exhausted (stats b) + 1\<rparr>\<rparr>)
        | (Some ptr, P) \<Rightarrow> do {
            b \<leftarrow> match_order ptr (b\<lparr>book_pool := P\<rparr>);
            x \<leftarrow> book_heap b ptr;
            if o_quantity x > 0
            then do {
              (L, r) \<leftarrow> level_for_insert (ladder_of (o_side x) b) (o_price x);
              level \<leftarrow> deref L r;
              (h, level) \<leftarrow> push_back (book_heap b) level ptr;
              L \<leftarrow> store_level L r level;
              m \<leftarrow> oid_insert (order_ids b) (o_id x) (Some ptr);
              Some (True, (set_ladder (o_side x) L (set_heap h b))\<lparr>order_ids := m\<rparr>) }
            else do {
              P \<leftarrow> release (book_pool b) ptr;
              Some (True, b\<lparr>book_pool := P\<rparr>) } }))"

definition remove_from_book :: "side \<Rightarrow> ptr \<Rightarrow> order_book \<Rightarrow> (bool \<times> order_book) option" where
  "remove_from_book s ptr b = do {
     x \<leftarrow> book_heap b ptr;
     case find_level (ladder_of s b) (o_price x) of
       None \<Rightarrow> Some (False, b)
     | Some r \<Rightarrow> do {
         level \<leftarrow> deref (ladder_of s b) r;
         (h, level) \<leftarrow> remove (book_heap b) level ptr;
         L \<leftarrow> store_level (ladder_of s b) r level;
         L \<leftarrow> (if level_empty level then erase_level L r else Some L);
         Some (True, set_ladder s L (set_heap h b)) } }"

definition cancel_order :: "order_id \<Rightarrow> order_book \<Rightarrow> (bool \<times> order_book) option" where
  "cancel_order oid b =
     (case oid_find (order_ids b) oid of
        None \<Rightarrow> Some (False, b)
      | Some ptr \<Rightarrow> do {
          x \<leftarrow> book_heap b ptr;
          (erased, b) \<leftarrow> remove_from_book (o_side x) ptr b;
          if \<not> erased then Some (False, b)
          else do {
            b \<leftarrow> Some (b\<lparr>order_ids := snd (oid_erase (order_ids b) oid)\<rparr>);
            P \<leftarrow> release (book_pool b) ptr;
            Some (True, b\<lparr>book_pool := P\<rparr>) } })"

text \<open>The \<^verbatim>\<open>Price&\<close> output parameter is the value under \<^const>\<open>Some\<close>.\<close>

definition best_bid :: "order_book \<Rightarrow> price option option" where
  "best_bid b = (case best (bids b) of None \<Rightarrow> Some None
     | Some r \<Rightarrow> do { l \<leftarrow> deref (bids b) r; Some (Some (l_price l)) })"

definition best_ask :: "order_book \<Rightarrow> price option option" where
  "best_ask b = (case best (asks b) of None \<Rightarrow> Some None
     | Some r \<Rightarrow> do { l \<leftarrow> deref (asks b) r; Some (Some (l_price l)) })"

text \<open>The caller's array is the list of the entries written, in order.\<close>

definition copy_top :: "ladder \<Rightarrow> nat \<Rightarrow> level_qty list" where
  "copy_top L max_levels =
     for_each_best L max_levels (\<lambda>l out. out @ [\<lparr>lq_price = l_price l, lq_qty = total_qty l\<rparr>]) []"

definition top_levels :: "side \<Rightarrow> nat \<Rightarrow> order_book \<Rightarrow> level_qty list" where
  "top_levels s max_levels b = (if s = Buy then copy_top (bids b) max_levels else copy_top (asks b) max_levels)"

text \<open>The lambda of \<^verbatim>\<open>total_resting_qty\<close>, on the captured \<^verbatim>\<open>total\<close>.\<close>

definition add_level :: "price_level \<Rightarrow> quantity option \<Rightarrow> quantity option" where
  "add_level l acc = do { total \<leftarrow> acc; checked64 (total + total_qty l) }"

definition total_resting_qty :: "order_book \<Rightarrow> quantity option" where
  "total_resting_qty b = for_each_level (asks b) add_level (for_each_level (bids b) add_level (Some 0))"

end
