(* ===== verification/Book_Refine.thy ===== *)
theory Book_Refine
  imports Book_Engine Order_Book
begin

text \<open>
  The order book implements its specification.  With the ladders as containers it is an instance
  of \<open>order_entry\<close>: each law is a step of the code on the ladder, the queue and the tables together.
  The refinement of \<open>add_order\<close> and \<open>cancel_order\<close> then follows from the lemmas of that interface.
\<close>

section \<open>The simulation relation\<close>

definition ladders_ok :: "order_book \<Rightarrow> bool" where
  "ladders_ok b \<longleftrightarrow> (\<forall>s. ladder_inv (ladder_of s b) \<and> is_bid (ladder_of s b) = (s = Buy) \<and>
     t_capacity (tail (ladder_of s b)) = p_capacity (book_pool b))"

abbreviation ladder_levels :: "order_book \<Rightarrow> side \<Rightarrow> levels" where
  "ladder_levels b \<equiv> \<lambda>s. amap (ladder_of s b)"

definition book_rel :: "order_book \<Rightarrow> ghost \<Rightarrow> ptr set \<Rightarrow> bool" where
  "book_rel b g ex \<longleftrightarrow> ladders_ok b \<and> core_rel (ladder_levels b) (book_pool b) (order_ids b) g ex"

text \<open>The relation of a book at rest to its specification.\<close>

definition refines :: "order_book \<Rightarrow> spec_book \<Rightarrow> bool" where
  "refines b B \<longleftrightarrow> (\<exists>g. book_rel b g {} \<and> no_empty g \<and> B = bview (book_heap b) g)"

section \<open>The book's components\<close>

lemma ladder_of_set_ladder [simp]:
  "ladder_of s (set_ladder s' L b) = (if s = s' then L else ladder_of s b)"
  by (cases s; cases s') simp_all

lemma ladder_of_upd [simp]:
  "ladder_of s (set_heap h b) = ladder_of s b" "ladder_of s (b\<lparr>book_pool := P\<rparr>) = ladder_of s b"
  "ladder_of s (b\<lparr>order_ids := m\<rparr>) = ladder_of s b" "ladder_of s (b\<lparr>stats := st\<rparr>) = ladder_of s b"
  "ladder_of s (emit_fill f b) = ladder_of s b" "ladder_of s (b\<lparr>fill_log := fl\<rparr>) = ladder_of s b"
  by (cases s; simp add: set_heap_def emit_fill_def)+

lemma set_ladder_sel [simp]:
  "book_pool (set_ladder s L b) = book_pool b" "order_ids (set_ladder s L b) = order_ids b"
  "has_handler (set_ladder s L b) = has_handler b" "fill_log (set_ladder s L b) = fill_log b"
  "stats (set_ladder s L b) = stats b" "book_heap (set_ladder s L b) = book_heap b"
  by (cases s; simp add: book_heap_def)+

lemma set_heap_sel [simp]:
  "book_heap (set_heap h b) = h" "book_pool (set_heap h b) = (book_pool b)\<lparr>storage := h\<rparr>"
  "order_ids (set_heap h b) = order_ids b" "has_handler (set_heap h b) = has_handler b"
  "fill_log (set_heap h b) = fill_log b" "stats (set_heap h b) = stats b"
  by (simp_all add: set_heap_def book_heap_def)

lemma emit_fill_sel [simp]:
  "book_heap (emit_fill f b) = book_heap b" "book_pool (emit_fill f b) = book_pool b"
  "order_ids (emit_fill f b) = order_ids b" "has_handler (emit_fill f b) = has_handler b"
  "stats (emit_fill f b) = stats b"
  "fill_log (emit_fill f b) = fill_log b @ (if has_handler b then [f] else [])"
  by (simp_all add: emit_fill_def book_heap_def)

lemma book_heap_upd [simp]:
  "book_heap (b\<lparr>book_pool := P\<rparr>) = storage P" "book_heap (b\<lparr>order_ids := m\<rparr>) = book_heap b"
  "book_heap (b\<lparr>stats := st\<rparr>) = book_heap b"
  by (simp_all add: book_heap_def)

text \<open>What adding, matching and cancelling leave alone.\<close>

definition book_same :: "order_book \<Rightarrow> order_book \<Rightarrow> bool" where
  "book_same b b' \<longleftrightarrow> has_handler b' = has_handler b \<and> stats b' = stats b \<and>
     p_capacity (book_pool b') = p_capacity (book_pool b)"

lemma book_same_refl [simp]: "book_same b b"
  by (simp add: book_same_def)

lemma book_same_trans: "book_same b c \<Longrightarrow> book_same c d \<Longrightarrow> book_same b d"
  by (simp add: book_same_def)

lemma no_cross_pbetter: "no_cross s p limit = pbetter s limit p"
  by (cases s) (simp_all add: no_cross_def pbetter_def)

lemma better_pbetter: "better (s = Buy) = pbetter s"
  by (cases s) (simp_all add: fun_eq_iff better_def pbetter_def)

lemma book_relD:
  assumes "book_rel b g ex"
  shows "core_rel (ladder_levels b) (book_pool b) (order_ids b) g ex" "ladder_inv (ladder_of s b)" "is_bid (ladder_of s b) = (s = Buy)"
    "t_capacity (tail (ladder_of s b)) = p_capacity (book_pool b)"
  using assms by (simp_all add: book_rel_def ladders_ok_def)

text \<open>A step that changes one ladder, the pool and the id map.\<close>

lemma book_rel_step:
  assumes rel: "book_rel b g ex" and L: "ladder_inv L" "ladder_same (ladder_of s b) L"
    and core: "core_rel ((ladder_levels b)(s := amap L)) P m g' ex'" "p_capacity P = p_capacity (book_pool b)"
    and b': "\<And>t. ladder_of t b' = (if t = s then L else ladder_of t b)" "book_pool b' = P" "order_ids b' = m"
  shows "book_rel b' g' ex'"
proof -
  have "ladder_levels b' = (ladder_levels b)(s := amap L)" using b'(1) by auto
  moreover have "ladders_ok b'" using rel L b' core(2) by (auto simp: ladders_ok_def book_rel_def ladder_same_def)
  ultimately show ?thesis using core(1) b' by (simp add: book_rel_def)
qed

lemma front_price:
  assumes "book_rel b g ex" "ref_at (ladder_of s b) p r"
  shows "\<exists>l. deref (ladder_of s b) r = Some l \<and> amap (ladder_of s b) p = Some l \<and> l_price l = p"
  using ref_at_deref [OF book_relD(2) [OF assms(1)] assms(2)] amap_price [OF book_relD(2) [OF assms(1)]] by auto

section \<open>One trade\<close>

lemma match_step_partial:
  assumes rel: "book_rel b g {inc}" and g: "g s = (p, x # xs) # ls" and r: "ref_at (ladder_of s b) p r"
    and io: "storage (book_pool b) inc = Some io" and xo: "storage (book_pool b) x = Some xo" and fits: "fits_int64 (o_quantity io)"
    and q: "0 < o_quantity io" "o_quantity io < o_quantity xo"
  shows "\<exists>b'. match_step s inc r p b = Some b' \<and> book_rel b' g {inc} \<and> ref_at (ladder_of s b') p r \<and> book_same b b' \<and>
    storage (book_pool b') = (storage (book_pool b))(inc \<mapsto> io\<lparr>o_quantity := 0\<rparr>, x \<mapsto> xo\<lparr>o_quantity := o_quantity xo - o_quantity io\<rparr>) \<and>
    fill_log b' = fill_log b @ (if has_handler b
      then [\<lparr>resting_id = o_id xo, incoming_id = o_id io, f_price = p, f_qty = o_quantity io\<rparr>] else [])"
proof -
  from front_price [OF rel r] obtain l where l: "deref (ladder_of s b) r = Some l" "amap (ladder_of s b) p = Some l" "l_price l = p" by blast
  let ?h = "(storage (book_pool b))(inc \<mapsto> io\<lparr>o_quantity := 0\<rparr>)"
  let ?h' = "?h(x \<mapsto> xo\<lparr>o_quantity := o_quantity xo - o_quantity io\<rparr>)"
  note C = book_relD(1) [OF rel]
  from core_partial [OF C g l(2) io xo q refl] l(3) obtain l' where
    l': "l_head l = Some x" "reduce_head ?h l (o_quantity io) = Some (?h', l')" "l_price l' = p"
      "core_rel ((ladder_levels b)(s := (ladder_levels b s)(p \<mapsto> l'))) ((book_pool b)\<lparr>storage := ?h'\<rparr>) (order_ids b) g {inc}" by auto
  from store_level_ok [OF book_relD(2) [OF rel] r l'(3)] r obtain L' where
    L': "store_level (ladder_of s b) r l' = Some L'" "ladder_inv L'" "amap L' = (amap (ladder_of s b))(p \<mapsto> l')" "ladder_same (ladder_of s b) L'"
      "ref_at L' p r" by blast
  let ?b = "emit_fill \<lparr>resting_id = o_id xo, incoming_id = o_id io, f_price = p, f_qty = o_quantity io\<rparr> (set_ladder s L' (set_heap ?h' b))"
  have "inc \<noteq> x" using core_level(4) [OF C, of s "[]" p "x # xs" ls] g by auto
  then have "match_step s inc r p b = Some ?b"
    using l l'(1,2) io xo q L'(1) by (simp add: match_step_def mem_simps min_def book_heap_def checked64_def fits_int64_def)
  moreover have "book_rel ?b g {inc}"
    using l'(4) L'(3) by (intro book_rel_step [OF rel L'(2,4)]) simp_all
  ultimately show ?thesis using L'(5) by (auto simp: book_same_def)
qed

lemma match_step_full:
  assumes rel: "book_rel b g {inc}" and g: "g s = (p, x # xs) # ls" and r: "ref_at (ladder_of s b) p r"
    and io: "storage (book_pool b) inc = Some io" and xo: "storage (book_pool b) x = Some xo" and fits: "fits_int64 (o_quantity io)"
    and q: "0 < o_quantity io" "o_quantity xo \<le> o_quantity io"
  shows "\<exists>b'. match_step s inc r p b = Some b' \<and> book_rel b' (g(s := (p, xs) # ls)) {inc} \<and> ref_at (ladder_of s b') p r \<and> book_same b b' \<and>
    storage (book_pool b') inc = Some (io\<lparr>o_quantity := o_quantity io - o_quantity xo\<rparr>) \<and>
    (\<forall>y \<in> set xs. data (storage (book_pool b')) y = data (storage (book_pool b)) y) \<and>
    (\<forall>y. y \<notin> set (x # xs) \<union> {inc} \<longrightarrow> storage (book_pool b') y = storage (book_pool b) y) \<and>
    fill_log b' = fill_log b @ (if has_handler b
      then [\<lparr>resting_id = o_id xo, incoming_id = o_id io, f_price = p, f_qty = o_quantity xo\<rparr>] else [])"
proof -
  from front_price [OF rel r] obtain l where l: "deref (ladder_of s b) r = Some l" "amap (ladder_of s b) p = Some l" "l_price l = p" by blast
  let ?h = "(storage (book_pool b))(inc \<mapsto> io\<lparr>o_quantity := o_quantity io - o_quantity xo\<rparr>)"
  let ?h' = "?h(x \<mapsto> xo\<lparr>o_quantity := 0\<rparr>)"
  note C = book_relD(1) [OF rel]
  from core_full [OF C g l(2) io xo refl, unfolded l(3)] obtain l1 h3 l2 xd m' P' where
    c: "l_head l = Some x" "reduce_head ?h l (o_quantity xo) = Some (?h', l1)" "l_price l1 = p" "remove ?h' l1 x = Some (h3, l2)" "l_price l2 = p"
      "h3 x = Some xd" "o_id xd = o_id xo" "oid_erase (order_ids b) (o_id xo) = (True, m')" "release ((book_pool b)\<lparr>storage := h3\<rparr>) x = Some P'"
    and P': "p_capacity P' = p_capacity (book_pool b)" "storage P' inc = Some (io\<lparr>o_quantity := o_quantity io - o_quantity xo\<rparr>)"
      "\<forall>y \<in> set xs. data (storage P') y = data (storage (book_pool b)) y"
      "\<forall>y. y \<notin> set (x # xs) \<union> {inc} \<longrightarrow> storage P' y = storage (book_pool b) y"
    and core: "core_rel ((ladder_levels b)(s := (ladder_levels b s)(p \<mapsto> l2))) P' m' (g(s := (p, xs) # ls)) {inc}" by (elim exE conjE) (rule that; assumption)
  from store_level_ok [OF book_relD(2) [OF rel] r c(3)] r obtain L1 where
    L1: "store_level (ladder_of s b) r l1 = Some L1" "ladder_inv L1" "amap L1 = (amap (ladder_of s b))(p \<mapsto> l1)" "ladder_same (ladder_of s b) L1"
      "ref_at L1 p r" by blast
  from store_level_ok [OF L1(2,5) c(5)] L1(5) obtain L2 where
    L2: "store_level L1 r l2 = Some L2" "ladder_inv L2" "amap L2 = (amap L1)(p \<mapsto> l2)" "ladder_same L1 L2" "ref_at L2 p r" by blast
  let ?b1 = "emit_fill \<lparr>resting_id = o_id xo, incoming_id = o_id io, f_price = p, f_qty = o_quantity xo\<rparr> (set_ladder s L1 (set_heap ?h' b))"
  let ?b = "(set_ladder s L2 (set_heap h3 ?b1))\<lparr>order_ids := m', book_pool := P'\<rparr>"
  have "inc \<noteq> x" using core_level(4) [OF C, of s "[]" p "x # xs" ls] g by auto
  moreover have "0 < o_quantity xo" using core_level(3) [OF C, of s "[]" p "x # xs" ls x] g xo by (auto simp: resting_ok_def)
  then have "fits_int64 (o_quantity io - o_quantity xo)" using fits q by (simp add: fits_int64_def)
  ultimately have "match_step s inc r p b = Some ?b"
    using l c io xo L1(1) L2(1) min_absorb2 [OF q(2)] by (simp add: match_step_def mem_simps book_heap_def checked64_Some)
  moreover have "book_rel ?b (g(s := (p, xs) # ls)) {inc}"
    using core L1(3) L2(3) P'(1) by (intro book_rel_step [OF rel L2(2) ladder_same_trans [OF L1(4) L2(4)], of P' m']) simp_all
  ultimately show ?thesis using P' L2(5) by (intro exI [of _ ?b]) (simp add: book_same_def)
qed

section \<open>The best level\<close>

lemma best_empty: "book_rel b g ex \<Longrightarrow> g s = [] \<Longrightarrow> best (ladder_of s b) = None"
proof -
  assume rel: "book_rel b g ex" and g: "g s = []"
  have "amap (ladder_of s b) = Map.empty" using side_relD(2) [OF core_relD(1) [OF book_relD(1) [OF rel], of s]] g by simp
  then show ?thesis
    using best_level_ok [OF book_relD(2) [OF rel, of s]] ref_at_deref(2) [OF book_relD(2) [OF rel, of s]]
    by (cases "best (ladder_of s b)") auto
qed

lemma best_front:
  assumes rel: "book_rel b g ex" and g: "g s = (p, ps) # ls"
  shows "\<exists>r. best (ladder_of s b) = Some r \<and> ref_at (ladder_of s b) p r"
proof -
  note S = side_relD [OF core_relD(1) [OF book_relD(1) [OF rel], of s]] and inv = book_relD(2,3) [OF rel, of s]
  have "amap (ladder_of s b) \<noteq> Map.empty" using S(2) g by auto
  with best_level_ok [OF inv(1)] obtain r q where r: "best (ladder_of s b) = Some r" "ref_at (ladder_of s b) q r"
    "\<forall>x \<in> dom (amap (ladder_of s b)). price_key (s = Buy) x \<le> price_key (s = Buy) q"
    by (auto simp: inv(2) split: option.splits)
  have "q \<in> fst ` set (g s)" using ref_at_deref(2) [OF inv(1) r(2)] S(2) by blast
  moreover have "p \<in> dom (amap (ladder_of s b))" using S(2) g by simp
  ultimately have "q = p" using S(1) r(3) g by (force simp: better_pbetter [symmetric] better_key)
  with r show ?thesis by blast
qed

definition close_level :: "side \<Rightarrow> level_ref \<Rightarrow> order_book \<Rightarrow> order_book option" where
  "close_level s r b = Option.bind (erase_level (ladder_of s b) r) (\<lambda>L. Some (set_ladder s L b))"

lemma close_level_ok:
  assumes rel: "book_rel b g ex" and g: "g s = (p, []) # ls" and r: "ref_at (ladder_of s b) p r"
  shows "\<exists>b'. close_level s r b = Some b' \<and> book_rel b' (g(s := ls)) ex \<and> book_same b b' \<and> book_pool b' = book_pool b \<and> fill_log b' = fill_log b"
proof -
  from erase_level_ok [OF book_relD(2) [OF rel] r] obtain L' where L': "erase_level (ladder_of s b) r = Some L'"
    "ladder_inv L'" "amap L' = (amap (ladder_of s b))(p := None)" "ladder_same (ladder_of s b) L'" by blast
  have "core_rel ((ladder_levels b)(s := (ladder_levels b s)(p := None))) (book_pool b) (order_ids b) (g(s := [] @ ls)) ex"
    using g by (intro core_close [OF book_relD(1) [OF rel]]) simp
  then have "book_rel (set_ladder s L' b) (g(s := ls)) ex"
    using L'(3) by (intro book_rel_step [OF rel L'(2,4)]) simp_all
  with L'(1) show ?thesis by (auto simp: close_level_def book_same_def)
qed

section \<open>The loops\<close>

lemma match_level_stop:
  assumes "storage (book_pool b) inc = Some io" "deref (ladder_of s b) r = Some l" "o_quantity io \<le> 0 \<or> level_empty l"
  shows "match_against_level s inc r p b = Some b"
  using assms by (subst match_against_level.simps) (auto simp: book_heap_def)

lemma match_level_step:
  assumes "storage (book_pool b) inc = Some io" "deref (ladder_of s b) r = Some l" "0 < o_quantity io" "\<not> level_empty l"
    "match_step s inc r p b = Some b'"
  shows "match_against_level s inc r p b = match_against_level s inc r p b'"
  using assms by (subst match_against_level.simps) (auto simp: book_heap_def)

lemma match_loop_stop:
  assumes "storage (book_pool b) inc = Some io" "o_quantity io \<le> 0 \<or> best (ladder_of s b) = None"
  shows "match_loop s inc b = Some b"
  using assms by (subst match_loop.simps) (auto simp: book_heap_def)

lemma match_loop_limit:
  assumes "book_rel b g ex" "storage (book_pool b) inc = Some io" "best (ladder_of s b) = Some r" "ref_at (ladder_of s b) p r"
    "pbetter s (o_price io) p"
  shows "match_loop s inc b = Some b"
  using assms(2,3,5) front_price [OF assms(1,4)] by (subst match_loop.simps) (auto simp: book_heap_def no_cross_pbetter)

lemma match_loop_step:
  assumes "book_rel b g ex" "storage (book_pool b) inc = Some io" "0 < o_quantity io" "best (ladder_of s b) = Some r" "ref_at (ladder_of s b) p r"
    "\<not> pbetter s (o_price io) p" "match_against_level s inc r p b = Some c" "deref (ladder_of s c) r = Some l"
  shows "match_loop s inc b = Option.bind (if level_empty l then close_level s r c else Some c) (match_loop s inc)"
  using assms(2-4,6-8) front_price [OF assms(1,5)] by (subst match_loop.simps) (auto simp: book_heap_def no_cross_pbetter close_level_def)

section \<open>Entering, resting, leaving\<close>

text \<open>The branches of \<open>add_order\<close> and the body of \<open>cancel_order\<close>.\<close>

definition enter_order :: "order \<Rightarrow> order_book \<Rightarrow> ptr option \<times> order_book" where
  "enter_order xo b = (case allocate (book_pool b) xo of (x, P) \<Rightarrow> (x, b\<lparr>book_pool := P\<rparr>))"

definition rest_order :: "ptr \<Rightarrow> order_book \<Rightarrow> order_book option" where
  "rest_order ptr b = do {
     x \<leftarrow> book_heap b ptr;
     (L, r) \<leftarrow> level_for_insert (ladder_of (o_side x) b) (o_price x);
     level \<leftarrow> deref L r;
     (h, level) \<leftarrow> push_back (book_heap b) level ptr;
     L \<leftarrow> store_level L r level;
     m \<leftarrow> oid_insert (order_ids b) (o_id x) (Some ptr);
     Some ((set_ladder (o_side x) L (set_heap h b))\<lparr>order_ids := m\<rparr>) }"

definition release_order :: "ptr \<Rightarrow> order_book \<Rightarrow> order_book option" where
  "release_order ptr b = do { P \<leftarrow> release (book_pool b) ptr; Some (b\<lparr>book_pool := P\<rparr>) }"

definition drop_order :: "order_id \<Rightarrow> ptr \<Rightarrow> order_book \<Rightarrow> order_book option" where
  "drop_order i ptr b = do {
     x \<leftarrow> book_heap b ptr;
     (erased, b) \<leftarrow> remove_from_book (o_side x) ptr b;
     if erased then release_order ptr (b\<lparr>order_ids := snd (oid_erase (order_ids b) i)\<rparr>) else None }"

lemma book_rel_pool:
  assumes "book_rel b g ex" "core_rel (ladder_levels b) P (order_ids b) g' ex'" "p_capacity P = p_capacity (book_pool b)"
  shows "book_rel (b\<lparr>book_pool := P\<rparr>) g' ex'"
  using assms by (simp add: book_rel_def ladders_ok_def)

lemma enter_order_ok:
  assumes "book_rel b g {}" "0 < available (book_pool b)"
  shows "\<exists>x b'. enter_order xo b = (Some x, b') \<and> book_rel b' g {x} \<and> book_same b b' \<and> storage (book_pool b') = (storage (book_pool b))(x \<mapsto> xo) \<and>
    x \<notin> dom (storage (book_pool b)) \<and> fill_log b' = fill_log b"
  using core_allocate [OF book_relD(1) [OF assms(1)] assms(2), of xo] book_rel_pool [OF assms(1)]
  by (auto simp: enter_order_def book_same_def)

lemma release_order_ok:
  assumes "book_rel b g {x}"
  shows "\<exists>b'. release_order x b = Some b' \<and> book_rel b' g {} \<and> book_same b b' \<and> storage (book_pool b') = (storage (book_pool b))(x := None) \<and>
    fill_log b' = fill_log b"
  using core_release [OF book_relD(1) [OF assms]] book_rel_pool [OF assms] by (auto simp: release_order_def book_same_def)

text \<open>The level that the remainder joins.\<close>

lemma rest_level:
  assumes rel: "book_rel b g {x}" and ne: "no_empty g" and p: "price_ok p"
  shows "\<exists>L r l. level_for_insert (ladder_of s b) p = Some (L, r) \<and> deref L r = Some l \<and> l_price l = p \<and> ladder_inv L \<and>
    amap L = opened (amap (ladder_of s b)) p \<and> ref_at L p r \<and> ladder_same (ladder_of s b) L \<and>
    (case amap (ladder_of s b) p of None \<Rightarrow> level_rep (storage (book_pool b)) l [] | Some l' \<Rightarrow> l = l')"
proof -
  let ?L = "ladder_of s b"
  note C = book_relD(1) [OF rel] and inv = book_relD(2-4) [OF rel, of s]
  have "card (insert p (dom (amap ?L))) \<le> t_capacity (tail ?L)" using core_room [OF C ne, of p s] inv(3) by simp
  from level_for_insert_ok [OF inv(1) p this] obtain L r where L: "level_for_insert ?L p = Some (L, r)" "ladder_inv L"
    "amap L = opened (amap ?L) p" "ref_at L p r" "ladder_same ?L L" by blast
  obtain l where l: "deref L r = Some l" "amap L p = Some l" "l_price l = p"
    using ref_at_deref [OF L(2,4)] amap_price [OF L(2)] by auto
  have "case amap ?L p of None \<Rightarrow> level_rep (storage (book_pool b)) l [] | Some l' \<Rightarrow> l = l'"
    using l(2) L(3) by (auto simp: opened_def split: option.splits)
  with L l show ?thesis by blast
qed

lemma rest_order_overflow:
  assumes rel: "book_rel b g {x}" and ne: "no_empty g" and xo: "storage (book_pool b) x = Some xo" and p: "price_ok (o_price xo)"
    and over: "2 ^ 63 \<le> total_at (amap (ladder_of (o_side xo) b)) (o_price xo) + o_quantity xo"
  shows "rest_order x b = None"
proof -
  from rest_level [OF rel ne p, of "o_side xo"] obtain L r l where "level_for_insert (ladder_of (o_side xo) b) (o_price xo) = Some (L, r)" "deref L r = Some l"
    "case amap (ladder_of (o_side xo) b) (o_price xo) of None \<Rightarrow> level_rep (storage (book_pool b)) l [] | Some l' \<Rightarrow> l = l'" by blast
  with core_rest_overflow [OF book_relD(1) [OF rel] xo _ over] xo show ?thesis by (simp add: rest_order_def book_heap_def)
qed

lemma rest_order_ok:
  assumes rel: "book_rel b g {x}" and ne: "no_empty g" and xo: "storage (book_pool b) x = Some xo"
    and ok: "price_ok (o_price xo)" "0 < o_quantity xo" "oid_map (order_ids b) (o_id xo) = None"
      "total_at (amap (ladder_of (o_side xo) b)) (o_price xo) + o_quantity xo < 2 ^ 63"
  shows "\<exists>b'. rest_order x b = Some b' \<and> book_rel b' (g(o_side xo := enqueue (o_side xo) (o_price xo) x (g (o_side xo)))) {} \<and>
    no_empty (g(o_side xo := enqueue (o_side xo) (o_price xo) x (g (o_side xo)))) \<and>
    book_same b b' \<and> data (storage (book_pool b')) = data (storage (book_pool b)) \<and> fill_log b' = fill_log b"
proof -
  let ?s = "o_side xo" and ?p = "o_price xo" let ?L = "ladder_of ?s b"
  note C = book_relD(1) [OF rel]
  from rest_level [OF rel ne ok(1), of ?s] obtain L r l where L: "level_for_insert ?L ?p = Some (L, r)" "ladder_inv L"
    "amap L = opened (amap ?L) ?p" "ref_at L ?p r" "ladder_same ?L L" and l: "deref L r = Some l" "l_price l = ?p"
    and old: "case amap ?L ?p of None \<Rightarrow> level_rep (storage (book_pool b)) l [] | Some l' \<Rightarrow> l = l'" by blast
  from core_rest [OF C ne xo refl refl ok(2,3) old ok(4)] l(2) obtain h l' m' where
    R: "push_back (storage (book_pool b)) l x = Some (h, l')" "l_price l' = ?p" "oid_insert (order_ids b) (o_id xo) (Some x) = Some m'"
      "data h = data (storage (book_pool b))"
      "core_rel ((ladder_levels b)(?s := (ladder_levels b ?s)(?p \<mapsto> l'))) ((book_pool b)\<lparr>storage := h\<rparr>) m' (g(?s := enqueue ?s ?p x (g ?s))) {}"
      "no_empty (g(?s := enqueue ?s ?p x (g ?s)))" by auto
  from store_level_ok [OF L(2,4) R(2)] obtain L' where L': "store_level L r l' = Some L'" "ladder_inv L'"
    "amap L' = (amap L)(?p \<mapsto> l')" "ladder_same L L'" by blast
  let ?b = "(set_ladder ?s L' (set_heap h b))\<lparr>order_ids := m'\<rparr>"
  have "amap L' = (amap ?L)(?p \<mapsto> l')" using L'(3) L(3) by (simp add: opened_def)
  with R(5) have "book_rel ?b (g(?s := enqueue ?s ?p x (g ?s))) {}"
    by (intro book_rel_step [OF rel L'(2) ladder_same_trans [OF L(5) L'(4)]]) simp_all
  moreover have "rest_order x b = Some ?b" using xo L(1) l(1) R(1,3) L'(1) by (simp add: rest_order_def book_heap_def)
  ultimately show ?thesis using R(4,6) by (auto simp: book_same_def)
qed

section \<open>Cancelling\<close>

lemma drop_order_ok:
  assumes rel: "book_rel b g {}" and g: "g s = as @ (p, xs @ x # ys) # bs" and xo: "storage (book_pool b) x = Some xo"
    and eq: "o_side xo = s" "o_price xo = p" "o_id xo = i"
  shows "\<exists>b'. drop_order i x b = Some b' \<and> book_rel b' (g(s := unlinked as p (xs @ ys) bs)) {} \<and> book_same b b' \<and>
    data (storage (book_pool b')) = (data (storage (book_pool b)))(x := None) \<and> fill_log b' = fill_log b"
proof -
  let ?L = "ladder_of s b" and ?g = "g(s := unlinked as p (xs @ ys) bs)"
  note C = book_relD(1) [OF rel] and inv = book_relD(2) [OF rel, of s]
  from core_level(1) [OF C g] obtain l where l: "amap ?L p = Some l" by auto
  then obtain r where r: "find_level ?L p = Some r" "ref_at ?L p r" using find_level_ok [OF inv, of p] by (cases "find_level ?L p") auto
  have d: "deref ?L r = Some l" "l_price l = p" using front_price [OF rel r(2)] l by auto
  from core_unlink [OF C g xo l] d(2) eq(3) obtain h l' m' where
    U: "remove (storage (book_pool b)) l x = Some (h, l')" "l_price l' = p" "level_empty l' \<longleftrightarrow> xs @ ys = []" "oid_erase (order_ids b) i = (True, m')"
      "data h = data (storage (book_pool b))"
      "core_rel ((ladder_levels b)(s := (ladder_levels b s)(p := if xs @ ys = [] then None else Some l'))) ((book_pool b)\<lparr>storage := h\<rparr>) m' ?g {x}"
    by metis
  from store_level_ok [OF inv r(2) U(2)] r(2) obtain L1 where L1: "store_level ?L r l' = Some L1" "ladder_inv L1"
    "amap L1 = (amap ?L)(p \<mapsto> l')" "ladder_same ?L L1" "ref_at L1 p r" by blast
  have "\<exists>L2. (if level_empty l' then erase_level L1 r else Some L1) = Some L2 \<and> ladder_inv L2 \<and> ladder_same ?L L2 \<and>
      amap L2 = (amap ?L)(p := if xs @ ys = [] then None else Some l')"
    using erase_level_ok [OF L1(2,5)] L1 U(3) by (auto intro: ladder_same_trans)
  then obtain L2 where L2: "(if level_empty l' then erase_level L1 r else Some L1) = Some L2" "ladder_inv L2" "ladder_same ?L L2"
    "amap L2 = (amap ?L)(p := if xs @ ys = [] then None else Some l')" by blast
  let ?b1 = "set_ladder s L2 (set_heap h b)" let ?b2 = "?b1\<lparr>order_ids := m'\<rparr>"
  have "book_rel ?b2 ?g {x}" using U(6) L2(4) by (intro book_rel_step [OF rel L2(2,3)]) simp_all
  from release_order_ok [OF this] obtain b' where b': "release_order x ?b2 = Some b'" "book_rel b' ?g {}" "book_same ?b2 b'"
    "storage (book_pool b') = h(x := None)" "fill_log b' = fill_log b" by auto
  have "remove_from_book s x b = Some (True, ?b1)"
    using xo eq r(1) d(1) U(1) L1(1) L2(1) by (simp add: remove_from_book_def book_heap_def)
  then have "drop_order i x b = Some b'" using xo eq(1) U(4) b'(1) by (simp add: drop_order_def book_heap_def)
  moreover have "data (storage (book_pool b')) = (data (storage (book_pool b)))(x := None)" using b'(4) U(5) by (simp add: data_upd)
  moreover have "book_same b b'" using b'(3) by (simp add: book_same_def)
  ultimately show ?thesis using b'(2,5) by blast
qed

section \<open>The order book is an instance\<close>

interpretation ladder_engine: order_entry book_rel ladder_levels book_pool order_ids fill_log has_handler book_same
  "\<lambda>s p r b. ref_at (ladder_of s b) p r" "\<lambda>s r b. deref (ladder_of s b) r" "\<lambda>s b. best (ladder_of s b)" match_step close_level
  match_against_level match_loop price_ok enter_order rest_order release_order drop_order
proof unfold_locales
  show "deref (ladder_of s b) r = amap (ladder_of s b) p" if "book_rel b g ex" "ref_at (ladder_of s b) p r" for b g ex s p r
    using front_price [OF that] by auto
  show "has_handler c = has_handler b \<and> p_capacity (book_pool c) = p_capacity (book_pool b)" if "book_same b c" for b c
    using that by (simp add: book_same_def)
qed (fact book_relD(1) book_same_refl book_same_trans best_empty best_front match_step_partial match_step_full close_level_ok
  match_level_stop match_level_step match_loop_stop enter_order_ok rest_order_ok rest_order_overflow release_order_ok drop_order_ok |
  rule match_loop_limit match_loop_step; assumption)+

lemma ladder_represents: "ladder_engine.represents = refines"
  by (simp add: fun_eq_iff ladder_engine.represents_def refines_def book_heap_def)

section \<open>Refinement\<close>

text \<open>
  The refinement of \<open>add_order\<close>.  \<open>add_result\<close> relates the outcome of the code to that of the
  specification: the returned flag, the new book, the calls of the fill handler, and the counter
  that records a refusal.
\<close>

definition add_result :: "order_book \<Rightarrow> spec_book \<Rightarrow> order_id \<Rightarrow> bool \<times> spec_book \<times> fill list \<Rightarrow> bool \<times> order_book \<Rightarrow> bool" where
  "add_result b B i S R \<longleftrightarrow> (case S of (ok, B', fs) \<Rightarrow> case R of (ok', b') \<Rightarrow>
     ok' = ok \<and> refines b' B' \<and> fill_log b' = fill_log b @ (if has_handler b then fs else []) \<and>
     has_handler b' = has_handler b \<and> p_capacity (book_pool b') = p_capacity (book_pool b) \<and>
     stats b' = (if ok then stats b
       else if i \<in> set (book_ids B) then (stats b)\<lparr>duplicate_id := duplicate_id (stats b) + 1\<rparr>
       else (stats b)\<lparr>pool_exhausted := pool_exhausted (stats b) + 1\<rparr>))"

lemma book_rel_stats: "book_rel (b\<lparr>stats := st\<rparr>) g ex \<longleftrightarrow> book_rel b g ex"
  by (simp add: book_rel_def ladders_ok_def)

text \<open>The outcome of the code when the specification answers \<open>S\<close>: undefined exactly when the total of a level does not fit.\<close>

definition add_outcome :: "order_book \<Rightarrow> spec_book \<Rightarrow> order_id \<Rightarrow> bool \<times> spec_book \<times> fill list \<Rightarrow> (bool \<times> order_book) option \<Rightarrow> bool" where
  "add_outcome b B i S out \<longleftrightarrow>
     (if book_fits (fst (snd S)) then (\<exists>R. out = Some R \<and> add_result b B i S R) else out = None)"

lemma add_order_steps:
  assumes "fits_int64 p" "fits_int64 q" "oid_find (order_ids b) i = None"
    "enter_order \<lparr>o_id = i, o_side = s, o_price = p, o_quantity = q, o_timestamp = ts, o_prev = None, o_next = None\<rparr> b = (Some x, b1)"
    "book_heap b1 x = Some xo" "o_side xo = s" "match_loop (opposite s) x b1 = Some b2" "book_heap b2 x = Some xr"
  shows "add_order i s p q ts b = map_option (Pair True) (if 0 < o_quantity xr then rest_order x b2 else release_order x b2)"
proof -
  have "match_order x b1 = Some b2" using assms(5-7) by (simp add: match_order_def)
  with assms(1-4,8) show ?thesis
    by (auto simp: add_order_def enter_order_def rest_order_def release_order_def split: prod.splits bind_splits)
qed

lemma add_accepted:
  assumes rel: "book_rel b g {}" "no_empty g" and B: "B = bview (book_heap b) g"
    and ok: "price_ok p" "fits_int64 q" "oid_map (order_ids b) i = None" "0 < available (book_pool b)"
  shows "add_outcome b B i (spec_add (p_capacity (book_pool b)) i s p q B) (add_order i s p q ts b)"
proof -
  let ?xo = "\<lparr>o_id = i, o_side = s, o_price = p, o_quantity = q, o_timestamp = ts, o_prev = None, o_next = None\<rparr>"
  have find: "oid_find (order_ids b) i = None" using oid_find_eq [OF core_relP(2) [OF book_relD(1) [OF rel(1)]]] ok(3) by simp
  have p: "fits_int64 p" using ok(1) by (simp add: price_ok_def fits_int64_def)
  from ladder_engine.accept_ok [OF rel B [unfolded book_heap_def] refl ok, of s ts, folded book_heap_def] obtain x b1 b2 q' B' fs where
    A: "enter_order ?xo b = (Some x, b1)" "book_heap b1 x = Some ?xo" "match_loop (opposite s) x b1 = Some b2"
      "book_heap b2 x = Some (?xo\<lparr>o_quantity := q'\<rparr>)"
    and S: "spec_add (p_capacity (book_pool b)) i s p q B = (True, B', fs)" "ladder_engine.accepts x q' b b2 B' fs"
    by (elim exE conjE) (rule that; assumption)
  note run = add_order_steps [OF p ok(2) find A(1,2) _ A(3,4)]
  show ?thesis
  proof (cases "book_fits B'")
    case True
    with S(2) obtain b3 where "(if 0 < q' then rest_order x b2 else release_order x b2) = Some b3" "refines b3 B'" "book_same b b3"
      "fill_log b3 = fill_log b @ (if has_handler b then fs else [])" by (auto simp: ladder_engine.accepts_def ladder_represents)
    with run True S(1) show ?thesis by (simp add: add_outcome_def add_result_def book_same_def)
  next
    case False
    with S(2) have "0 < q'" "rest_order x b2 = None" by (simp_all add: ladder_engine.accepts_def)
    with run False S(1) show ?thesis by (simp add: add_outcome_def)
  qed
qed

lemma refines_fits: "refines b B \<Longrightarrow> book_fits B"
  using ladder_engine.represents_fits by (simp add: ladder_represents)

lemma add_order_ok:
  assumes ref: "refines b B" and p: "price_ok p" "fits_int64 q"
  shows "add_outcome b B i (spec_add (p_capacity (book_pool b)) i s p q B) (add_order i s p q ts b)"
proof -
  from ref obtain g where rel: "book_rel b g {}" "no_empty g" and B: "B = bview (book_heap b) g" by (auto simp: refines_def)
  note C = book_relD(1) [OF rel(1)]
  have same: "refines (b\<lparr>stats := st\<rparr>) B" for st using rel B by (auto simp: refines_def book_rel_stats intro!: exI [of _ g])
  have find: "oid_find (order_ids b) i = oid_map (order_ids b) i" by (rule oid_find_eq [OF core_relP(2) [OF C]])
  have known: "oid_map (order_ids b) i \<noteq> None \<longleftrightarrow> i \<in> set (book_ids B)" using known_id [OF C] B by (simp add: book_heap_def)
  have fits: "fits_int64 p" "book_fits B" using p(1) refines_fits [OF ref] by (simp_all add: price_ok_def fits_int64_def)
  consider x where "oid_map (order_ids b) i = Some x" | "oid_map (order_ids b) i = None" "available (book_pool b) = 0"
    | "oid_map (order_ids b) i = None" "0 < available (book_pool b)" by (cases "oid_map (order_ids b) i") auto
  then show ?thesis
  proof cases
    case 1
    with find same known fits p(2) show ?thesis by (simp add: add_order_def spec_add_def add_result_def add_outcome_def)
  next
    case 2
    have full: "p_capacity (book_pool b) \<le> length (book_ids B)" using core_available [OF C] 2(2) B by (simp add: book_heap_def)
    have al: "allocate (book_pool b) xo = (None, book_pool b)" for xo using order_pool.alloc_full [OF core_relP(1) [OF C] 2(2)] .
    have eq: "b\<lparr>book_pool := book_pool b, stats := st\<rparr> = b\<lparr>stats := st\<rparr>" for st by simp
    show ?thesis using 2(1) find known full same al fits p(2) by (simp add: add_order_def spec_add_def add_result_def add_outcome_def eq)
  next
    case 3
    with add_accepted [OF rel B p] show ?thesis by simp
  qed
qed

text \<open>The two directions: it returns when the levels fit, and when it returns they do.\<close>

lemma add_order_runs:
  assumes "refines b B" "price_ok p" "fits_int64 q" "spec_add (p_capacity (book_pool b)) i s p q B = (ok, B', fs)" "book_fits B'"
  shows "\<exists>b'. add_order i s p q ts b = Some (ok, b') \<and> add_result b B i (ok, B', fs) (ok, b')"
  using add_order_ok [OF assms(1-3), of i s ts] assms(4,5) by (auto simp: add_outcome_def add_result_def)

lemma add_order_sound:
  assumes "refines b B" "price_ok p" "add_order i s p q ts b = Some R"
  shows "add_result b B i (spec_add (p_capacity (book_pool b)) i s p q B) R"
proof -
  have "fits_int64 q" using assms(3) by (auto simp: add_order_def split: if_splits)
  from add_order_ok [OF assms(1,2) this, of i s ts] assms(3) show ?thesis by (auto simp: add_outcome_def split: if_splits)
qed

lemma cancel_order_ok:
  assumes ref: "refines b B"
  shows "\<exists>b'. cancel_order i b = Some (fst (spec_cancel i B), b') \<and> refines b' (snd (spec_cancel i B)) \<and>
    book_same b b' \<and> fill_log b' = fill_log b"
proof -
  from ref obtain g where rel: "book_rel b g {}" "no_empty g" and B: "B = bview (book_heap b) g" by (auto simp: refines_def)
  note C = book_relD(1) [OF rel(1)]
  have find: "oid_find (order_ids b) i = oid_map (order_ids b) i" by (rule oid_find_eq [OF core_relP(2) [OF C]])
  show ?thesis
  proof (cases "oid_map (order_ids b) i")
    case None
    then have "i \<notin> set (book_ids B)" using known_id [OF C, of i] B by (auto simp: book_heap_def)
    with None find ref show ?thesis by (simp add: cancel_order_def spec_cancel_def)
  next
    case (Some x)
    from ladder_engine.drop_ok [OF rel B [unfolded book_heap_def] Some] obtain b' where
      b': "drop_order i x b = Some b'" "spec_cancel i B = (True, snd (spec_cancel i B))" "refines b' (snd (spec_cancel i B))" "book_same b b'"
        "fill_log b' = fill_log b" unfolding ladder_represents by blast
    from b'(1) obtain xo c P where "book_heap b x = Some xo" "remove_from_book (o_side xo) x b = Some (True, c)"
      "release (book_pool c) x = Some P" "b' = c\<lparr>order_ids := snd (oid_erase (order_ids c) i), book_pool := P\<rparr>"
      by (auto simp: drop_order_def release_order_def bind_eq_Some_conv split: if_splits)
    then have "cancel_order i b = Some (True, b')" using find Some by (simp add: cancel_order_def)
    moreover have "fst (spec_cancel i B) = True" using arg_cong [OF b'(2), of fst] by simp
    ultimately show ?thesis using b'(3-5) by auto
  qed
qed

end
