(* ===== verification/Book_Queries.thy ===== *)
theory Book_Queries
  imports Book_Refine Book_Laws
begin

text \<open>
  What the read-only operations of the book return, in terms of the specification: the best
  prices, the aggregated depth and the total quantity; and the empty book.
\<close>

section \<open>The empty book\<close>

lemma capacity_loop_ok:
  assumes "is_pow2 n"
  shows "is_pow2 (capacity_loop c n) \<and> 2 * c \<le> capacity_loop c n \<and> n \<le> capacity_loop c n"
  using assms
proof (induction c n rule: capacity_loop.induct)
  case (1 c n)
  show ?case
  proof (cases "n < 2 * c")
    case True
    have "is_pow2 (push_bit 1 n)" using "1.prems" by (metis is_pow2_iff mult.commute power_Suc power_one_right push_bit_eq_mult)
    with "1.IH" True is_pow2_pos [OF "1.prems"] show ?thesis
      by (subst (1 2 3) capacity_loop.simps) (auto simp: push_bit_eq_mult)
  next
    case False
    then show ?thesis using "1.prems" by (subst (1 2 3) capacity_loop.simps) auto
  qed
qed

lemma id_map_capacity_ok: "is_pow2 (id_map_capacity c) \<and> 2 * c \<le> id_map_capacity c \<and> c < id_map_capacity c"
proof -
  have "is_pow2 1" using is_pow2_power [of 0] by simp
  from capacity_loop_ok [OF this, of c] show ?thesis by (auto simp: id_map_capacity_def)
qed

lemma new_book_sel [simp]:
  "p_capacity (book_pool (new_book handler cap w)) = cap" "has_handler (new_book handler cap w) = handler"
  "fill_log (new_book handler cap w) = []"
  by (simp_all add: new_book_def new_pool_def)

lemma refines_new:
  assumes "is_pow2 w" "64 \<le> w" "w \<le> 2 ^ 62"
  shows "refines (new_book handler cap w) \<lparr>s_bids = [], s_asks = []\<rparr>"
proof -
  let ?b = "new_book handler cap w" and ?g = "\<lambda>s. [] :: (price \<times> ptr list) list"
  note L = ladder_inv_new [OF assms]
  have "ladders_ok ?b" unfolding ladders_ok_def side_cases [of _ Buy]
    using L by (simp add: new_book_def) (simp add: new_ladder_def new_tail_def new_pool_def)
  moreover have "side_rel s (storage (book_pool ?b)) (amap (ladder_of s ?b)) []" for s
    using L by (cases s) (auto simp: side_rel_def new_book_def)
  moreover have "length (slots (order_ids ?b)) = id_map_capacity cap" "p_capacity (book_pool ?b) = cap"
    by (simp_all add: new_book_def new_id_map_def new_pool_def)
  moreover have "pool_inv (book_pool ?b)" "oid_inv (order_ids ?b)" "oid_map (order_ids ?b) = Map.empty" "storage (book_pool ?b) = Map.empty"
    using id_map_capacity_ok [of cap] by (simp_all add: new_book_def oid_inv_new) (simp add: new_pool_def)
  ultimately have "book_rel ?b ?g {}"
    using id_map_capacity_ok [of cap] by (simp add: book_rel_def core_rel_def)
  then show ?thesis unfolding refines_def by (intro exI [of _ ?g]) (simp add: no_empty_def bview_def)
qed

section \<open>Best prices\<close>

definition best_price :: "side \<Rightarrow> order_book \<Rightarrow> price option option" where
  "best_price s b = (case best (ladder_of s b) of None \<Rightarrow> Some None
     | Some r \<Rightarrow> do { l \<leftarrow> deref (ladder_of s b) r; Some (Some (l_price l)) })"

lemma best_price_ok:
  assumes "refines b B"
  shows "best_price s b = Some (map_option fst (first_opt (side_of s B)))"
proof -
  from assms obtain g where rel: "book_rel b g {}" and B: "B = bview (book_heap b) g" by (auto simp: refines_def)
  show ?thesis
  proof (cases "g s")
    case Nil
    then show ?thesis using best_empty [OF rel Nil] by (simp add: best_price_def B bview_side)
  next
    case (Cons lv rest)
    obtain p ps where lv: "lv = (p, ps)" by (cases lv)
    from best_front [OF rel, of s p ps rest] Cons lv obtain r where
      r: "best (ladder_of s b) = Some r" "ref_at (ladder_of s b) p r" by auto
    from front_price [OF rel r(2)] obtain l where "deref (ladder_of s b) r = Some l" "l_price l = p" by blast
    with r(1) Cons lv show ?thesis by (simp add: best_price_def B bview_side)
  qed
qed

lemma best_bid_ok: "refines b B \<Longrightarrow> best_bid b = Some (map_option fst (first_opt (s_bids B)))"
  using best_price_ok [of b B Buy] unfolding best_price_def best_bid_def ladder_of.simps side_of.simps .

lemma best_ask_ok: "refines b B \<Longrightarrow> best_ask b = Some (map_option fst (first_opt (s_asks B)))"
  using best_price_ok [of b B Sell] unfolding best_price_def best_ask_def ladder_of.simps side_of.simps .

section \<open>Depth\<close>

definition level_entry :: "price_level \<Rightarrow> level_qty" where
  "level_entry l = \<lparr>lq_price = l_price l, lq_qty = total_qty l\<rparr>"

lemma ran_prices: "ladder_inv L \<Longrightarrow> l_price ` ran (amap L) = dom (amap L)"
  by (simp add: ran_amap dom_amap)

lemma fold_append_entry: "fold (\<lambda>l out. out @ [level_entry l]) xs out = out @ map level_entry xs"
  by (induction xs arbitrary: out) auto

lemma copy_top_ok:
  assumes inv: "ladder_inv L" "is_bid L = (s = Buy)" and rel: "side_rel s h (amap L) ls"
  shows "copy_top L n = take n (depth (sview h ls))"
proof -
  note R = side_relD [OF rel]
  have "\<exists>xs. best_first (is_bid L) (amap L) xs \<and>
      (\<forall>n f (t :: level_qty list). for_each_best L n f t = fold f (take n xs) t)"
    by (rule for_each_best_ok [OF inv(1)])
  then obtain xs where xs: "best_first (is_bid L) (amap L) xs"
    "\<And>f (t :: level_qty list). for_each_best L n f t = fold f (take n xs) t" by blast
  let ?k = "price_key (s = Buy)"
  have am: "amap L (l_price l) = Some l" if "l \<in> set xs" for l
    using that xs(1) amap_price [OF inv(1)] by (auto simp: best_first_def ran_def)
  have "sorted_wrt (\<lambda>x y. ?k y < ?k x) (map l_price xs)"
    using xs(1) inv(2) by (simp add: best_first_def sorted_wrt_map lkey_def)
  moreover have "sorted_wrt (\<lambda>x y. ?k y < ?k x) (map fst ls)"
    using R(1) by (simp add: sorted_wrt_map better_pbetter [symmetric] better_key)
  moreover have "set (map l_price xs) = set (map fst ls)"
    using ran_prices [OF inv(1)] xs(1) R(2) by (simp add: best_first_def)
  ultimately have eq: "map l_price xs = map fst ls" by (rule sorted_desc_unique)
  have "depth (sview h ls) = map level_entry xs"
    using am unfolding depth_levels [OF rel] eq [symmetric] by (simp add: level_entry_def)
  moreover have "copy_top L n = map level_entry (take n xs)"
    using fold_append_entry [of "take n xs" "[]"] xs(2) by (simp add: copy_top_def level_entry_def)
  ultimately show ?thesis by (simp add: take_map)
qed

lemma top_levels_ok:
  assumes "refines b B"
  shows "top_levels s n b = take n (depth (side_of s B))"
proof -
  from assms obtain g where rel: "book_rel b g {}" and B: "B = bview (book_heap b) g" by (auto simp: refines_def)
  have "top_levels s n b = copy_top (ladder_of s b) n" by (cases s) (simp_all add: top_levels_def)
  with copy_top_ok [OF book_relD(2,3) [OF rel] core_relD(1) [OF book_relD(1) [OF rel]]] show ?thesis by (simp add: B bview_side book_heap_def)
qed

section \<open>Total quantity\<close>

text \<open>A checked sum of totals that are not negative is undefined exactly when the exact sum does not fit.\<close>

lemma totals_nonneg: "\<forall>l \<in> set xs. 0 \<le> total_qty l \<Longrightarrow> 0 \<le> sum_list (map total_qty xs)"
  by (induction xs) auto

lemma fold_add_level:
  "\<forall>l \<in> set xs. 0 \<le> total_qty l \<Longrightarrow> 0 \<le> t \<Longrightarrow> fold add_level xs (checked64 t) = checked64 (t + sum_list (map total_qty xs))"
proof (induction xs arbitrary: t)
  case (Cons l xs)
  then have nn: "0 \<le> total_qty l" "0 \<le> sum_list (map total_qty xs)" by (simp_all add: totals_nonneg)
  show ?case
  proof (cases "fits_int64 t")
    case True
    then have "add_level l (checked64 t) = checked64 (t + total_qty l)" by (simp add: add_level_def checked64_def)
    with Cons nn show ?thesis by (simp add: add.assoc)
  next
    case False
    have stuck: "fold add_level ys None = None" for ys by (induction ys) (simp_all add: add_level_def)
    moreover have "add_level l None = None" by (simp add: add_level_def)
    moreover have "\<not> fits_int64 (t + total_qty l + sum_list (map total_qty xs))" using False Cons.prems(2) nn by (simp add: fits_int64_nonneg)
    ultimately show ?thesis using False by (simp add: checked64_def add.assoc)
  qed
qed simp

lemma side_total:
  assumes inv: "ladder_inv L" and rel: "side_rel s h (amap L) ls"
    and t: "0 \<le> t"
  shows "for_each_level L add_level (checked64 t) = checked64 (t + side_qty (sview h ls)) \<and> 0 \<le> side_qty (sview h ls)"
proof -
  have "\<exists>xs. distinct (map l_price xs) \<and> set xs = ran (amap L) \<and> (\<forall>f (t :: int option). for_each_level L f t = fold f xs t)"
    by (rule for_each_level_ok [OF inv])
  then obtain xs where xs: "distinct (map l_price xs)" "set xs = ran (amap L)"
    "\<And>f (t :: int option). for_each_level L f t = fold f xs t" by blast
  let ?q = "\<lambda>p. total_qty (the (amap L p))"
  have am: "amap L (l_price l) = Some l" if "l \<in> set xs" for l
    using that xs(2) amap_price [OF inv] by (auto simp: ran_def)
  have "sum_list (map total_qty xs) = sum_list (map ?q (map l_price xs))" using am by (simp add: map_idI cong: map_cong)
  also have "\<dots> = sum ?q (l_price ` set xs)" using xs(1) by (simp only: sum_list_distinct_conv_sum_set set_map)
  also have "l_price ` set xs = fst ` set ls"
    using xs(2) ran_prices [OF inv] side_relD(2) [OF rel] by simp
  also have "sum ?q (fst ` set ls) = sum_list (map ?q (map fst ls))"
    using sorted_prices_distinct [OF side_relD(1) [OF rel]] by (simp only: sum_list_distinct_conv_sum_set set_map)
  finally have sum: "sum_list (map total_qty xs) = side_qty (sview h ls)" by (simp add: side_qty_levels [OF rel])
  have nn: "\<forall>l \<in> set xs. 0 \<le> total_qty l" using am level_nonneg [OF rel] by blast
  with fold_add_level [OF nn t] sum totals_nonneg [OF nn] show ?thesis by (simp add: xs(3))
qed

lemma total_resting_qty_ok:
  assumes "refines b B"
  shows "total_resting_qty b = checked64 (book_qty B)" "0 \<le> book_qty B"
proof -
  from assms obtain g where rel: "book_rel b g {}" and B: "B = bview (book_heap b) g" by (auto simp: refines_def)
  note T = side_total [OF book_relD(2) [OF rel] core_relD(1) [OF book_relD(1) [OF rel]]]
  have "Some 0 = checked64 0" by (simp add: checked64_def fits_int64_def)
  with T [of 0 Buy] T [of _ Sell] T [of 0 Sell] show "total_resting_qty b = checked64 (book_qty B)" "0 \<le> book_qty B"
    by (simp_all add: total_resting_qty_def book_qty_def B bview_def book_heap_def)
qed

end
