(* ===== verification/Book_Run.thy ===== *)
theory Book_Run
  imports Book_Queries
begin

text \<open>
  Histories of a book: every sequence of calls of \<open>add_order\<close> and \<open>cancel_order\<close> that a client
  can make on a new book.  The steps are an inductive relation, and what holds of every
  reachable book is proved by rule induction over it.
\<close>

section \<open>Steps and reachable books\<close>

inductive book_step :: "order_book \<Rightarrow> order_book \<Rightarrow> bool" where
  add: "price_ok p \<Longrightarrow> add_order i s p q ts b = Some (ok, b') \<Longrightarrow> book_step b b'"
| cancel: "cancel_order i b = Some (ok, b') \<Longrightarrow> book_step b b'"

inductive reachable :: "order_book \<Rightarrow> bool" where
  init: "is_pow2 w \<Longrightarrow> 64 \<le> w \<Longrightarrow> w \<le> 2 ^ 62 \<Longrightarrow> reachable (new_book handler cap w)"
| step: "reachable b \<Longrightarrow> book_step b b' \<Longrightarrow> reachable b'"

inductive_cases book_stepE: "book_step b b'"

definition consistent :: "order_book \<Rightarrow> spec_book \<Rightarrow> bool" where
  "consistent b B \<longleftrightarrow> refines b B \<and> spec_inv B"

lemma spec_inv_empty: "spec_inv \<lparr>s_bids = [], s_asks = []\<rparr>"
  unfolding spec_inv_def side_all [of _ Buy] by (simp add: side_ok_def book_ids_def uncrossed_def)

lemma add_consistent:
  assumes "consistent b B" "price_ok p" "add_order i s p q ts b = Some (ok, b')"
  shows "\<exists>B' fs. spec_add (p_capacity (book_pool b)) i s p q B = (ok, B', fs) \<and> consistent b' B' \<and>
    fill_log b' = fill_log b @ (if has_handler b then fs else [])"
proof -
  obtain ok' B' fs where S: "spec_add (p_capacity (book_pool b)) i s p q B = (ok', B', fs)" by (metis prod_cases3)
  from add_order_sound [of b B p i s q ts] assms S have R: "ok = ok'" "refines b' B'"
    "fill_log b' = fill_log b @ (if has_handler b then fs else [])"
    by (auto simp: consistent_def add_result_def)
  moreover have "spec_inv B'" using spec_add_keeps_inv [OF _ S] assms(1) by (simp add: consistent_def)
  ultimately show ?thesis using S by (simp add: consistent_def)
qed

lemma cancel_consistent:
  assumes "consistent b B" "cancel_order i b = Some (ok, b')"
  shows "consistent b' (snd (spec_cancel i B)) \<and> ok = fst (spec_cancel i B) \<and> fill_log b' = fill_log b"
proof -
  from cancel_order_ok [of b B i] assms have "refines b' (snd (spec_cancel i B))" "ok = fst (spec_cancel i B)" "fill_log b' = fill_log b"
    by (auto simp: consistent_def)
  moreover have "spec_inv (snd (spec_cancel i B))"
    using spec_cancel_keeps_inv [of B i "fst (spec_cancel i B)"] assms(1) by (simp add: consistent_def)
  ultimately show ?thesis by (simp add: consistent_def)
qed

lemma reachable_consistent: "reachable b \<Longrightarrow> \<exists>B. consistent b B"
proof (induction rule: reachable.induct)
  case (init w handler cap)
  then show ?case using refines_new [of w handler cap] spec_inv_empty by (auto simp: consistent_def)
next
  case (step b b')
  then obtain B where "consistent b B" by blast
  with step(2) show ?case by (elim book_stepE) (use add_consistent cancel_consistent in blast)+
qed

section \<open>What every reachable book guarantees\<close>

lemma total_at_refines: "refines b B \<Longrightarrow> total_at (amap (ladder_of s b)) p = level_qty_of (side_of s B) p"
  using total_at_view [OF core_relD(1) [OF book_relD(1)]] by (auto simp: refines_def bview_side book_heap_def)

lemma total_at_nonneg: "refines b B \<Longrightarrow> 0 \<le> total_at (amap (ladder_of s b)) p"
  using level_nonneg [OF core_relD(1) [OF book_relD(1)]] by (auto simp: refines_def total_at_def split: option.splits)

lemma reachable_progress:
  assumes "reachable b"
  shows "(price_ok p \<longrightarrow> fits_int64 q \<longrightarrow> total_at (amap (ladder_of s b)) p + q < 2 ^ 63 \<longrightarrow>
      (\<exists>ok b'. add_order i s p q ts b = Some (ok, b') \<and> reachable b')) \<and>
    (\<exists>ok b'. cancel_order i b = Some (ok, b') \<and> reachable b')"
proof -
  from reachable_consistent [OF assms] obtain B where B: "refines b B" "spec_inv B" by (auto simp: consistent_def)
  have "\<exists>ok b'. add_order i s p q ts b = Some (ok, b') \<and> reachable b'"
    if p: "price_ok p" "fits_int64 q" "total_at (amap (ladder_of s b)) p + q < 2 ^ 63"
  proof -
    obtain ok B' fs where S: "spec_add (p_capacity (book_pool b)) i s p q B = (ok, B', fs)" by (metis prod_cases3)
    have "book_fits B'" using spec_add_fits [OF B(2) refines_fits [OF B(1)] _ S] p(3) total_at_refines [OF B(1)] by simp
    from add_order_runs [OF B(1) p(1,2) S this, of ts] obtain b' where "add_order i s p q ts b = Some (ok, b')" by blast
    with assms p(1) show ?thesis by (blast intro: reachable.step book_step.add)
  qed
  moreover from cancel_order_ok [OF B(1), of i] obtain ok b' where "cancel_order i b = Some (ok, b')" by blast
  ultimately show ?thesis using assms by (blast intro: reachable.step book_step.cancel)
qed

lemma best_prices_apart:
  assumes "consistent b B" "best_bid b = Some (Some x)" "best_ask b = Some (Some y)"
  shows "x < y"
proof -
  from assms have "first_opt (s_bids B) \<noteq> None" "first_opt (s_asks B) \<noteq> None"
    and x: "map_option fst (first_opt (s_bids B)) = Some x" and y: "map_option fst (first_opt (s_asks B)) = Some y"
    by (auto simp: consistent_def best_bid_ok best_ask_ok)
  then have "x \<in> fst ` set (s_bids B)" "y \<in> fst ` set (s_asks B)" by (force dest: first_opt_in_set)+
  with assms(1) show ?thesis by (auto simp: consistent_def spec_inv_def uncrossed_def)
qed

section \<open>A concrete history\<close>

text \<open>A book with one bid and one ask, for the witnesses.\<close>

lemma two_sided_qty:
  assumes "0 < u" "u < 2 ^ 63" "0 < v" "v < 2 ^ 63"
  shows "\<exists>b. reachable b \<and> refines b \<lparr>s_bids = [(3, [(1, u)])], s_asks = [(4, [(2, v)])]\<rparr> \<and> has_handler b \<and>
    p_capacity (book_pool b) = 4"
proof -
  let ?b0 = "new_book True 4 64" and ?B0 = "\<lparr>s_bids = [], s_asks = []\<rparr>" and ?B1 = "\<lparr>s_bids = [(3, [(1, u)])], s_asks = []\<rparr>"
  have p: "price_ok 3" "price_ok 4" by (simp_all add: price_ok_def)
  have 0: "refines ?b0 ?B0" "reachable ?b0"
    using refines_new [of 64 True 4] reachable.init [of 64 True 4] is_pow2_power [of 6] by simp_all
  have c0: "p_capacity (book_pool ?b0) = 4" "has_handler ?b0" by (simp_all add: new_book_def new_pool_def)
  have S1: "spec_add 4 1 Buy 3 u ?B0 = (True, ?B1, [])" using assms(1) by (simp add: spec_add_def book_ids_def)
  have f: "fits_int64 u" "fits_int64 v" "book_fits ?B1" "book_fits \<lparr>s_bids = [(3, [(1, u)])], s_asks = [(4, [(2, v)])]\<rparr>"
    using assms by (simp_all add: fits_int64_def book_fits_def)
  from add_order_runs [OF 0(1) p(1) f(1), of 1 Buy True ?B1 "[]" 0] S1 c0 f(3) obtain b1 where
    1: "add_order 1 Buy 3 u 0 ?b0 = Some (True, b1)" "refines b1 ?B1" "has_handler b1" "p_capacity (book_pool b1) = 4"
    by (auto simp: add_result_def)
  have r1: "reachable b1" using 0(2) 1(1) p(1) by (blast intro: reachable.step book_step.add)
  have S2: "spec_add 4 2 Sell 4 v ?B1 = (True, \<lparr>s_bids = [(3, [(1, u)])], s_asks = [(4, [(2, v)])]\<rparr>, [])"
    using assms(3) by (simp add: spec_add_def book_ids_def side_orders_def pbetter_def)
  from add_order_runs [OF 1(2) p(2) f(2) _ f(4), of 2 Sell True "[]" 0] S2 1(3,4) obtain b2 where
    2: "add_order 2 Sell 4 v 0 b1 = Some (True, b2)" "refines b2 \<lparr>s_bids = [(3, [(1, u)])], s_asks = [(4, [(2, v)])]\<rparr>"
      "has_handler b2" "p_capacity (book_pool b2) = 4"
    by (auto simp: add_result_def)
  have "reachable b2" using r1 2(1) p(2) by (blast intro: reachable.step book_step.add)
  with 2 show ?thesis by blast
qed

lemma two_sided_book:
  "\<exists>b. reachable b \<and> refines b \<lparr>s_bids = [(3, [(1, 5)])], s_asks = [(4, [(2, 6)])]\<rparr> \<and> has_handler b \<and>
    p_capacity (book_pool b) = 4"
  using two_sided_qty [of 5 6] by simp

end
