(* ===== verification/Map_Book.thy ===== *)
theory Map_Book
  imports Book_Queries
begin

text \<open>
  The class \<^verbatim>\<open>MapOrderBook\<close> of \<^verbatim>\<open>tests/support/map_order_book.hpp\<close>: the order book on two
  \<^verbatim>\<open>std::map\<close>s, which the differential tests use as the oracle for the ladder book and the benchmark as
  the other side of its comparison.  A \<^verbatim>\<open>std::map\<close> is the list of its entries in the order of its
  comparator, and an iterator or a reference to an entry is the key of the entry.  Unlike the ladder book,
  this one does not check for duplicate ids.
\<close>

section \<open>The standard map\<close>

type_synonym level_map = "(price \<times> price_level) list"

text \<open>\<^verbatim>\<open>DescendingPrice\<close> for the bids, \<^verbatim>\<open>std::less\<close> for the asks.\<close>

fun price_before :: "side \<Rightarrow> price \<Rightarrow> price \<Rightarrow> bool" where
  "price_before Buy a b = (a > b)"
| "price_before Sell a b = (a < b)"

text \<open>\<^verbatim>\<open>operator[]\<close> makes the entry when it does not exist, with a value-initialised level.\<close>

fun map_at :: "side \<Rightarrow> price \<Rightarrow> level_map \<Rightarrow> level_map" where
  "map_at s p [] = [(p, empty_level 0)]"
| "map_at s p ((q, l) # M) =
     (if price_before s p q then (p, empty_level 0) # (q, l) # M
      else if price_before s q p then (q, l) # map_at s p M
      else (q, l) # M)"

definition map_begin :: "level_map \<Rightarrow> price option" where
  "map_begin M = (case M of [] \<Rightarrow> None | (p, l) # _ \<Rightarrow> Some p)"

text \<open>Writing through a reference to an entry, and \<^verbatim>\<open>erase\<close>.\<close>

definition map_store :: "price \<Rightarrow> price_level \<Rightarrow> level_map \<Rightarrow> level_map option" where
  "map_store p l M = (if map_of M p = None then None else Some (map (\<lambda>(q, k). if q = p then (q, l) else (q, k)) M))"

definition map_erase :: "price \<Rightarrow> level_map \<Rightarrow> level_map" where
  "map_erase p M = filter (\<lambda>(q, k). q \<noteq> p) M"

section \<open>State\<close>

record map_book =
  mb_bids :: level_map
  mb_asks :: level_map
  mb_pool :: pool
  mb_ids :: id_map
  mb_handler :: bool
  mb_log :: "fill list"

definition new_map_book :: "bool \<Rightarrow> nat \<Rightarrow> map_book" where
  "new_map_book handler cap = \<lparr>mb_bids = [], mb_asks = [], mb_pool = new_pool cap,
     mb_ids = new_id_map (id_map_capacity cap), mb_handler = handler, mb_log = []\<rparr>"

fun map_side :: "side \<Rightarrow> map_book \<Rightarrow> level_map" where
  "map_side Buy b = mb_bids b"
| "map_side Sell b = mb_asks b"

fun set_map :: "side \<Rightarrow> level_map \<Rightarrow> map_book \<Rightarrow> map_book" where
  "set_map Buy M b = b\<lparr>mb_bids := M\<rparr>"
| "set_map Sell M b = b\<lparr>mb_asks := M\<rparr>"

abbreviation mb_heap :: "map_book \<Rightarrow> heap" where
  "mb_heap b \<equiv> storage (mb_pool b)"

definition set_mb_heap :: "heap \<Rightarrow> map_book \<Rightarrow> map_book" where
  "set_mb_heap h b = b\<lparr>mb_pool := (mb_pool b)\<lparr>storage := h\<rparr>\<rparr>"

section \<open>Operations\<close>

definition map_emit :: "fill \<Rightarrow> map_book \<Rightarrow> map_book" where
  "map_emit f b = (if mb_handler b then b\<lparr>mb_log := mb_log b @ [f]\<rparr> else b)"

definition map_match_step :: "side \<Rightarrow> ptr \<Rightarrow> price \<Rightarrow> price \<Rightarrow> map_book \<Rightarrow> map_book option" where
  "map_match_step s incoming it trade_price b = do {
     level \<leftarrow> map_of (map_side s b) it;
     resting \<leftarrow> l_head level;
     inc \<leftarrow> mb_heap b incoming;
     res \<leftarrow> mb_heap b resting;
     traded \<leftarrow> Some (min (o_quantity inc) (o_quantity res));
     left \<leftarrow> checked64 (o_quantity inc - traded);
     h \<leftarrow> modify (mb_heap b) incoming (\<lambda>x. x\<lparr>o_quantity := left\<rparr>);
     (h, level) \<leftarrow> reduce_head h level traded;
     M \<leftarrow> map_store it level (map_side s b);
     b \<leftarrow> Some (set_map s M (set_mb_heap h b));
     b \<leftarrow> Some (map_emit \<lparr>resting_id = o_id res, incoming_id = o_id inc, f_price = trade_price, f_qty = traded\<rparr> b);
     res \<leftarrow> mb_heap b resting;
     if o_quantity res = 0
     then do {
       (h, level) \<leftarrow> remove (mb_heap b) level resting;
       M \<leftarrow> map_store it level (map_side s b);
       b \<leftarrow> Some (set_map s M (set_mb_heap h b));
       dead \<leftarrow> mb_heap b resting;
       b \<leftarrow> Some (b\<lparr>mb_ids := snd (oid_erase (mb_ids b) (o_id dead))\<rparr>);
       P \<leftarrow> release (mb_pool b) resting;
       Some (b\<lparr>mb_pool := P\<rparr>) }
     else Some b }"

partial_function (option) map_match_against_level :: "side \<Rightarrow> ptr \<Rightarrow> price \<Rightarrow> price \<Rightarrow> map_book \<Rightarrow> map_book option" where
  "map_match_against_level s incoming it trade_price b =
     Option.bind (mb_heap b incoming) (\<lambda>inc.
     Option.bind (map_of (map_side s b) it) (\<lambda>level.
       if o_quantity inc > 0 \<and> \<not> level_empty level
       then Option.bind (map_match_step s incoming it trade_price b) (map_match_against_level s incoming it trade_price)
       else Some b))"

text \<open>The two loops of \<^verbatim>\<open>match\<close>, for the side \<open>s\<close> of the resting orders.\<close>

fun map_no_cross :: "side \<Rightarrow> price \<Rightarrow> price \<Rightarrow> bool" where
  "map_no_cross Sell first price = (first > price)"
| "map_no_cross Buy first price = (first < price)"

partial_function (option) map_match_loop :: "side \<Rightarrow> ptr \<Rightarrow> map_book \<Rightarrow> map_book option" where
  "map_match_loop s incoming b =
     Option.bind (mb_heap b incoming) (\<lambda>inc.
       if o_quantity inc > 0 \<and> map_side s b \<noteq> []
       then Option.bind (map_begin (map_side s b)) (\<lambda>it.
         if map_no_cross s it (o_price inc) then Some b
         else Option.bind (map_match_against_level s incoming it it b) (\<lambda>b.
           Option.bind (map_of (map_side s b) it) (\<lambda>level.
             map_match_loop s incoming (if level_empty level then set_map s (map_erase it (map_side s b)) b else b))))
       else Some b)"

definition map_match :: "ptr \<Rightarrow> map_book \<Rightarrow> map_book option" where
  "map_match incoming b = do {
     inc \<leftarrow> mb_heap b incoming;
     map_match_loop (if o_side inc = Buy then Sell else Buy) incoming b }"

text \<open>As for the ladder book, the price and the quantity are 64-bit values.\<close>

definition map_add_order :: "order_id \<Rightarrow> side \<Rightarrow> price \<Rightarrow> quantity \<Rightarrow> nanos \<Rightarrow> map_book \<Rightarrow> map_book option" where
  "map_add_order oid s price qty ts b =
     (if \<not> (fits_int64 price \<and> fits_int64 qty) then None else
      case allocate (mb_pool b) \<lparr>o_id = oid, o_side = s, o_price = price, o_quantity = qty,
         o_timestamp = ts, o_prev = None, o_next = None\<rparr> of
        (None, P) \<Rightarrow> Some (b\<lparr>mb_pool := P\<rparr>)
      | (Some ptr, P) \<Rightarrow> do {
          b \<leftarrow> map_match ptr (b\<lparr>mb_pool := P\<rparr>);
          x \<leftarrow> mb_heap b ptr;
          if o_quantity x > 0
          then do {
            M \<leftarrow> Some (map_at (o_side x) (o_price x) (map_side (o_side x) b));
            level \<leftarrow> map_of M (o_price x);
            (h, level) \<leftarrow> push_back (mb_heap b) level ptr;
            M \<leftarrow> map_store (o_price x) level M;
            m \<leftarrow> oid_insert (mb_ids b) (o_id x) (Some ptr);
            Some ((set_map (o_side x) M (set_mb_heap h b))\<lparr>mb_ids := m\<rparr>) }
          else do {
            P \<leftarrow> release (mb_pool b) ptr;
            Some (b\<lparr>mb_pool := P\<rparr>) } })"

definition map_remove_from_book :: "side \<Rightarrow> ptr \<Rightarrow> map_book \<Rightarrow> (bool \<times> map_book) option" where
  "map_remove_from_book s ptr b = do {
     x \<leftarrow> mb_heap b ptr;
     case map_of (map_side s b) (o_price x) of
       None \<Rightarrow> Some (False, b)
     | Some level \<Rightarrow> do {
         (h, level) \<leftarrow> remove (mb_heap b) level ptr;
         M \<leftarrow> map_store (o_price x) level (map_side s b);
         M \<leftarrow> Some (if level_empty level then map_erase (o_price x) M else M);
         Some (True, set_map s M (set_mb_heap h b)) } }"

definition map_cancel_order :: "order_id \<Rightarrow> map_book \<Rightarrow> (bool \<times> map_book) option" where
  "map_cancel_order oid b =
     (case oid_find (mb_ids b) oid of
        None \<Rightarrow> Some (False, b)
      | Some ptr \<Rightarrow> do {
          x \<leftarrow> mb_heap b ptr;
          (erased, b) \<leftarrow> map_remove_from_book (o_side x) ptr b;
          if \<not> erased then Some (False, b)
          else do {
            b \<leftarrow> Some (b\<lparr>mb_ids := snd (oid_erase (mb_ids b) oid)\<rparr>);
            P \<leftarrow> release (mb_pool b) ptr;
            Some (True, b\<lparr>mb_pool := P\<rparr>) } })"

text \<open>The \<^verbatim>\<open>Price&\<close> output parameter is the value under \<^const>\<open>Some\<close>.\<close>

definition map_best_bid :: "map_book \<Rightarrow> price option" where
  "map_best_bid b = map_begin (mb_bids b)"

definition map_best_ask :: "map_book \<Rightarrow> price option" where
  "map_best_ask b = map_begin (mb_asks b)"

fun map_copy_top :: "level_map \<Rightarrow> nat \<Rightarrow> level_qty list" where
  "map_copy_top [] n = []"
| "map_copy_top ((p, l) # M) n =
     (if 0 < n then \<lparr>lq_price = p, lq_qty = total_qty l\<rparr> # map_copy_top M (n - 1) else [])"

definition map_top_levels :: "side \<Rightarrow> nat \<Rightarrow> map_book \<Rightarrow> level_qty list" where
  "map_top_levels s max_levels b = (if s = Buy then map_copy_top (mb_bids b) max_levels else map_copy_top (mb_asks b) max_levels)"

definition map_total_resting_qty :: "map_book \<Rightarrow> quantity option" where
  "map_total_resting_qty b = do {
     total \<leftarrow> foldM (\<lambda>(p, l) total. checked64 (total + total_qty l)) (mb_bids b) 0;
     foldM (\<lambda>(p, l) total. checked64 (total + total_qty l)) (mb_asks b) total }"

section \<open>The standard map represents a finite map\<close>

abbreviation price_sorted :: "side \<Rightarrow> (price \<times> 'a) list \<Rightarrow> bool" where
  "price_sorted s \<equiv> sorted_wrt (\<lambda>x y. pbetter s (fst x) (fst y))"

lemma price_before_pbetter: "price_before s = pbetter s" "map_no_cross s p limit = pbetter s limit p"
  by (cases s; simp add: fun_eq_iff pbetter_def)+

lemma map_of_map_at: "price_sorted s M \<Longrightarrow> map_of (map_at s p M) = (case map_of M p of None \<Rightarrow> (map_of M)(p \<mapsto> empty_level 0) | Some l \<Rightarrow> map_of M)"
proof (induction s p M rule: map_at.induct)
  case (2 s p q l M)
  consider "pbetter s p q" | "\<not> pbetter s p q" "pbetter s q p" | "p = q" using pbetter_cases by blast
  then show ?case
  proof cases
    case 1
    then have "\<forall>x \<in> set ((q, l) # M). fst x \<noteq> p" using "2.prems" by (auto dest: pbetter_asym)
    then have "map_of ((q, l) # M) p = None" by (auto simp: map_of_eq_None_iff)
    with 1 show ?thesis by (simp add: price_before_pbetter)
  next
    case 2
    then have "p \<noteq> q" by auto
    moreover have "map_of (map_at s p M) = (case map_of M p of None \<Rightarrow> (map_of M)(p \<mapsto> empty_level 0) | Some l \<Rightarrow> map_of M)"
      using 2 "2.IH" "2.prems" by (simp add: price_before_pbetter)
    ultimately show ?thesis using 2 by (auto simp: price_before_pbetter split: option.splits)
  next
    case 3
    then show ?thesis by (simp add: price_before_pbetter)
  qed
qed (simp add: price_before_pbetter)

lemma keys_map_at: "fst ` set (map_at s p M) = insert p (fst ` set M)"
  by (induction s p M rule: map_at.induct) (use pbetter_cases in \<open>auto simp: price_before_pbetter\<close>)

lemma sorted_map_at: "price_sorted s M \<Longrightarrow> price_sorted s (map_at s p M)"
proof (induction s p M rule: map_at.induct)
  case (2 s p q l M)
  have "\<forall>x \<in> fst ` set (map_at s p M). pbetter s q x" if "pbetter s q p" using that "2.prems" unfolding keys_map_at by auto
  with 2 show ?case by (auto simp: price_before_pbetter intro: pbetter_trans)
qed simp

lemma map_store_ok:
  assumes "map_of M p \<noteq> None" "price_sorted s M"
  shows "\<exists>M'. map_store p l M = Some M' \<and> map_of M' = (map_of M)(p \<mapsto> l) \<and> price_sorted s M'"
proof -
  let ?f = "\<lambda>(q, k). if q = p then (q, l) else (q, k)"
  have "map_of (map ?f N) = (if map_of N p = None then map_of N else (map_of N)(p \<mapsto> l))" for N :: level_map
    by (induction N) (auto simp: fun_eq_iff)
  moreover have "price_sorted s (map ?f M)" using assms(2) by (simp add: sorted_wrt_map case_prod_beta if_distrib cong: if_cong)
  ultimately show ?thesis using assms(1) by (auto simp: map_store_def)
qed

lemma map_erase_ok: "map_of (map_erase p M) = (map_of M)(p := None)" "price_sorted s M \<Longrightarrow> price_sorted s (map_erase p M)"
  by (induction M) (auto simp: map_erase_def fun_eq_iff)

section \<open>The simulation relation\<close>

abbreviation map_levels :: "map_book \<Rightarrow> side \<Rightarrow> levels" where
  "map_levels b \<equiv> \<lambda>s. map_of (map_side s b)"

definition map_rel :: "map_book \<Rightarrow> ghost \<Rightarrow> ptr set \<Rightarrow> bool" where
  "map_rel b g ex \<longleftrightarrow> (\<forall>s. price_sorted s (map_side s b)) \<and> core_rel (map_levels b) (mb_pool b) (mb_ids b) g ex"

definition map_same :: "map_book \<Rightarrow> map_book \<Rightarrow> bool" where
  "map_same b c \<longleftrightarrow> mb_handler c = mb_handler b \<and> p_capacity (mb_pool c) = p_capacity (mb_pool b)"

lemma map_side_set_map [simp]: "map_side s (set_map s' M b) = (if s = s' then M else map_side s b)"
  by (cases s; cases s') simp_all

lemma map_side_upd [simp]:
  "map_side s (set_mb_heap h b) = map_side s b" "map_side s (b\<lparr>mb_pool := P\<rparr>) = map_side s b" "map_side s (b\<lparr>mb_ids := m\<rparr>) = map_side s b"
  "map_side s (map_emit f b) = map_side s b" "map_side s (b\<lparr>mb_log := fl\<rparr>) = map_side s b"
  by (cases s; simp add: set_mb_heap_def map_emit_def)+

lemma map_book_sel [simp]:
  "mb_pool (set_map s M b) = mb_pool b" "mb_ids (set_map s M b) = mb_ids b" "mb_handler (set_map s M b) = mb_handler b" "mb_log (set_map s M b) = mb_log b"
  "mb_pool (set_mb_heap h b) = (mb_pool b)\<lparr>storage := h\<rparr>" "mb_ids (set_mb_heap h b) = mb_ids b" "mb_handler (set_mb_heap h b) = mb_handler b"
  "mb_log (set_mb_heap h b) = mb_log b" "mb_pool (map_emit f b) = mb_pool b" "mb_ids (map_emit f b) = mb_ids b" "mb_handler (map_emit f b) = mb_handler b"
  "mb_log (map_emit f b) = mb_log b @ (if mb_handler b then [f] else [])"
  by (cases s; simp add: set_mb_heap_def map_emit_def)+

lemma map_relD:
  assumes "map_rel b g ex"
  shows "core_rel (map_levels b) (mb_pool b) (mb_ids b) g ex" "price_sorted s (map_side s b)"
  using assms by (simp_all add: map_rel_def)

lemma map_rel_step:
  assumes rel: "map_rel b g ex" and M: "price_sorted s M" and core: "core_rel ((map_levels b)(s := map_of M)) P m g' ex'"
    and b': "\<And>t. map_side t b' = (if t = s then M else map_side t b)" "mb_pool b' = P" "mb_ids b' = m"
  shows "map_rel b' g' ex'"
proof -
  have "map_levels b' = (map_levels b)(s := map_of M)" using b'(1) by auto
  then show ?thesis using assms by (simp add: map_rel_def)
qed

text \<open>The entries are in the order of the ghost data.\<close>

lemma map_keys:
  assumes "map_rel b g ex"
  shows "map fst (map_side s b) = map fst (g s)"
proof -
  note S = side_relD [OF core_relD(1) [OF map_relD(1) [OF assms], of s]]
  define k :: "int \<Rightarrow> int" where "k p = (if s = Buy then p else - p)" for p
  have k: "pbetter s x y \<longleftrightarrow> k y < k x" for x y by (cases s) (auto simp: pbetter_def k_def)
  have "set (map fst (map_side s b)) = set (map fst (g s))" using S(2) by (simp add: dom_map_of_conv_image_fst)
  then show ?thesis
    using map_relD(2) [OF assms, of s] S(1) by (intro sorted_desc_unique [where f = k]) (simp_all add: sorted_wrt_map k)
qed

lemma map_begin_front:
  assumes "map_rel b g ex"
  shows "map_begin (map_side s b) = map_option fst (first_opt (g s))" "map_side s b = [] \<longleftrightarrow> g s = []"
proof -
  show "map_side s b = [] \<longleftrightarrow> g s = []" using map_keys [OF assms, of s] by (metis map_is_Nil_conv)
  show "map_begin (map_side s b) = map_option fst (first_opt (g s))"
    using map_keys [OF assms, of s] by (cases "map_side s b"; cases "g s") (auto simp: map_begin_def)
qed

section \<open>The laws of a book with levels\<close>

lemma map_trade_partial:
  assumes rel: "map_rel b g {inc}" and g: "g s = (p, x # xs) # ls" and r: "r = p"
    and io: "mb_heap b inc = Some io" and xo: "mb_heap b x = Some xo" and fits: "fits_int64 (o_quantity io)"
    and q: "0 < o_quantity io" "o_quantity io < o_quantity xo"
  shows "\<exists>b'. map_match_step s inc r p b = Some b' \<and> map_rel b' g {inc} \<and> r = p \<and> map_same b b' \<and>
    mb_heap b' = (mb_heap b)(inc \<mapsto> io\<lparr>o_quantity := 0\<rparr>, x \<mapsto> xo\<lparr>o_quantity := o_quantity xo - o_quantity io\<rparr>) \<and>
    mb_log b' = mb_log b @ (if mb_handler b
      then [\<lparr>resting_id = o_id xo, incoming_id = o_id io, f_price = p, f_qty = o_quantity io\<rparr>] else [])"
proof -
  note C = map_relD(1) [OF rel]
  from core_level(1) [OF C, of s "[]" p "x # xs" ls] g obtain l where l: "map_of (map_side s b) p = Some l" by auto
  let ?h = "(mb_heap b)(inc \<mapsto> io\<lparr>o_quantity := 0\<rparr>)"
  let ?h' = "?h(x \<mapsto> xo\<lparr>o_quantity := o_quantity xo - o_quantity io\<rparr>)"
  from core_partial [OF C g l io xo q refl] obtain l' where
    l': "l_head l = Some x" "reduce_head ?h l (o_quantity io) = Some (?h', l')"
      "core_rel ((map_levels b)(s := (map_levels b s)(p \<mapsto> l'))) ((mb_pool b)\<lparr>storage := ?h'\<rparr>) (mb_ids b) g {inc}" by auto
  from map_store_ok [of "map_side s b" p s l'] map_relD(2) [OF rel, of s] l obtain M where
    M: "map_store p l' (map_side s b) = Some M" "map_of M = (map_levels b s)(p \<mapsto> l')" "price_sorted s M" by auto
  let ?b = "map_emit \<lparr>resting_id = o_id xo, incoming_id = o_id io, f_price = p, f_qty = o_quantity io\<rparr> (set_map s M (set_mb_heap ?h' b))"
  have "inc \<noteq> x" using core_level(4) [OF C, of s "[]" p "x # xs" ls] g by auto
  then have "map_match_step s inc r p b = Some ?b"
    using r l l'(1,2) io xo q M(1) by (simp add: map_match_step_def mem_simps min_def checked64_def fits_int64_def)
  moreover have "map_rel ?b g {inc}" using l'(3) M(2) by (intro map_rel_step [OF rel M(3)]) simp_all
  ultimately show ?thesis using r by (auto simp: map_same_def)
qed

lemma map_trade_full:
  assumes rel: "map_rel b g {inc}" and g: "g s = (p, x # xs) # ls" and r: "r = p"
    and io: "mb_heap b inc = Some io" and xo: "mb_heap b x = Some xo" and fits: "fits_int64 (o_quantity io)"
    and q: "0 < o_quantity io" "o_quantity xo \<le> o_quantity io"
  shows "\<exists>b'. map_match_step s inc r p b = Some b' \<and> map_rel b' (g(s := (p, xs) # ls)) {inc} \<and> r = p \<and> map_same b b' \<and>
    mb_heap b' inc = Some (io\<lparr>o_quantity := o_quantity io - o_quantity xo\<rparr>) \<and>
    (\<forall>y \<in> set xs. data (mb_heap b') y = data (mb_heap b) y) \<and>
    (\<forall>y. y \<notin> set (x # xs) \<union> {inc} \<longrightarrow> mb_heap b' y = mb_heap b y) \<and>
    mb_log b' = mb_log b @ (if mb_handler b
      then [\<lparr>resting_id = o_id xo, incoming_id = o_id io, f_price = p, f_qty = o_quantity xo\<rparr>] else [])"
proof -
  note C = map_relD(1) [OF rel]
  from core_level(1) [OF C, of s "[]" p "x # xs" ls] g obtain l where l: "map_of (map_side s b) p = Some l" by auto
  let ?h = "(mb_heap b)(inc \<mapsto> io\<lparr>o_quantity := o_quantity io - o_quantity xo\<rparr>)"
  let ?h' = "?h(x \<mapsto> xo\<lparr>o_quantity := 0\<rparr>)"
  from core_full [OF C g l io xo refl] obtain l1 h3 l2 xd m' P' where
    c: "l_head l = Some x" "reduce_head ?h l (o_quantity xo) = Some (?h', l1)" "remove ?h' l1 x = Some (h3, l2)"
      "h3 x = Some xd" "o_id xd = o_id xo" "oid_erase (mb_ids b) (o_id xo) = (True, m')" "release ((mb_pool b)\<lparr>storage := h3\<rparr>) x = Some P'"
    and P': "p_capacity P' = p_capacity (mb_pool b)" "storage P' inc = Some (io\<lparr>o_quantity := o_quantity io - o_quantity xo\<rparr>)"
      "\<forall>y \<in> set xs. data (storage P') y = data (mb_heap b) y" "\<forall>y. y \<notin> set (x # xs) \<union> {inc} \<longrightarrow> storage P' y = mb_heap b y"
    and core: "core_rel ((map_levels b)(s := (map_levels b s)(p \<mapsto> l2))) P' m' (g(s := (p, xs) # ls)) {inc}"
    by (elim exE conjE) (rule that; assumption)
  from map_store_ok [of "map_side s b" p s l1] map_relD(2) [OF rel, of s] l obtain M where
    M: "map_store p l1 (map_side s b) = Some M" "map_of M = (map_levels b s)(p \<mapsto> l1)" "price_sorted s M" by auto
  from map_store_ok [of M p s l2] M(2,3) obtain M' where
    M': "map_store p l2 M = Some M'" "map_of M' = (map_levels b s)(p \<mapsto> l2)" "price_sorted s M'" by auto
  let ?b1 = "map_emit \<lparr>resting_id = o_id xo, incoming_id = o_id io, f_price = p, f_qty = o_quantity xo\<rparr> (set_map s M (set_mb_heap ?h' b))"
  let ?b = "(set_map s M' (set_mb_heap h3 ?b1))\<lparr>mb_ids := m', mb_pool := P'\<rparr>"
  have "inc \<noteq> x" using core_level(4) [OF C, of s "[]" p "x # xs" ls] g by auto
  moreover have "0 < o_quantity xo" using core_level(3) [OF C, of s "[]" p "x # xs" ls x] g xo by (auto simp: resting_ok_def)
  then have "fits_int64 (o_quantity io - o_quantity xo)" using fits q by (simp add: fits_int64_def)
  ultimately have "map_match_step s inc r p b = Some ?b"
    using r l c io xo M(1) M'(1) min_absorb2 [OF q(2)] by (simp add: map_match_step_def mem_simps checked64_Some)
  moreover have "map_rel ?b (g(s := (p, xs) # ls)) {inc}" using core M'(2) by (intro map_rel_step [OF rel M'(3), of P' m']) simp_all
  ultimately show ?thesis using P' r by (intro exI [of _ ?b]) (simp add: map_same_def)
qed

definition map_close :: "side \<Rightarrow> price \<Rightarrow> map_book \<Rightarrow> map_book option" where
  "map_close s it b = Some (set_map s (map_erase it (map_side s b)) b)"

lemma map_close_ok:
  assumes rel: "map_rel b g ex" and g: "g s = (p, []) # ls" and r: "r = p"
  shows "\<exists>b'. map_close s r b = Some b' \<and> map_rel b' (g(s := ls)) ex \<and> map_same b b' \<and> mb_pool b' = mb_pool b \<and> mb_log b' = mb_log b"
proof -
  have "core_rel ((map_levels b)(s := (map_levels b s)(p := None))) (mb_pool b) (mb_ids b) (g(s := [] @ ls)) ex"
    using g by (intro core_close [OF map_relD(1) [OF rel]]) simp
  then have "map_rel (set_map s (map_erase p (map_side s b)) b) (g(s := ls)) ex"
    by (intro map_rel_step [OF rel map_erase_ok(2) [OF map_relD(2) [OF rel]]]) (simp_all add: map_erase_ok(1))
  with r show ?thesis by (simp add: map_close_def map_same_def)
qed

definition map_enter :: "order \<Rightarrow> map_book \<Rightarrow> ptr option \<times> map_book" where
  "map_enter xo b = (case allocate (mb_pool b) xo of (x, P) \<Rightarrow> (x, b\<lparr>mb_pool := P\<rparr>))"

definition map_rest :: "ptr \<Rightarrow> map_book \<Rightarrow> map_book option" where
  "map_rest ptr b = do {
     x \<leftarrow> mb_heap b ptr;
     M \<leftarrow> Some (map_at (o_side x) (o_price x) (map_side (o_side x) b));
     level \<leftarrow> map_of M (o_price x);
     (h, level) \<leftarrow> push_back (mb_heap b) level ptr;
     M \<leftarrow> map_store (o_price x) level M;
     m \<leftarrow> oid_insert (mb_ids b) (o_id x) (Some ptr);
     Some ((set_map (o_side x) M (set_mb_heap h b))\<lparr>mb_ids := m\<rparr>) }"

definition map_release :: "ptr \<Rightarrow> map_book \<Rightarrow> map_book option" where
  "map_release ptr b = do { P \<leftarrow> release (mb_pool b) ptr; Some (b\<lparr>mb_pool := P\<rparr>) }"

definition map_drop :: "order_id \<Rightarrow> ptr \<Rightarrow> map_book \<Rightarrow> map_book option" where
  "map_drop i ptr b = do {
     x \<leftarrow> mb_heap b ptr;
     (erased, b) \<leftarrow> map_remove_from_book (o_side x) ptr b;
     if erased then map_release ptr (b\<lparr>mb_ids := snd (oid_erase (mb_ids b) i)\<rparr>) else None }"

lemma map_rel_pool: "map_rel b g ex \<Longrightarrow> core_rel (map_levels b) P (mb_ids b) g' ex' \<Longrightarrow> map_rel (b\<lparr>mb_pool := P\<rparr>) g' ex'"
  by (simp add: map_rel_def)

lemma map_enter_ok:
  assumes "map_rel b g {}" "0 < available (mb_pool b)"
  shows "\<exists>x b'. map_enter xo b = (Some x, b') \<and> map_rel b' g {x} \<and> map_same b b' \<and> mb_heap b' = (mb_heap b)(x \<mapsto> xo) \<and>
    x \<notin> dom (mb_heap b) \<and> mb_log b' = mb_log b"
  using core_allocate [OF map_relD(1) [OF assms(1)] assms(2), of xo] map_rel_pool [OF assms(1)] by (auto simp: map_enter_def map_same_def)

lemma map_release_ok:
  assumes "map_rel b g {x}"
  shows "\<exists>b'. map_release x b = Some b' \<and> map_rel b' g {} \<and> map_same b b' \<and> mb_heap b' = (mb_heap b)(x := None) \<and> mb_log b' = mb_log b"
  using core_release [OF map_relD(1) [OF assms]] map_rel_pool [OF assms] by (auto simp: map_release_def map_same_def)

text \<open>The level that the remainder joins.\<close>

lemma map_rest_level:
  assumes "map_rel b g {x}"
  shows "\<exists>l. map_of (map_at s p (map_side s b)) p = Some l \<and>
    (case map_levels b s p of None \<Rightarrow> level_rep (mb_heap b) l [] | Some l' \<Rightarrow> l = l')"
  using map_of_map_at [OF map_relD(2) [OF assms, of s], of p] by (cases "map_of (map_side s b) p") simp_all

lemma map_rest_overflow:
  assumes rel: "map_rel b g {x}" and xo: "mb_heap b x = Some xo"
    and over: "2 ^ 63 \<le> total_at (map_of (map_side (o_side xo) b)) (o_price xo) + o_quantity xo"
  shows "map_rest x b = None"
proof -
  from map_rest_level [OF rel, of "o_side xo" "o_price xo"] obtain l where
    l: "map_of (map_at (o_side xo) (o_price xo) (map_side (o_side xo) b)) (o_price xo) = Some l"
      "case map_levels b (o_side xo) (o_price xo) of None \<Rightarrow> level_rep (mb_heap b) l [] | Some l' \<Rightarrow> l = l'" by blast
  with core_rest_overflow [OF map_relD(1) [OF rel] xo l(2) over] xo show ?thesis by (simp add: map_rest_def)
qed

lemma map_rest_ok:
  assumes rel: "map_rel b g {x}" and ne: "no_empty g" and xo: "mb_heap b x = Some xo"
    and ok: "0 < o_quantity xo" "oid_map (mb_ids b) (o_id xo) = None"
    and room: "total_at (map_of (map_side (o_side xo) b)) (o_price xo) + o_quantity xo < 2 ^ 63"
  shows "\<exists>b'. map_rest x b = Some b' \<and> map_rel b' (g(o_side xo := enqueue (o_side xo) (o_price xo) x (g (o_side xo)))) {} \<and>
    no_empty (g(o_side xo := enqueue (o_side xo) (o_price xo) x (g (o_side xo)))) \<and>
    map_same b b' \<and> data (mb_heap b') = data (mb_heap b) \<and> mb_log b' = mb_log b"
proof -
  let ?s = "o_side xo" and ?p = "o_price xo" let ?M = "map_at ?s ?p (map_side ?s b)"
  note C = map_relD(1) [OF rel] and srt = map_relD(2) [OF rel, of ?s]
  note at = map_of_map_at [OF srt, of ?p]
  from map_rest_level [OF rel, of ?s ?p] obtain l where l: "map_of ?M ?p = Some l"
    and old: "case map_levels b ?s ?p of None \<Rightarrow> level_rep (mb_heap b) l [] | Some l' \<Rightarrow> l = l'" by blast
  from core_rest [OF C ne xo refl refl ok old room] obtain h l' m' where
    R: "push_back (mb_heap b) l x = Some (h, l')" "oid_insert (mb_ids b) (o_id xo) (Some x) = Some m'" "data h = data (mb_heap b)"
      "core_rel ((map_levels b)(?s := (map_levels b ?s)(?p \<mapsto> l'))) ((mb_pool b)\<lparr>storage := h\<rparr>) m' (g(?s := enqueue ?s ?p x (g ?s))) {}"
      "no_empty (g(?s := enqueue ?s ?p x (g ?s)))" by auto
  from map_store_ok [of ?M ?p ?s l'] sorted_map_at [OF srt] l obtain M where
    M: "map_store ?p l' ?M = Some M" "map_of M = (map_of ?M)(?p \<mapsto> l')" "price_sorted ?s M" by auto
  let ?b = "(set_map ?s M (set_mb_heap h b))\<lparr>mb_ids := m'\<rparr>"
  have "map_of M = (map_levels b ?s)(?p \<mapsto> l')" using M(2) at by (auto split: option.splits)
  with R(4) have "map_rel ?b (g(?s := enqueue ?s ?p x (g ?s))) {}" by (intro map_rel_step [OF rel M(3)]) simp_all
  moreover have "map_rest x b = Some ?b" using xo l R(1,2) M(1) by (simp add: map_rest_def)
  ultimately show ?thesis using R(3,5) by (auto simp: map_same_def)
qed

lemma map_drop_ok:
  assumes rel: "map_rel b g {}" and g: "g s = as @ (p, xs @ x # ys) # bs" and xo: "mb_heap b x = Some xo"
    and eq: "o_side xo = s" "o_price xo = p" "o_id xo = i"
  shows "\<exists>b'. map_drop i x b = Some b' \<and> map_rel b' (g(s := unlinked as p (xs @ ys) bs)) {} \<and> map_same b b' \<and>
    data (mb_heap b') = (data (mb_heap b))(x := None) \<and> mb_log b' = mb_log b"
proof -
  let ?g = "g(s := unlinked as p (xs @ ys) bs)"
  note C = map_relD(1) [OF rel]
  from core_level(1) [OF C g] obtain l where l: "map_of (map_side s b) p = Some l" by auto
  from core_unlink [OF C g xo l] eq(3) obtain h l' m' where
    U: "remove (mb_heap b) l x = Some (h, l')" "level_empty l' \<longleftrightarrow> xs @ ys = []" "oid_erase (mb_ids b) i = (True, m')" "data h = data (mb_heap b)"
      "core_rel ((map_levels b)(s := (map_levels b s)(p := if xs @ ys = [] then None else Some l'))) ((mb_pool b)\<lparr>storage := h\<rparr>) m' ?g {x}"
    by metis
  from map_store_ok [of "map_side s b" p s l'] map_relD(2) [OF rel, of s] l obtain M where
    M: "map_store p l' (map_side s b) = Some M" "map_of M = (map_levels b s)(p \<mapsto> l')" "price_sorted s M" by auto
  define M' where "M' = (if level_empty l' then map_erase p M else M)"
  have M': "map_of M' = (map_levels b s)(p := if xs @ ys = [] then None else Some l')" "price_sorted s M'"
    using M(2,3) U(2) map_erase_ok(1) [of p M] map_erase_ok(2) [of s M p] by (auto simp: M'_def)
  let ?b1 = "set_map s M' (set_mb_heap h b)" let ?b2 = "?b1\<lparr>mb_ids := m'\<rparr>"
  have "map_rel ?b2 ?g {x}" using U(5) M'(1) by (intro map_rel_step [OF rel M'(2)]) simp_all
  from map_release_ok [OF this] obtain b' where b': "map_release x ?b2 = Some b'" "map_rel b' ?g {}" "map_same ?b2 b'"
    "mb_heap b' = h(x := None)" "mb_log b' = mb_log b" by auto
  have "map_remove_from_book s x b = Some (True, ?b1)" using xo eq l U(1) M(1) by (simp add: map_remove_from_book_def M'_def)
  then have "map_drop i x b = Some b'" using xo eq(1) U(3) b'(1) by (simp add: map_drop_def)
  moreover have "data (mb_heap b') = (data (mb_heap b))(x := None)" using b'(4) U(4) by (simp add: data_upd)
  moreover have "map_same b b'" using b'(3) by (simp add: map_same_def)
  ultimately show ?thesis using b'(2,5) by blast
qed

interpretation map_engine: order_entry map_rel map_levels mb_pool mb_ids mb_log mb_handler map_same "\<lambda>s p r b. r = p" "\<lambda>s r b. map_of (map_side s b) r"
  "\<lambda>s b. map_begin (map_side s b)" map_match_step map_close map_match_against_level map_match_loop "\<lambda>_. True" map_enter map_rest map_release map_drop
proof unfold_locales
  fix b c d g ex s p r inc l io and ps and ls :: "(price \<times> ptr list) list"
  show "core_rel (map_levels b) (mb_pool b) (mb_ids b) g ex" if "map_rel b g ex" by (rule map_relD(1) [OF that])
  show "map_same b b" "map_same b c \<Longrightarrow> map_same c d \<Longrightarrow> map_same b d"
    "map_same b c \<Longrightarrow> mb_handler c = mb_handler b \<and> p_capacity (mb_pool c) = p_capacity (mb_pool b)" by (simp_all add: map_same_def)
  show "map_begin (map_side s b) = None" if "map_rel b g ex" "g s = []" using map_begin_front(1) [OF that(1), of s] that(2) by simp
  show "\<exists>r. map_begin (map_side s b) = Some r \<and> r = p" if "map_rel b g ex" "g s = (p, ps) # ls"
    using map_begin_front(1) [OF that(1), of s] that(2) by simp
  assume inc: "mb_heap b inc = Some io"
  show "map_match_against_level s inc r p b = Some b" if "map_of (map_side s b) r = Some l" "o_quantity io \<le> 0 \<or> level_empty l"
    using inc that by (subst map_match_against_level.simps) auto
  show "map_match_against_level s inc r p b = map_match_against_level s inc r p c"
    if "map_of (map_side s b) r = Some l" "0 < o_quantity io" "\<not> level_empty l" "map_match_step s inc r p b = Some c"
    using inc that by (subst map_match_against_level.simps) auto
  show "map_match_loop s inc b = Some b" if "o_quantity io \<le> 0 \<or> map_begin (map_side s b) = None"
    using inc that by (subst map_match_loop.simps) (auto simp: map_begin_def split: list.splits prod.splits)
  assume r: "map_begin (map_side s b) = Some r" "r = p"
  then have ne: "map_side s b \<noteq> []" by (auto simp: map_begin_def)
  show "map_match_loop s inc b = Some b" if "pbetter s (o_price io) p"
    using inc that r ne by (subst map_match_loop.simps) (auto simp: price_before_pbetter)
  show "map_match_loop s inc b = Option.bind (if level_empty l then map_close s r c else Some c) (map_match_loop s inc)"
    if "0 < o_quantity io" "\<not> pbetter s (o_price io) p" "map_match_against_level s inc r p b = Some c" "map_of (map_side s c) r = Some l"
    using inc that r ne by (subst map_match_loop.simps) (auto simp: price_before_pbetter map_close_def)
qed (simp, (fact map_trade_partial map_trade_full map_close_ok map_enter_ok map_release_ok map_drop_ok | rule map_rest_ok map_rest_overflow; assumption)+)

section \<open>Refinement\<close>

definition map_refines :: "map_book \<Rightarrow> spec_book \<Rightarrow> bool" where
  "map_refines b B \<longleftrightarrow> (\<exists>g. map_rel b g {} \<and> no_empty g \<and> B = bview (mb_heap b) g)"

lemma map_represents: "map_engine.represents = map_refines"
  by (simp add: fun_eq_iff map_engine.represents_def map_refines_def)

lemma map_add_accepted:
  assumes rel: "map_rel b g {}" "no_empty g" and B: "B = bview (mb_heap b) g"
    and ok: "fits_int64 p" "fits_int64 q" "oid_map (mb_ids b) i = None" "0 < available (mb_pool b)"
    and S: "spec_add (p_capacity (mb_pool b)) i s p q B = (acc, B', fs)" "book_fits B'"
  shows "\<exists>b'. map_add_order i s p q ts b = Some b' \<and> map_refines b' B' \<and> mb_log b' = mb_log b @ (if mb_handler b then fs else []) \<and> map_same b b'"
proof -
  let ?xo = "\<lparr>o_id = i, o_side = s, o_price = p, o_quantity = q, o_timestamp = ts, o_prev = None, o_next = None\<rparr>"
  from map_engine.accept_ok [OF rel B refl TrueI ok(2-4), of s p ts] obtain x b1 b2 q' B'' fs' where
    A: "map_enter ?xo b = (Some x, b1)" "mb_heap b1 x = Some ?xo" "map_match_loop (opposite s) x b1 = Some b2"
      "mb_heap b2 x = Some (?xo\<lparr>o_quantity := q'\<rparr>)" "spec_add (p_capacity (mb_pool b)) i s p q B = (True, B'', fs')"
      "map_engine.accepts x q' b b2 B'' fs'" by (elim exE conjE) (rule that; assumption)
  from A(5) S(1) have "B'' = B'" "fs' = fs" by simp_all
  with A(6) S(2) obtain b3 where b3: "(if 0 < q' then map_rest x b2 else map_release x b2) = Some b3"
    and R: "map_refines b3 B'" "map_same b b3" "mb_log b3 = mb_log b @ (if mb_handler b then fs else [])"
    by (auto simp: map_engine.accepts_def map_represents)
  from A(1) obtain P where P: "allocate (mb_pool b) ?xo = (Some x, P)" "b1 = b\<lparr>mb_pool := P\<rparr>"
    by (auto simp: map_enter_def split: prod.splits)
  have "(if s = Buy then Sell else Buy) = opposite s" by (cases s) simp_all
  with A(2,3) have "map_match x b1 = Some b2" by (simp add: map_match_def)
  with A(4) b3 P ok(1,2) have "map_add_order i s p q ts b = Some b3"
    by (auto simp: map_add_order_def map_rest_def map_release_def bind_eq_Some_conv split: if_splits)
  with R show ?thesis by blast
qed

lemma map_add_order_ok:
  assumes ref: "map_refines b B" and p: "fits_int64 p" "fits_int64 q" and new: "i \<notin> set (book_ids B)"
    and S: "spec_add (p_capacity (mb_pool b)) i s p q B = (acc, B', fs)" "book_fits B'"
  shows "\<exists>b'. map_add_order i s p q ts b = Some b' \<and> map_refines b' B' \<and> mb_log b' = mb_log b @ (if mb_handler b then fs else []) \<and> map_same b b'"
proof -
  from ref obtain g where rel: "map_rel b g {}" "no_empty g" and B: "B = bview (mb_heap b) g" by (auto simp: map_refines_def)
  note C = map_relD(1) [OF rel(1)]
  show ?thesis
  proof (cases "0 < available (mb_pool b)")
    case True
    have "oid_map (mb_ids b) i = None" using known_id [OF C, of i] new B by auto
    from map_add_accepted [OF rel B p this True S] show ?thesis .
  next
    case False
    then have "acc = False" "B' = B" "fs = []" using S core_available [OF C] B by (simp_all add: spec_add_def)
    moreover have "allocate (mb_pool b) xo = (None, mb_pool b)" for xo using order_pool.alloc_full [OF core_relP(1) [OF C]] False by simp
    ultimately show ?thesis using ref p by (simp add: map_add_order_def map_same_def)
  qed
qed

lemma map_cancel_order_ok:
  assumes ref: "map_refines b B"
  shows "\<exists>b'. map_cancel_order i b = Some (fst (spec_cancel i B), b') \<and> map_refines b' (snd (spec_cancel i B)) \<and> map_same b b' \<and> mb_log b' = mb_log b"
proof -
  from ref obtain g where rel: "map_rel b g {}" "no_empty g" and B: "B = bview (mb_heap b) g" by (auto simp: map_refines_def)
  note C = map_relD(1) [OF rel(1)]
  have find: "oid_find (mb_ids b) i = oid_map (mb_ids b) i" by (rule oid_find_eq [OF core_relP(2) [OF C]])
  show ?thesis
  proof (cases "oid_map (mb_ids b) i")
    case None
    then have "i \<notin> set (book_ids B)" using known_id [OF C, of i] B by auto
    with None find ref show ?thesis by (simp add: map_cancel_order_def spec_cancel_def map_same_def)
  next
    case (Some x)
    from map_engine.drop_ok [OF rel B Some] obtain b' where
      b': "map_drop i x b = Some b'" "spec_cancel i B = (True, snd (spec_cancel i B))" "map_refines b' (snd (spec_cancel i B))" "map_same b b'"
        "mb_log b' = mb_log b" unfolding map_represents by blast
    from b'(1) obtain xo c P where "mb_heap b x = Some xo" "map_remove_from_book (o_side xo) x b = Some (True, c)"
      "release (mb_pool c) x = Some P" "b' = c\<lparr>mb_ids := snd (oid_erase (mb_ids c) i), mb_pool := P\<rparr>"
      by (auto simp: map_drop_def map_release_def bind_eq_Some_conv split: if_splits)
    then have "map_cancel_order i b = Some (True, b')" using find Some by (simp add: map_cancel_order_def)
    moreover have "fst (spec_cancel i B) = True" using arg_cong [OF b'(2), of fst] by simp
    ultimately show ?thesis using b'(3-5) by auto
  qed
qed

section \<open>Queries\<close>

lemma map_refinesD:
  assumes "map_refines b B"
  shows "\<exists>g. map_rel b g {} \<and> side_of s B = sview (mb_heap b) (g s) \<and> side_rel s (mb_heap b) (map_levels b s) (g s)"
  using assms core_relD(1) [OF map_relD(1)] by (auto simp: map_refines_def bview_side)

lemma map_begin_ok: "map_refines b B \<Longrightarrow> map_begin (map_side s b) = map_option fst (first_opt (side_of s B))"
  using map_refinesD [of b B s] map_begin_front(1) by (force simp: first_opt_def sview_def split: list.splits)

lemma map_best_ok:
  assumes "map_refines b B"
  shows "map_best_bid b = map_option fst (first_opt (s_bids B))" "map_best_ask b = map_option fst (first_opt (s_asks B))"
  using map_begin_ok [OF assms, of Buy] map_begin_ok [OF assms, of Sell] by (simp_all add: map_best_bid_def map_best_ask_def)

text \<open>The entries, with the totals of their levels.\<close>

lemma map_entries:
  assumes "map_refines b B"
  shows "depth (side_of s B) = map (\<lambda>(p, l). \<lparr>lq_price = p, lq_qty = total_qty l\<rparr>) (map_side s b)"
    "side_qty (side_of s B) = (\<Sum>(p, l)\<leftarrow>map_side s b. total_qty l)"
proof -
  from map_refinesD [OF assms, of s] obtain g where g: "map_rel b g {}" "side_of s B = sview (mb_heap b) (g s)"
    "side_rel s (mb_heap b) (map_levels b s) (g s)" by blast
  have "distinct (map fst (map_side s b))" by (rule sorted_prices_distinct [OF map_relD(2) [OF g(1)]])
  then have m: "map_of (map_side s b) (fst x) = Some (snd x)" if "x \<in> set (map_side s b)" for x using that by simp
  show "depth (side_of s B) = map (\<lambda>(p, l). \<lparr>lq_price = p, lq_qty = total_qty l\<rparr>) (map_side s b)"
    using m unfolding g(2) depth_levels [OF g(3)] map_keys [OF g(1), symmetric] by (simp add: case_prod_beta)
  show "side_qty (side_of s B) = (\<Sum>(p, l)\<leftarrow>map_side s b. total_qty l)"
    using m unfolding g(2) side_qty_levels [OF g(3)] map_keys [OF g(1), symmetric] by (simp add: case_prod_beta comp_def cong: map_cong)
qed

lemma map_copy_top_take: "map_copy_top M n = take n (map (\<lambda>(p, l). \<lparr>lq_price = p, lq_qty = total_qty l\<rparr>) M)"
  by (induction M n rule: map_copy_top.induct) (auto simp: take_Cons')

lemma map_top_levels_ok: "map_refines b B \<Longrightarrow> map_top_levels s n b = take n (depth (side_of s B))"
  using map_entries(1) [of b B s] by (cases s) (simp_all add: map_top_levels_def map_copy_top_take)

lemma fold_totals:
  assumes "\<forall>(p, l) \<in> set M. 0 \<le> total_qty l" "0 \<le> t" "fits_int64 t"
  shows "foldM (\<lambda>(p, l) total. checked64 (total + total_qty l)) M t = checked64 (t + (\<Sum>(p, l)\<leftarrow>M. total_qty l)) \<and> 0 \<le> (\<Sum>(p, l)\<leftarrow>M. total_qty l)"
  using assms
proof (induction M arbitrary: t)
  case (Cons e M)
  obtain p l where e: "e = (p, l)" by (cases e)
  have nn: "0 \<le> (\<Sum>(p, l)\<leftarrow>M. total_qty l)" "0 \<le> total_qty l" using Cons.IH [of 0] Cons.prems(1) e by (simp_all add: fits_int64_def)
  show ?case
  proof (cases "fits_int64 (t + total_qty l)")
    case True
    with Cons.IH [of "t + total_qty l"] Cons.prems nn e show ?thesis by (simp add: checked64_def add.assoc)
  next
    case False
    with Cons.prems(2) nn have "\<not> fits_int64 (t + (total_qty l + (\<Sum>(p, l)\<leftarrow>M. total_qty l)))" by (simp add: fits_int64_nonneg)
    with False nn e show ?thesis by (simp add: checked64_def)
  qed
qed (simp add: checked64_def)

lemma map_totals_nonneg:
  assumes "map_refines b B"
  shows "\<forall>(p, l) \<in> set (map_side s b). 0 \<le> total_qty l"
proof -
  from map_refinesD [OF assms, of s] obtain g where g: "map_rel b g {}" "side_rel s (mb_heap b) (map_levels b s) (g s)" by blast
  have "distinct (map fst (map_side s b))" by (rule sorted_prices_distinct [OF map_relD(2) [OF g(1)]])
  with level_nonneg [OF g(2)] show ?thesis by auto
qed

lemma map_total_ok:
  assumes "map_refines b B"
  shows "map_total_resting_qty b = checked64 (book_qty B)"
proof -
  note F = fold_totals [OF map_totals_nonneg [OF assms]]
  have z: "fits_int64 0" by (simp add: fits_int64_def)
  let ?q = "side_qty (s_bids B)" and ?r = "side_qty (s_asks B)"
  have b: "foldM (\<lambda>(p, l) total. checked64 (total + total_qty l)) (mb_bids b) 0 = checked64 ?q" "0 \<le> ?q"
    using F [OF order_refl z, of Buy] map_entries(2) [OF assms, of Buy] by simp_all
  have a: "foldM (\<lambda>(p, l) total. checked64 (total + total_qty l)) (mb_asks b) t = checked64 (t + ?r)" "0 \<le> ?r" if "0 \<le> t" "fits_int64 t" for t
    using F [OF that, of Sell] map_entries(2) [OF assms, of Sell] by simp_all
  show ?thesis
  proof (cases "fits_int64 ?q")
    case True
    with a(1) [OF b(2) True] b(1) show ?thesis by (simp add: map_total_resting_qty_def book_qty_def checked64_def)
  next
    case False
    with b(2) a(2) [OF order_refl z] have "\<not> fits_int64 (?q + ?r)" by (simp add: fits_int64_nonneg)
    with False b(1) show ?thesis by (simp add: map_total_resting_qty_def book_qty_def checked64_def)
  qed
qed

section \<open>The empty book\<close>

lemma map_refines_new: "map_refines (new_map_book handler cap) \<lparr>s_bids = [], s_asks = []\<rparr>"
proof -
  let ?b = "new_map_book handler cap" and ?g = "\<lambda>s. [] :: (price \<times> ptr list) list"
  have e: "map_side s ?b = []" "mb_pool ?b = new_pool cap" "mb_ids ?b = new_id_map (id_map_capacity cap)" for s
    by (cases s; simp add: new_map_book_def)+
  have "storage (new_pool cap) = Map.empty" "p_capacity (new_pool cap) = cap" by (simp_all add: new_pool_def)
  then have "map_rel ?b ?g {}"
    using id_map_capacity_ok [of cap] by (simp add: map_rel_def core_rel_def e side_rel_def oid_inv_new) (simp add: new_id_map_def)
  then show ?thesis unfolding map_refines_def by (intro exI [of _ ?g]) (simp add: no_empty_def bview_def)
qed

lemma new_map_book_sel [simp]:
  "p_capacity (mb_pool (new_map_book handler cap)) = cap" "mb_handler (new_map_book handler cap) = handler" "mb_log (new_map_book handler cap) = []"
  by (simp_all add: new_map_book_def new_pool_def)

end
