(* ===== verification/Machine_Int.thy ===== *)
theory Machine_Int
  imports Prelude
begin

text \<open>
  The signed arithmetic of the signals, the clock and the reports, over that of the prelude: 128-bit
  operations and division by zero are checked too.  Also the decimal output of \<^verbatim>\<open>printf\<close>.
\<close>

section \<open>Checked operations\<close>

definition checked128 :: "int \<Rightarrow> int option" where
  "checked128 x = (if fits_int128 x then Some x else None)"

definition div128 :: "int \<Rightarrow> int \<Rightarrow> int option" where
  "div128 a b = (if b = 0 then None else checked128 (trunc_div a b))"

lemma checked128_Some [run_simps]: "fits_int128 x \<Longrightarrow> checked128 x = Some x"
  by (simp add: checked128_def)

lemma fits_int128_iff: "fits_int128 x \<longleftrightarrow>
    -170141183460469231731687303715884105728 \<le> x \<and> x < 170141183460469231731687303715884105728"
  by (simp add: fits_int128_def)

lemma fits_int64_int128: "fits_int64 x \<Longrightarrow> fits_int128 x"
  by (simp add: fits_int64_iff fits_int128_iff)

lemma to_int64_id [simp]: "fits_int64 x \<Longrightarrow> to_int64 x = x"
  by (simp add: to_int64_def fits_int64_def signed_take_bit_int_eq_self)

section \<open>Unsigned words\<close>

lemma unat_small: "n < 2 ^ 64 \<Longrightarrow> unat (word_of_nat n :: u64) = n"
  by (simp add: unsigned_of_nat take_bit_nat_eq_self)

section \<open>Truncating division\<close>

lemma trunc_div_nonneg: "0 \<le> a \<Longrightarrow> 0 < b \<Longrightarrow> trunc_div a b = a div b"
  by (cases "a = 0") (simp_all add: trunc_div_def)

lemma trunc_div_minus: "trunc_div (- a) b = - trunc_div a b"
  by (simp add: trunc_div_def sgn_minus)

lemma trunc_div_bound:
  assumes "0 < b" "\<bar>a\<bar> \<le> c * b"
  shows "\<bar>trunc_div a b\<bar> \<le> c"
proof -
  have "\<bar>a\<bar> div b \<le> c" using zdiv_mono1 [OF assms(2,1)] assms(1) by simp
  moreover have "0 \<le> \<bar>a\<bar> div b" using assms(1) by (simp add: pos_imp_zdiv_nonneg_iff)
  moreover have "\<bar>trunc_div a b\<bar> \<le> \<bar>a\<bar> div b"
    using calculation(2) assms(1) by (cases "a = 0") (simp_all add: trunc_div_def abs_mult)
  ultimately show ?thesis by linarith
qed

lemma int_div_less:
  fixes a b c :: int
  assumes "0 < c" "a < b * c"
  shows "a div c < b"
proof (rule ccontr)
  assume "\<not> a div c < b"
  then have "b * c \<le> a div c * c" using assms(1) by (simp add: mult_right_mono)
  also have "\<dots> \<le> a" using assms(1) by (metis add_le_same_cancel1 div_mult_mod_eq le_add_same_cancel1 pos_mod_sign)
  finally show False using assms(2) by simp
qed

section \<open>Decimal output\<close>

definition digit :: "nat \<Rightarrow> char" where
  "digit d = char_of (48 + d)"

fun digits :: "nat \<Rightarrow> string" where
  "digits n = (if n < 10 then [digit n] else digits (n div 10) @ [digit (n mod 10)])"

declare digits.simps [simp del]

text \<open>Fields with a minimal width: zeros or blanks on the left, blanks on the right.\<close>

definition pad_left :: "char \<Rightarrow> nat \<Rightarrow> string \<Rightarrow> string" where
  "pad_left c w s = replicate (w - length s) c @ s"

definition pad_right :: "nat \<Rightarrow> string \<Rightarrow> string" where
  "pad_right w s = s @ replicate (w - length s) CHR '' ''"

text \<open>The number that a string of digits denotes.\<close>

definition numeral_value :: "string \<Rightarrow> nat" where
  "numeral_value s = foldl (\<lambda>v c. 10 * v + (of_char c - 48)) 0 s"

lemma digit_value: "d < 10 \<Longrightarrow> of_char (digit d) = 48 + d"
  by (simp add: digit_def of_char_of)

lemma numeral_value_digits [simp]: "numeral_value (digits n) = n"
proof (induction n rule: digits.induct)
  case (1 n)
  show ?case
  proof (cases "n < 10")
    case True
    then show ?thesis by (simp add: digits.simps numeral_value_def digit_value)
  next
    case False
    with 1 have "numeral_value (digits (n div 10)) = n div 10" by simp
    with False show ?thesis by (subst digits.simps) (simp add: numeral_value_def digit_value)
  qed
qed

lemma numeral_value_append: "numeral_value (s @ t) = numeral_value s * 10 ^ length t + numeral_value t"
proof (induction t rule: rev_induct)
  case (snoc c t)
  have last: "numeral_value (u @ [c]) = 10 * numeral_value u + (of_char c - 48)" for u by (simp add: numeral_value_def)
  have "numeral_value (s @ t @ [c]) = 10 * (numeral_value s * 10 ^ length t + numeral_value t) + (of_char c - 48)"
    using last [of "s @ t"] snoc by simp
  then show ?case by (simp add: last [of t] add_mult_distrib2)
qed (simp add: numeral_value_def)

lemma numeral_value_pad [simp]: "numeral_value (pad_left (CHR ''0'') w s) = numeral_value s"
proof -
  have "foldl (\<lambda>v c. 10 * v + (of_char c - 48)) 0 (replicate k (CHR ''0'')) = (0 :: nat)" for k
    by (induction k) simp_all
  then show ?thesis by (simp add: pad_left_def numeral_value_def)
qed

lemma digits_chars: "c \<in> set (digits n) \<Longrightarrow> 48 \<le> (of_char c :: nat) \<and> of_char c < (58 :: nat)"
proof (induction n rule: digits.induct)
  case (1 n)
  then show ?case by (subst (asm) (2) digits.simps) (auto simp: digit_value split: if_splits)
qed

lemma digits_no_sign: "CHR ''.'' \<notin> set (digits n)" "CHR ''-'' \<notin> set (digits n)" "digits n \<noteq> []"
  using digits_chars [of "CHR ''.''" n] digits_chars [of "CHR ''-''" n] digits.simps [of n] by auto

lemma digits_length: "n < 10 ^ k \<Longrightarrow> 0 < k \<Longrightarrow> length (digits n) \<le> k"
proof (induction n arbitrary: k rule: digits.induct)
  case (1 n)
  show ?case
  proof (cases "n < 10")
    case True
    then show ?thesis using 1 by (simp add: digits.simps)
  next
    case False
    with 1(2,3) obtain j where k: "k = Suc j" "0 < j" by (cases k; cases "k - 1") auto
    have "n div 10 < 10 ^ j" using 1(2) k by (simp add: less_mult_imp_div_less mult.commute)
    with 1(1) [OF False, of j] k False show ?thesis by (subst digits.simps) simp
  qed
qed

end
