(* ===== verification/Feed_Message.thy ===== *)
theory Feed_Message
  imports Order_Types Machine_Int
begin

text \<open>
  \<^verbatim>\<open>include/feed_message.hpp\<close>: the records of a feed and their layout in memory, in a file and in
  a network frame.  The layout is that of the host: the byte order is a parameter, and the six
  padding bytes of a record have whatever value the memory had.  A message type or a side read
  from outside can be any byte.
\<close>

section \<open>Bytes\<close>

type_synonym byte = "8 word"

primrec le_bytes :: "nat \<Rightarrow> nat \<Rightarrow> byte list" where
  "le_bytes 0 x = []"
| "le_bytes (Suc k) x = word_of_nat (x mod 256) # le_bytes k (x div 256)"

primrec le_value :: "byte list \<Rightarrow> nat" where
  "le_value [] = 0"
| "le_value (b # bs) = unat b + 256 * le_value bs"

definition host_bytes :: "bool \<Rightarrow> nat \<Rightarrow> nat \<Rightarrow> byte list" where
  "host_bytes big k x = (if big then rev (le_bytes k x) else le_bytes k x)"

definition host_value :: "bool \<Rightarrow> byte list \<Rightarrow> nat" where
  "host_value big bs = le_value (if big then rev bs else bs)"

lemma length_host_bytes [simp]: "length (host_bytes big k x) = k"
proof -
  have "length (le_bytes k x) = k" for k x by (induction k arbitrary: x) simp_all
  then show ?thesis by (simp add: host_bytes_def)
qed

lemma host_value_bytes: "host_value big (host_bytes big k x) = x mod 256 ^ k"
proof -
  have "le_value (le_bytes k x) = x mod 256 ^ k" for k x
  proof (induction k arbitrary: x)
    case (Suc k)
    have "x mod 256 + 256 * (x div 256 mod 256 ^ k) = x mod (256 * 256 ^ k)" by (simp add: mod_mult2_eq)
    with Suc show ?case by (simp add: unsigned_of_nat take_bit_eq_mod)
  qed simp
  then show ?thesis by (simp add: host_bytes_def host_value_def)
qed

section \<open>Messages\<close>

definition AddOrder :: byte where "AddOrder = 1"
definition CancelOrder :: byte where "CancelOrder = 2"

record feed_message =
  fm_type :: byte
  fm_side :: byte
  fm_id :: order_id
  fm_price :: price
  fm_qty :: quantity
  fm_ts :: nanos

definition sizeof_message :: nat where
  "sizeof_message = 40"

text \<open>The object representation: two bytes, six bytes of padding, four 64-bit fields.\<close>

definition encode_message :: "bool \<Rightarrow> byte list \<Rightarrow> feed_message \<Rightarrow> byte list" where
  "encode_message big pad m = [fm_type m, fm_side m] @ pad @ host_bytes big 8 (unat (fm_id m)) @
     host_bytes big 8 (unat (word_of_int (fm_price m) :: u64)) @ host_bytes big 8 (unat (word_of_int (fm_qty m) :: u64)) @
     host_bytes big 8 (unat (fm_ts m))"

definition decode_message :: "bool \<Rightarrow> byte list \<Rightarrow> feed_message" where
  "decode_message big bs = (let u64_at = (\<lambda>i. word_of_nat (host_value big (take 8 (drop i bs))) :: u64) in
     \<lparr>fm_type = bs ! 0, fm_side = bs ! 1, fm_id = u64_at 8, fm_price = sint (u64_at 16), fm_qty = sint (u64_at 24), fm_ts = u64_at 32\<rparr>)"

definition message_ok :: "feed_message \<Rightarrow> bool" where
  "message_ok m \<longleftrightarrow> fits_int64 (fm_price m) \<and> fits_int64 (fm_qty m)"

lemma unat_u64_less: "unat (w :: u64) < 256 ^ 8"
  using unsigned_less [of w] by simp

lemma u64_roundtrip [simp]: "word_of_nat (host_value big (host_bytes big 8 (unat w))) = (w :: u64)"
  using unat_u64_less [of w] by (simp add: host_value_bytes)

lemma sint_fits: "fits_int64 v \<Longrightarrow> sint (word_of_int v :: u64) = v"
  by (simp add: fits_int64_def signed_of_int signed_take_bit_int_eq_self)

lemma length_encode [simp]: "length pad = 6 \<Longrightarrow> length (encode_message big pad m) = sizeof_message"
  by (simp add: encode_message_def sizeof_message_def)

lemma decode_encode:
  assumes "length pad = 6" "message_ok m"
  shows "decode_message big (encode_message big pad m) = m"
proof -
  have "take 8 (drop 8 (encode_message big pad m)) = host_bytes big 8 (unat (fm_id m))"
    "take 8 (drop 16 (encode_message big pad m)) = host_bytes big 8 (unat (word_of_int (fm_price m) :: u64))"
    "take 8 (drop 24 (encode_message big pad m)) = host_bytes big 8 (unat (word_of_int (fm_qty m) :: u64))"
    "take 8 (drop 32 (encode_message big pad m)) = host_bytes big 8 (unat (fm_ts m))"
    using assms(1) by (simp_all add: encode_message_def)
  then have "decode_message big (encode_message big pad m) =
      m\<lparr>fm_price := sint (word_of_int (fm_price m) :: u64), fm_qty := sint (word_of_int (fm_qty m) :: u64)\<rparr>"
    unfolding decode_message_def Let_def by (simp only: u64_roundtrip) (simp add: encode_message_def)
  with assms(2) show ?thesis by (simp add: message_ok_def sint_fits)
qed

section \<open>File header\<close>

record feed_header =
  hdr_magic :: "byte list"
  hdr_count :: u64

definition kMagic :: "byte list" where
  "kMagic = [0x4F, 0x42, 0x46, 0x45, 0x45, 0x44, 0x31, 0]"

definition new_header :: feed_header where
  "new_header = \<lparr>hdr_magic = kMagic, hdr_count = 0\<rparr>"

definition sizeof_header :: nat where
  "sizeof_header = 16"

definition encode_header :: "bool \<Rightarrow> feed_header \<Rightarrow> byte list" where
  "encode_header big h = hdr_magic h @ host_bytes big 8 (unat (hdr_count h))"

definition decode_header :: "bool \<Rightarrow> byte list \<Rightarrow> feed_header" where
  "decode_header big bs = \<lparr>hdr_magic = take 8 bs, hdr_count = word_of_nat (host_value big (take 8 (drop 8 bs)))\<rparr>"

definition feed_magic_valid :: "feed_header \<Rightarrow> bool" where
  "feed_magic_valid h \<longleftrightarrow> (\<forall>i \<in> set [0..<8]. hdr_magic h ! i = kMagic ! i)"

lemma length_magic [simp]: "length kMagic = 8"
  by (simp add: kMagic_def)

lemma feed_magic_valid_iff: "length (hdr_magic h) = 8 \<Longrightarrow> feed_magic_valid h \<longleftrightarrow> hdr_magic h = kMagic"
  by (auto simp: feed_magic_valid_def list_eq_iff_nth_eq)

lemma length_encode_header [simp]: "length (hdr_magic h) = 8 \<Longrightarrow> length (encode_header big h) = sizeof_header"
  by (simp add: encode_header_def sizeof_header_def)

lemma decode_encode_header [simp]: "length (hdr_magic h) = 8 \<Longrightarrow> decode_header big (encode_header big h) = h"
  by (simp add: decode_header_def encode_header_def)

end
