(* ===== verification/Feed_Replay.thy ===== *)
theory Feed_Replay
  imports Book_Run Map_Book Feed_Message
begin

text \<open>
  \<^verbatim>\<open>apply_message\<close> and \<^verbatim>\<open>replay\<close> of \<^verbatim>\<open>include/feed_replay.hpp\<close>.  Both are templates over the book type
  and use only its \<^verbatim>\<open>add_order\<close>, whose result they ignore, and \<^verbatim>\<open>cancel_order\<close>; these are their
  parameters here.  What a matching book promises to them is a locale; the replay is verified
  there once, and the order book and the map book are its instances.
\<close>

section \<open>Applying messages\<close>

type_synonym ('r, 'b) add_fn = "order_id \<Rightarrow> side \<Rightarrow> price \<Rightarrow> quantity \<Rightarrow> nanos \<Rightarrow> 'b \<Rightarrow> ('r \<times> 'b) option"
type_synonym 'b cancel_fn = "order_id \<Rightarrow> 'b \<Rightarrow> (bool \<times> 'b) option"

text \<open>Every use of a side in the sources is a comparison with \<^verbatim>\<open>Side::Buy\<close>, which is 0.\<close>

definition side_of_byte :: "byte \<Rightarrow> side" where
  "side_of_byte x = (if x = 0 then Buy else Sell)"

definition apply_message :: "('r, 'b) add_fn \<Rightarrow> 'b cancel_fn \<Rightarrow> feed_message \<Rightarrow> 'b \<Rightarrow> 'b option" where
  "apply_message add cancel msg b =
     (if fm_type msg = AddOrder
      then map_option snd (add (fm_id msg) (side_of_byte (fm_side msg)) (fm_price msg) (fm_qty msg) (fm_ts msg) b)
      else if fm_type msg = CancelOrder then map_option snd (cancel (fm_id msg) b)
      else Some b)"

definition replay :: "('r, 'b) add_fn \<Rightarrow> 'b cancel_fn \<Rightarrow> feed_message list \<Rightarrow> 'b \<Rightarrow> 'b option" where
  "replay add cancel msgs b = foldM (apply_message add cancel) msgs b"

text \<open>The same on the specification: the state, and the fills in order.\<close>

definition spec_apply :: "nat \<Rightarrow> feed_message \<Rightarrow> spec_book \<Rightarrow> spec_book \<times> fill list" where
  "spec_apply cap msg B =
     (if fm_type msg = AddOrder
      then snd (spec_add cap (fm_id msg) (side_of_byte (fm_side msg)) (fm_price msg) (fm_qty msg) B)
      else if fm_type msg = CancelOrder then (snd (spec_cancel (fm_id msg) B), [])
      else (B, []))"

fun spec_replay :: "nat \<Rightarrow> feed_message list \<Rightarrow> spec_book \<Rightarrow> spec_book \<times> fill list" where
  "spec_replay cap [] B = (B, [])"
| "spec_replay cap (m # ms) B =
     (let (B', fs) = spec_apply cap m B; (B'', gs) = spec_replay cap ms B' in (B'', fs @ gs))"

text \<open>Only the price of an add message matters for the range.\<close>

definition prices_ok :: "feed_message list \<Rightarrow> bool" where
  "prices_ok msgs \<longleftrightarrow> (\<forall>m \<in> set msgs. fm_type m = AddOrder \<longrightarrow> price_ok (fm_price m))"

text \<open>A feed that keeps the total of every level in 64 bits, message after message.\<close>

fun totals_fit :: "nat \<Rightarrow> feed_message list \<Rightarrow> spec_book \<Rightarrow> bool" where
  "totals_fit cap [] B \<longleftrightarrow> True"
| "totals_fit cap (m # ms) B \<longleftrightarrow> (fm_type m = AddOrder \<longrightarrow> fits_int64 (fm_qty m)) \<and>
     book_fits (fst (spec_apply cap m B)) \<and> totals_fit cap ms (fst (spec_apply cap m B))"

text \<open>A feed of which every add message meets a book that admits its id.\<close>

fun admitted :: "(order_id \<Rightarrow> spec_book \<Rightarrow> bool) \<Rightarrow> nat \<Rightarrow> feed_message list \<Rightarrow> spec_book \<Rightarrow> bool" where
  "admitted A cap [] B \<longleftrightarrow> True"
| "admitted A cap (m # ms) B \<longleftrightarrow> (fm_type m = AddOrder \<longrightarrow> A (fm_id m) B) \<and> admitted A cap ms (fst (spec_apply cap m B))"

abbreviation any_id :: "order_id \<Rightarrow> spec_book \<Rightarrow> bool" where
  "any_id \<equiv> \<lambda>_ _. True"

abbreviation new_id :: "order_id \<Rightarrow> spec_book \<Rightarrow> bool" where
  "new_id \<equiv> \<lambda>i B. i \<notin> set (book_ids B)"

lemma admitted_any [simp]: "admitted any_id cap ms B"
  by (induction ms arbitrary: B) simp_all

lemma admitted_append:
  "admitted A cap (ms @ ns) B \<longleftrightarrow> admitted A cap ms B \<and> admitted A cap ns (fst (spec_replay cap ms B))"
  by (induction ms arbitrary: B) (auto simp: case_prod_beta)

section \<open>What a matching book promises\<close>

locale matching_book =
  fixes rel :: "'b \<Rightarrow> spec_book \<Rightarrow> bool"
    and cap :: "'b \<Rightarrow> nat"
    and log :: "'b \<Rightarrow> fill list"
    and admits :: "order_id \<Rightarrow> spec_book \<Rightarrow> bool"
    and add :: "('r, 'b) add_fn"
    and cancel :: "'b cancel_fn"
  assumes add_law: "rel b B \<Longrightarrow> price_ok p \<Longrightarrow> fits_int64 q \<Longrightarrow> admits i B \<Longrightarrow> spec_add (cap b) i s p q B = (ok, B', fs) \<Longrightarrow> book_fits B' \<Longrightarrow>
      \<exists>r b'. add i s p q ts b = Some (r, b') \<and> rel b' B' \<and> log b' = log b @ fs \<and> cap b' = cap b"
    and cancel_law: "rel b B \<Longrightarrow>
      \<exists>b'. cancel i b = Some (fst (spec_cancel i B), b') \<and> rel b' (snd (spec_cancel i B)) \<and> log b' = log b \<and> cap b' = cap b"
begin

lemma apply_law:
  assumes "rel b B" "prices_ok [m]" "totals_fit (cap b) [m] B" "admitted admits (cap b) [m] B" "spec_apply (cap b) m B = (B', fs)"
  shows "\<exists>b'. apply_message add cancel m b = Some b' \<and> rel b' B' \<and> log b' = log b @ fs \<and> cap b' = cap b"
proof -
  consider "fm_type m = AddOrder" | "fm_type m \<noteq> AddOrder" "fm_type m = CancelOrder"
    | "fm_type m \<noteq> AddOrder" "fm_type m \<noteq> CancelOrder" by blast
  then show ?thesis
  proof cases
    case 1
    obtain ok C gs where S: "spec_add (cap b) (fm_id m) (side_of_byte (fm_side m)) (fm_price m) (fm_qty m) B = (ok, C, gs)"
      by (metis prod_cases3)
    with 1 assms(5) have eq: "C = B'" "gs = fs" by (simp_all add: spec_apply_def)
    have "fits_int64 (fm_qty m)" "book_fits B'" using 1 assms(3,5) by simp_all
    with add_law [OF assms(1) _ _ _ S, of "fm_ts m"] 1 assms(2,4) eq show ?thesis
      by (auto simp: apply_message_def prices_ok_def)
  next
    case 2
    with cancel_law [OF assms(1), of "fm_id m"] assms(5) show ?thesis by (auto simp: apply_message_def spec_apply_def)
  next
    case 3
    with assms show ?thesis by (auto simp: apply_message_def spec_apply_def)
  qed
qed

lemma replay_law:
  assumes "rel b B" "prices_ok msgs" "totals_fit (cap b) msgs B" "admitted admits (cap b) msgs B" "spec_replay (cap b) msgs B = (B', fs)"
  shows "\<exists>b'. replay add cancel msgs b = Some b' \<and> rel b' B' \<and> log b' = log b @ fs \<and> cap b' = cap b"
  using assms
proof (induction msgs arbitrary: b B B' fs)
  case (Cons m ms)
  obtain C gs where S: "spec_apply (cap b) m B = (C, gs)" by fastforce
  from apply_law [OF Cons.prems(1) _ _ _ S] Cons.prems(2-4) obtain c where
    c: "apply_message add cancel m b = Some c" "rel c C" "log c = log b @ gs" "cap c = cap b" by (auto simp: prices_ok_def)
  obtain D hs where D: "spec_replay (cap c) ms C = (D, hs)" by fastforce
  from Cons.IH [OF c(2) _ _ _ D] Cons.prems(2-4) S c(4) obtain d where
    d: "replay add cancel ms c = Some d" "rel d D" "log d = log c @ hs" "cap d = cap c" by (auto simp: prices_ok_def)
  from Cons.prems(5) S D c(4) have "B' = D" "fs = gs @ hs" by simp_all
  with c d show ?case by (simp add: replay_def)
qed (simp add: replay_def)

end

section \<open>The order book is a matching book\<close>

definition book_is :: "order_book \<Rightarrow> spec_book \<Rightarrow> bool" where
  "book_is b B \<longleftrightarrow> consistent b B \<and> has_handler b"

lemma add_law_book:
  assumes "book_is b B" "price_ok p" "fits_int64 q" "spec_add (p_capacity (book_pool b)) i s p q B = (ok, B', fs)" "book_fits B'"
  shows "\<exists>b'. add_order i s p q ts b = Some (ok, b') \<and> book_is b' B' \<and> fill_log b' = fill_log b @ fs \<and>
    p_capacity (book_pool b') = p_capacity (book_pool b)"
proof -
  from assms(1) have b: "refines b B" "spec_inv B" "has_handler b" by (simp_all add: book_is_def consistent_def)
  from add_order_runs [OF b(1) assms(2-5), of ts] b(3) obtain b' where
    "add_order i s p q ts b = Some (ok, b')" "refines b' B'" "has_handler b'" "fill_log b' = fill_log b @ fs"
    "p_capacity (book_pool b') = p_capacity (book_pool b)"
    by (auto simp: add_result_def)
  moreover have "spec_inv B'" using spec_add_keeps_inv [OF b(2) assms(4)] .
  ultimately show ?thesis by (auto simp: book_is_def consistent_def)
qed

lemma cancel_law_book:
  assumes "book_is b B"
  shows "\<exists>b'. cancel_order i b = Some (fst (spec_cancel i B), b') \<and> book_is b' (snd (spec_cancel i B)) \<and>
    fill_log b' = fill_log b \<and> p_capacity (book_pool b') = p_capacity (book_pool b)"
proof -
  from assms have b: "refines b B" "spec_inv B" "has_handler b" by (simp_all add: book_is_def consistent_def)
  from cancel_order_ok [OF b(1), of i] b(3) obtain b' where
    "cancel_order i b = Some (fst (spec_cancel i B), b')" "refines b' (snd (spec_cancel i B))" "has_handler b'"
    "fill_log b' = fill_log b" "p_capacity (book_pool b') = p_capacity (book_pool b)"
    by (auto simp: book_same_def)
  moreover have "spec_inv (snd (spec_cancel i B))" using spec_cancel_keeps_inv [OF b(2), of i] by (metis prod.collapse)
  ultimately show ?thesis by (auto simp: book_is_def consistent_def)
qed

interpretation ladder_book: matching_book book_is "\<lambda>b. p_capacity (book_pool b)" fill_log any_id add_order cancel_order
  by unfold_locales (use add_law_book in blast, fact cancel_law_book)

section \<open>The map book is a matching book for new ids\<close>

definition map_book_is :: "map_book \<Rightarrow> spec_book \<Rightarrow> bool" where
  "map_book_is b B \<longleftrightarrow> map_refines b B \<and> mb_handler b"

text \<open>A call of a function that returns nothing.\<close>

definition map_add :: "(unit, map_book) add_fn" where
  "map_add i s p q ts b = map_option (Pair ()) (map_add_order i s p q ts b)"

interpretation map_book: matching_book map_book_is "\<lambda>b. p_capacity (mb_pool b)" mb_log new_id map_add map_cancel_order
proof
  show "\<exists>r b'. map_add i s p q ts b = Some (r, b') \<and> map_book_is b' B' \<and> mb_log b' = mb_log b @ fs \<and> p_capacity (mb_pool b') = p_capacity (mb_pool b)"
    if "map_book_is b B" "price_ok p" "fits_int64 q" "new_id i B" "spec_add (p_capacity (mb_pool b)) i s p q B = (ok, B', fs)" "book_fits B'"
    for b B p i s q ok B' fs ts
  proof -
    have "fits_int64 p" using that(2) by (simp add: price_ok_def fits_int64_def)
    from map_add_order_ok [OF _ this that(3-6), of ts] that(1) show ?thesis by (auto simp: map_add_def map_book_is_def map_same_def)
  qed
  show "\<exists>b'. map_cancel_order i b = Some (fst (spec_cancel i B), b') \<and> map_book_is b' (snd (spec_cancel i B)) \<and> mb_log b' = mb_log b \<and>
      p_capacity (mb_pool b') = p_capacity (mb_pool b)" if "map_book_is b B" for b B i
    using map_cancel_order_ok [of b B i] that by (auto simp: map_book_is_def map_same_def)
qed

lemma book_is_new:
  assumes "is_pow2 w" "64 \<le> w" "w \<le> 2 ^ 62"
  shows "book_is (new_book True cap w) \<lparr>s_bids = [], s_asks = []\<rparr>"
  using refines_new [OF assms, of True cap] spec_inv_empty by (simp add: book_is_def consistent_def)

lemma replay_new:
  assumes "is_pow2 w" "64 \<le> w" "w \<le> 2 ^ 62" "prices_ok msgs" "totals_fit cap msgs \<lparr>s_bids = [], s_asks = []\<rparr>"
    and "spec_replay cap msgs \<lparr>s_bids = [], s_asks = []\<rparr> = (B, fs)"
  shows "\<exists>b. replay add_order cancel_order msgs (new_book True cap w) = Some b \<and> book_is b B \<and> fill_log b = fs"
  using ladder_book.replay_law [OF book_is_new [OF assms(1-3)] assms(4) _ admitted_any, of cap B fs] assms(5,6) by auto

text \<open>And when it returns, the totals have fitted.\<close>

lemma apply_message_fits:
  assumes "book_is b B" "prices_ok [m]" "apply_message add_order cancel_order m b = Some b'"
  shows "totals_fit (p_capacity (book_pool b)) [m] B \<and> book_is b' (fst (spec_apply (p_capacity (book_pool b)) m B)) \<and>
    p_capacity (book_pool b') = p_capacity (book_pool b)"
proof -
  let ?cap = "p_capacity (book_pool b)"
  have "book_fits (fst (spec_apply ?cap m B)) \<and> (fm_type m = AddOrder \<longrightarrow> fits_int64 (fm_qty m))"
  proof (cases "fm_type m = AddOrder")
    case True
    then obtain ok where run: "add_order (fm_id m) (side_of_byte (fm_side m)) (fm_price m) (fm_qty m) (fm_ts m) b = Some (ok, b')"
      using assms(3) by (auto simp: apply_message_def)
    have "fits_int64 (fm_qty m)" using run by (auto simp: add_order_def split: if_splits)
    moreover have "book_fits (fst (spec_apply ?cap m B))"
      using add_order_sound [OF _ _ run, of B] assms(1,2) True refines_fits
      by (auto simp: book_is_def consistent_def prices_ok_def spec_apply_def add_result_def split: prod.splits)
    ultimately show ?thesis by simp
  next
    case False
    then show ?thesis using refines_fits cancel_order_ok [of b B "fm_id m"] assms(1) by (auto simp: spec_apply_def book_is_def consistent_def)
  qed
  then have fit: "totals_fit ?cap [m] B" by simp
  obtain B' fs where S: "spec_apply ?cap m B = (B', fs)" by fastforce
  from ladder_book.apply_law [OF assms(1,2) fit _ S] assms(3) fit S show ?thesis by auto
qed

lemma replay_fits:
  "book_is b B \<Longrightarrow> prices_ok msgs \<Longrightarrow> replay add_order cancel_order msgs b = Some b' \<Longrightarrow> totals_fit (p_capacity (book_pool b)) msgs B"
proof (induction msgs arbitrary: b B)
  case (Cons m ms)
  then obtain c where c: "apply_message add_order cancel_order m b = Some c" "replay add_order cancel_order ms c = Some b'"
    by (auto simp: replay_def bind_eq_Some_iff)
  have p: "prices_ok [m]" "prices_ok ms" using Cons.prems(2) by (simp_all add: prices_ok_def)
  from apply_message_fits [OF Cons.prems(1) p(1) c(1)] Cons.IH [OF _ p(2) c(2)] show ?case by auto
qed simp

lemma map_replay_new:
  assumes "prices_ok msgs" "totals_fit cap msgs \<lparr>s_bids = [], s_asks = []\<rparr>" "admitted new_id cap msgs \<lparr>s_bids = [], s_asks = []\<rparr>"
    and "spec_replay cap msgs \<lparr>s_bids = [], s_asks = []\<rparr> = (B, fs)"
  shows "\<exists>c. replay map_add map_cancel_order msgs (new_map_book True cap) = Some c \<and> map_refines c B \<and> mb_log c = fs"
  using map_book.replay_law [of "new_map_book True cap" "\<lparr>s_bids = [], s_asks = []\<rparr>" msgs B fs] map_refines_new [of True cap] assms
  by (auto simp: map_book_is_def)

text \<open>The two books follow the same specification.\<close>

lemma ladder_agrees_with_map:
  assumes "is_pow2 w" "64 \<le> w" "w \<le> 2 ^ 62" "prices_ok msgs" "totals_fit cap msgs \<lparr>s_bids = [], s_asks = []\<rparr>"
    "admitted new_id cap msgs \<lparr>s_bids = [], s_asks = []\<rparr>"
  shows "\<exists>b c. replay add_order cancel_order msgs (new_book True cap w) = Some b \<and>
    replay map_add map_cancel_order msgs (new_map_book True cap) = Some c \<and> fill_log b = mb_log c \<and>
    best_bid b = Some (map_best_bid c) \<and> best_ask b = Some (map_best_ask c) \<and> total_resting_qty b = map_total_resting_qty c \<and>
    (\<forall>s n. top_levels s n b = map_top_levels s n c)"
proof -
  obtain B fs where S: "spec_replay cap msgs \<lparr>s_bids = [], s_asks = []\<rparr> = (B, fs)" by fastforce
  from replay_new [OF assms(1-5) S] obtain b where
    "replay add_order cancel_order msgs (new_book True cap w) = Some b" "refines b B" "fill_log b = fs" by (auto simp: book_is_def consistent_def)
  moreover from map_replay_new [OF assms(4-6) S] obtain c where
    "replay map_add map_cancel_order msgs (new_map_book True cap) = Some c" "map_refines c B" "mb_log c = fs" by blast
  ultimately show ?thesis
    by (auto simp: best_bid_ok best_ask_ok total_resting_qty_ok top_levels_ok map_best_ok map_total_ok map_top_levels_ok)
qed

section \<open>Properties\<close>

text \<open>
  C11.  A replay implements the specification: whatever bytes the messages hold, as long as the
  prices of the add messages are in range, replaying them into a new book returns exactly when no level total leaves 64 bits
  on the way; then the book represents the state that the specification reaches, and the fill handler has been called
  with exactly its fills in order.
\<close>

theorem replay_refines:
  assumes "is_pow2 w" "64 \<le> w" "w \<le> 2 ^ 62" "prices_ok msgs"
  shows "if totals_fit cap msgs \<lparr>s_bids = [], s_asks = []\<rparr>
    then \<exists>b. replay add_order cancel_order msgs (new_book True cap w) = Some b \<and>
      consistent b (fst (spec_replay cap msgs \<lparr>s_bids = [], s_asks = []\<rparr>)) \<and>
      fill_log b = snd (spec_replay cap msgs \<lparr>s_bids = [], s_asks = []\<rparr>)
    else replay add_order cancel_order msgs (new_book True cap w) = None"
proof (cases "totals_fit cap msgs \<lparr>s_bids = [], s_asks = []\<rparr>")
  case True
  with replay_new [OF assms True surjective_pairing] show ?thesis by (auto simp: book_is_def)
next
  case False
  with replay_fits [OF book_is_new [OF assms(1-3)] assms(4), of cap] show ?thesis
    by (cases "replay add_order cancel_order msgs (new_book True cap w)") auto
qed

definition demo_feed :: "feed_message list" where
  "demo_feed =
    [\<lparr>fm_type = AddOrder, fm_side = 0, fm_id = 1, fm_price = 100, fm_qty = 5, fm_ts = 0\<rparr>,
     \<lparr>fm_type = AddOrder, fm_side = 1, fm_id = 2, fm_price = 99, fm_qty = 3, fm_ts = 1\<rparr>,
     \<lparr>fm_type = 77, fm_side = 9, fm_id = 1, fm_price = 0, fm_qty = 0, fm_ts = 2\<rparr>]"

lemma demo_feed_ok: "prices_ok demo_feed"
  by (simp add: prices_ok_def demo_feed_def price_ok_def)

lemma demo_feed_totals: "totals_fit 4 demo_feed \<lparr>s_bids = [], s_asks = []\<rparr>"
  by (simp add: demo_feed_def spec_apply_def AddOrder_def CancelOrder_def side_of_byte_def spec_add_def book_ids_def
    side_orders_def pbetter_def Let_def book_fits_def fits_int64_def)

lemma demo_feed_run: "spec_replay 4 demo_feed \<lparr>s_bids = [], s_asks = []\<rparr> =
    (\<lparr>s_bids = [(100, [(1, 2)])], s_asks = []\<rparr>, [\<lparr>resting_id = 1, incoming_id = 2, f_price = 100, f_qty = 3\<rparr>])"
  by (simp add: demo_feed_def spec_apply_def AddOrder_def CancelOrder_def side_of_byte_def spec_add_def book_ids_def
    side_orders_def pbetter_def Let_def)

theorem replay_refines_witness:
  "\<exists>b. replay add_order cancel_order demo_feed (new_book True 4 64) = Some b \<and>
    fill_log b = [\<lparr>resting_id = 1, incoming_id = 2, f_price = 100, f_qty = 3\<rparr>]"
  using replay_refines [of 64 demo_feed 4] demo_feed_ok demo_feed_totals demo_feed_run is_pow2_power [of 6] by auto

text \<open>
  C12.  The window of the price ladder is invisible: for every feed with prices in range that keeps the level totals in
  64 bits, replays into two books of the same capacity but with different window sizes both return, with the same fills, best
  prices and depth, and with the same total quantity, which is undefined in one when it is in the other.
\<close>

theorem replay_window_independent:
  assumes "is_pow2 v" "64 \<le> v" "v \<le> 2 ^ 62" "is_pow2 w" "64 \<le> w" "w \<le> 2 ^ 62" "prices_ok msgs"
    "totals_fit cap msgs \<lparr>s_bids = [], s_asks = []\<rparr>"
  shows "\<exists>b c. replay add_order cancel_order msgs (new_book True cap v) = Some b \<and>
    replay add_order cancel_order msgs (new_book True cap w) = Some c \<and> fill_log b = fill_log c \<and>
    best_bid b = best_bid c \<and> best_ask b = best_ask c \<and> total_resting_qty b = total_resting_qty c \<and>
    (\<forall>s n. top_levels s n b = top_levels s n c)"
proof -
  obtain B fs where S: "spec_replay cap msgs \<lparr>s_bids = [], s_asks = []\<rparr> = (B, fs)" by fastforce
  from replay_new [OF assms(1-3,7,8) S] replay_new [OF assms(4-8) S] obtain b c where
    "replay add_order cancel_order msgs (new_book True cap v) = Some b" "refines b B" "fill_log b = fs"
    "replay add_order cancel_order msgs (new_book True cap w) = Some c" "refines c B" "fill_log c = fs"
    by (auto simp: book_is_def consistent_def)
  then show ?thesis by (auto simp: best_bid_ok best_ask_ok total_resting_qty_ok top_levels_ok)
qed

theorem replay_window_independent_witness:
  "\<exists>b c. replay add_order cancel_order demo_feed (new_book True 4 64) = Some b \<and>
    replay add_order cancel_order demo_feed (new_book True 4 128) = Some c \<and> fill_log b = fill_log c \<and> best_bid b = best_bid c"
  using replay_window_independent [of 64 128 demo_feed 4] demo_feed_ok demo_feed_totals is_pow2_power [of 6] is_pow2_power [of 7] by auto

text \<open>
  C13.  The ladder book replaces the map book: for every feed with prices in range that keeps the level totals in 64 bits and in which
  no add message carries the id of a resting order, both replays return, call the fill handler with the same fills in
  the same order, and the two books answer every query alike, whatever the window of the ladder.
\<close>

theorem ladder_replays_as_map:
  assumes "is_pow2 w" "64 \<le> w" "w \<le> 2 ^ 62" "prices_ok msgs" "totals_fit cap msgs \<lparr>s_bids = [], s_asks = []\<rparr>"
    "admitted new_id cap msgs \<lparr>s_bids = [], s_asks = []\<rparr>"
  shows "\<exists>b c. replay add_order cancel_order msgs (new_book True cap w) = Some b \<and>
    replay map_add map_cancel_order msgs (new_map_book True cap) = Some c \<and> fill_log b = mb_log c \<and>
    best_bid b = Some (map_best_bid c) \<and> best_ask b = Some (map_best_ask c) \<and> total_resting_qty b = map_total_resting_qty c \<and>
    (\<forall>s n. top_levels s n b = map_top_levels s n c)"
  using assms by (rule ladder_agrees_with_map)

lemma demo_feed_new: "admitted new_id 4 demo_feed \<lparr>s_bids = [], s_asks = []\<rparr>"
  by (simp add: demo_feed_def spec_apply_def AddOrder_def CancelOrder_def side_of_byte_def spec_add_def book_ids_def
    side_orders_def pbetter_def Let_def)

theorem ladder_replays_as_map_witness:
  "\<exists>b c. replay add_order cancel_order demo_feed (new_book True 4 64) = Some b \<and>
    replay map_add map_cancel_order demo_feed (new_map_book True 4) = Some c \<and> fill_log b = mb_log c \<and> best_bid b = Some (map_best_bid c)"
  using ladder_replays_as_map [of 64 demo_feed 4] demo_feed_ok demo_feed_totals demo_feed_new is_pow2_power [of 6] by auto

end
