(* ===== verification/Feed_Generator.thy ===== *)
theory Feed_Generator
  imports Feed_Replay
begin

text \<open>
  The feed generators of \<^verbatim>\<open>src/main.cpp\<close>.  The random number engine of the C++ library is a
  parameter: \<open>uniform a b g\<close> is a draw of \<^verbatim>\<open>std::uniform_int_distribution(a, b)\<close> from the engine
  state \<open>g\<close>.  All that is used of it is the documented range of the result.  An access outside a
  vector is \<^const>\<open>None\<close>.
\<close>

section \<open>Definitions\<close>

type_synonym 'g uniform = "int \<Rightarrow> int \<Rightarrow> 'g \<Rightarrow> int \<times> 'g"

definition uniform_ok :: "'g uniform \<Rightarrow> bool" where
  "uniform_ok U \<longleftrightarrow> (\<forall>a b g. a \<le> b \<longrightarrow> a \<le> fst (U a b g) \<and> fst (U a b g) \<le> b)"

definition zero_message :: feed_message where
  "zero_message = \<lparr>fm_type = 0, fm_side = 0, fm_id = 0, fm_price = 0, fm_qty = 0, fm_ts = 0\<rparr>"

text \<open>One iteration: the engine, the ids handed out so far, the next id and the messages.\<close>

definition generate_step :: "'g uniform \<Rightarrow> nat \<Rightarrow> 'g \<times> order_id list \<times> order_id \<times> feed_message list \<Rightarrow>
    ('g \<times> order_id list \<times> order_id \<times> feed_message list) option" where
  "generate_step U i = (\<lambda>(g, seen_ids, next_id, msgs). do {
     msg \<leftarrow> Some (zero_message\<lparr>fm_ts := word_of_nat i\<rparr>);
     (add, g) \<leftarrow> Some (if seen_ids = [] then (True, g) else let (a, g) = U 0 99 g in (a < 80, g));
     if add
     then do {
       msg \<leftarrow> Some (msg\<lparr>fm_type := AddOrder, fm_id := next_id\<rparr>);
       (s, g) \<leftarrow> Some (U 0 1 g);
       msg \<leftarrow> Some (msg\<lparr>fm_side := (if s = 0 then 0 else 1)\<rparr>);
       (p, g) \<leftarrow> Some (U 95 105 g);
       msg \<leftarrow> Some (msg\<lparr>fm_price := p\<rparr>);
       (q, g) \<leftarrow> Some (U 1 20 g);
       msg \<leftarrow> Some (msg\<lparr>fm_qty := q\<rparr>);
       Some (g, seen_ids @ [fm_id msg], next_id + 1, msgs @ [msg]) }
     else do {
       (k, g) \<leftarrow> Some (U 0 (int (length seen_ids) - 1) g);
       oid \<leftarrow> vread seen_ids (nat k);
       Some (g, seen_ids, next_id, msgs @ [msg\<lparr>fm_type := CancelOrder, fm_id := oid\<rparr>]) } })"

definition generate_feed :: "'g uniform \<Rightarrow> 'g \<Rightarrow> nat \<Rightarrow> feed_message list option" where
  "generate_feed U g num_messages = do {
     (g, seen_ids, next_id, msgs) \<leftarrow> foldM (generate_step U) [0..<num_messages] (g, [], 1, []);
     Some msgs }"

text \<open>
  The wide profile: the middle price drifts, and a cancelled id leaves the list of live ones by
  being overwritten with the last.
\<close>

definition wide_step :: "'g uniform \<Rightarrow> int \<Rightarrow> nat \<Rightarrow> 'g \<times> order_id list \<times> order_id \<times> price \<times> feed_message list \<Rightarrow>
    ('g \<times> order_id list \<times> order_id \<times> price \<times> feed_message list) option" where
  "wide_step U ticks i = (\<lambda>(g, live, next_id, mid, msgs). do {
     msg \<leftarrow> Some (zero_message\<lparr>fm_ts := word_of_nat i\<rparr>);
     (c, g) \<leftarrow> Some (U 0 99 g);
     (mid, g) \<leftarrow> Some (if c < 10 then let (d, g) = U (-1) 1 g in (mid + d, g) else (mid, g));
     (add, g) \<leftarrow> Some (if live = [] then (True, g) else let (a, g) = U 0 99 g in (a < 55, g));
     if add
     then do {
       msg \<leftarrow> Some (msg\<lparr>fm_type := AddOrder, fm_id := next_id\<rparr>);
       (s, g) \<leftarrow> Some (U 0 99 g);
       msg \<leftarrow> Some (msg\<lparr>fm_side := (if s < 50 then 0 else 1)\<rparr>);
       (x, g) \<leftarrow> Some (U 0 ticks g);
       (y, g) \<leftarrow> Some (U 0 ticks g);
       off \<leftarrow> Some (min x y);
       msg \<leftarrow> Some (msg\<lparr>fm_price := (if fm_side msg = 0 then mid - off else mid + 1 + off)\<rparr>);
       (q, g) \<leftarrow> Some (U 1 20 g);
       msg \<leftarrow> Some (msg\<lparr>fm_qty := q\<rparr>);
       Some (g, live @ [fm_id msg], next_id + 1, mid, msgs @ [msg]) }
     else do {
       (k, g) \<leftarrow> Some (U 0 (int (length live) - 1) g);
       oid \<leftarrow> vread live (nat k);
       live \<leftarrow> vwrite live (nat k) (last live);
       Some (g, butlast live, next_id, mid, msgs @ [msg\<lparr>fm_type := CancelOrder, fm_id := oid\<rparr>]) } })"

definition generate_wide_feed :: "'g uniform \<Rightarrow> 'g \<Rightarrow> nat \<Rightarrow> int \<Rightarrow> feed_message list option" where
  "generate_wide_feed U g num_messages ticks = do {
     (g, live, next_id, mid, msgs) \<leftarrow> foldM (wide_step U ticks) [0..<num_messages] (g, [], 1, 100000, []);
     Some msgs }"

section \<open>What a feed looks like\<close>

definition added :: "feed_message list \<Rightarrow> order_id list" where
  "added msgs = map fm_id (filter (\<lambda>m. fm_type m = AddOrder) msgs)"

definition cancelled :: "feed_message list \<Rightarrow> order_id list" where
  "cancelled msgs = map fm_id (filter (\<lambda>m. fm_type m = CancelOrder) msgs)"

text \<open>The add messages carry the ids 1, 2, 3, ..., and a cancel names an id added before it.\<close>

definition ids_ok :: "feed_message list \<Rightarrow> bool" where
  "ids_ok msgs \<longleftrightarrow> added msgs = map word_of_nat [1..<Suc (length (added msgs))] \<and>
     (\<forall>xs m ys. msgs = xs @ m # ys \<longrightarrow> fm_type m = CancelOrder \<longrightarrow> fm_id m \<in> set (added xs))"

definition message_in :: "int \<Rightarrow> int \<Rightarrow> feed_message \<Rightarrow> bool" where
  "message_in lo hi m \<longleftrightarrow> fm_type m \<in> {AddOrder, CancelOrder} \<and>
     (fm_type m = AddOrder \<longrightarrow> lo \<le> fm_price m \<and> fm_price m \<le> hi \<and> 1 \<le> fm_qty m \<and> fm_qty m \<le> 20) \<and>
     (fm_type m = CancelOrder \<longrightarrow> fm_price m = 0 \<and> fm_qty m = 0)"

lemma types_differ [simp]: "AddOrder \<noteq> CancelOrder" "CancelOrder \<noteq> AddOrder"
  by (simp_all add: AddOrder_def CancelOrder_def)

lemma added_snoc [simp]: "added (msgs @ [m]) = added msgs @ (if fm_type m = AddOrder then [fm_id m] else [])"
  by (simp add: added_def)

lemma cancelled_snoc [simp]: "cancelled (msgs @ [m]) = cancelled msgs @ (if fm_type m = CancelOrder then [fm_id m] else [])"
  by (simp add: cancelled_def)

lemma ids_ok_nil: "ids_ok []"
  by (simp add: ids_ok_def added_def)

lemma snoc_split: "msgs @ [m] = xs @ x # ys \<Longrightarrow> (ys = [] \<and> msgs = xs \<and> m = x) \<or> (\<exists>zs. ys = zs @ [m] \<and> msgs = xs @ x # zs)"
  by (cases ys rule: rev_cases) auto

lemma ids_ok_add:
  assumes "ids_ok msgs" "fm_type m = AddOrder" "fm_id m = word_of_nat (Suc (length (added msgs)))"
  shows "ids_ok (msgs @ [m])"
  using assms unfolding ids_ok_def by (auto dest!: snoc_split)

lemma ids_ok_cancel:
  assumes "ids_ok msgs" "fm_type m = CancelOrder" "fm_id m \<in> set (added msgs)"
  shows "ids_ok (msgs @ [m])"
  using assms unfolding ids_ok_def by (auto dest!: snoc_split)

lemma id_fresh:
  assumes "ids_ok msgs" "length msgs < n" "n < 2 ^ 64"
  shows "distinct (added msgs) \<and> word_of_nat (Suc (length (added msgs))) \<notin> set (added msgs)"
proof -
  let ?k = "length (added msgs)"
  have "?k \<le> length msgs" by (simp add: added_def)
  then have k: "Suc ?k < 2 ^ 64" using assms by linarith
  have a: "added msgs = map word_of_nat [1..<Suc ?k]" using assms(1) by (simp add: ids_ok_def)
  have inj: "inj_on (word_of_nat :: nat \<Rightarrow> u64) {1..<Suc (Suc ?k)}"
  proof (rule inj_onI)
    fix x y assume "x \<in> {1..<Suc (Suc ?k)}" "y \<in> {1..<Suc (Suc ?k)}" "(word_of_nat x :: u64) = word_of_nat y"
    moreover from this have "x < 2 ^ 64" "y < 2 ^ 64" using k by auto
    ultimately show "x = y" by (metis unat_small)
  qed
  have "distinct (map (word_of_nat :: nat \<Rightarrow> u64) [1..<Suc (Suc ?k)])" using inj by (simp add: distinct_map del: upt_Suc)
  then have "distinct (added msgs @ [word_of_nat (Suc ?k)])" by (subst a) simp
  then show ?thesis by simp
qed

section \<open>The narrow profile\<close>

definition narrow_inv :: "nat \<Rightarrow> 'g \<times> order_id list \<times> order_id \<times> feed_message list \<Rightarrow> bool" where
  "narrow_inv i = (\<lambda>(g, seen_ids, next_id, msgs). length msgs = i \<and> seen_ids = added msgs \<and>
     next_id = word_of_nat (Suc (length (added msgs))) \<and> ids_ok msgs \<and> (\<forall>m \<in> set msgs. message_in 95 105 m))"

lemma generate_step_ok:
  assumes U: "uniform_ok U" and inv: "narrow_inv i st"
  shows "\<exists>st'. generate_step U i st = Some st' \<and> narrow_inv (Suc i) st'"
proof -
  obtain g seen next_id msgs where st: "st = (g, seen, next_id, msgs)" by (cases st)
  obtain add g1 where a: "(if seen = [] then (True, g) else let (a, g) = U 0 99 g in (a < 80, g)) = (add, g1)" by fastforce
  show ?thesis
  proof (cases add)
    case True
    obtain s g2 where s: "U 0 1 g1 = (s, g2)" by fastforce
    obtain p g3 where p: "U 95 105 g2 = (p, g3)" by fastforce
    obtain q g4 where q: "U 1 20 g3 = (q, g4)" by fastforce
    have "95 \<le> p" "p \<le> 105" "1 \<le> q" "q \<le> 20"
      using U [unfolded uniform_ok_def, rule_format, of 95 105 g2] U [unfolded uniform_ok_def, rule_format, of 1 20 g3] p q by simp_all
    then show ?thesis using inv True a s p q
      by (auto simp: st generate_step_def narrow_inv_def message_in_def intro!: ids_ok_add)
  next
    case False
    then have seen: "seen \<noteq> []" using a by auto
    obtain k g2 where k: "U 0 (int (length seen) - 1) g1 = (k, g2)" by fastforce
    have "0 \<le> k" "k \<le> int (length seen) - 1"
      using U [unfolded uniform_ok_def, rule_format, of 0 "int (length seen) - 1" g1] k seen by (simp_all add: Suc_le_eq)
    then have "nat k < length seen" using seen by linarith
    then show ?thesis using inv False a k
      by (auto simp: st generate_step_def narrow_inv_def message_in_def vread_def zero_message_def intro!: ids_ok_cancel)
  qed
qed

text \<open>A loop over an index range keeps an invariant that each iteration moves on by one.\<close>

lemma foldM_range:
  assumes "I 0 s" "\<And>i s. i < n \<Longrightarrow> I i s \<Longrightarrow> \<exists>s'. f i s = Some s' \<and> I (Suc i) s'"
  shows "\<exists>s'. foldM f [0..<n] s = Some s' \<and> I n s'"
  using assms
proof (induction n)
  case (Suc n)
  then obtain s' where "foldM f [0..<n] s = Some s'" "I n s'" by (metis less_SucI)
  moreover from this Suc.prems(2) [of n] obtain s'' where "f n s' = Some s''" "I (Suc n) s''" by blast
  ultimately show ?case by (simp add: foldM_append)
qed simp

lemma generate_feed_ok:
  assumes "uniform_ok U"
  shows "\<exists>msgs. generate_feed U g n = Some msgs \<and> length msgs = n \<and> ids_ok msgs \<and> (\<forall>m \<in> set msgs. message_in 95 105 m)"
proof -
  have "narrow_inv 0 (g, [], 1, [])" by (simp add: narrow_inv_def ids_ok_nil) (simp add: added_def)
  then have "\<exists>s. foldM (generate_step U) [0..<n] (g, [], 1, []) = Some s \<and> narrow_inv n s"
    by (rule foldM_range [of narrow_inv]) (rule generate_step_ok [OF assms])
  then obtain s where "foldM (generate_step U) [0..<n] (g, [], 1, []) = Some s" "narrow_inv n s" by blast
  then show ?thesis by (cases s) (auto simp: generate_feed_def narrow_inv_def)
qed

section \<open>The wide profile\<close>

definition wide_inv :: "nat \<Rightarrow> int \<Rightarrow> nat \<Rightarrow> 'g \<times> order_id list \<times> order_id \<times> price \<times> feed_message list \<Rightarrow> bool" where
  "wide_inv n ticks i = (\<lambda>(g, live, next_id, mid, msgs). length msgs = i \<and> distinct live \<and>
     mset live + mset (cancelled msgs) = mset (added msgs) \<and> next_id = word_of_nat (Suc (length (added msgs))) \<and>
     \<bar>mid - 100000\<bar> \<le> int i \<and> ids_ok msgs \<and> (\<forall>m \<in> set msgs. message_in (100000 - int n - ticks) (100001 + int n + ticks) m))"

text \<open>Overwriting a position with the last element and dropping the last removes that element.\<close>

lemma mset_swap_remove:
  assumes "k < length xs"
  shows "mset xs = add_mset (xs ! k) (mset (butlast (xs[k := last xs])))"
proof -
  from assms obtain ys y where xs: "xs = ys @ [y]" by (cases xs rule: rev_cases) auto
  show ?thesis
  proof (cases "k = length ys")
    case True
    then show ?thesis by (simp add: xs)
  next
    case False
    then have "k < length ys" using assms xs by simp
    then show ?thesis by (simp add: xs nth_append list_update_append mset_update)
  qed
qed

text \<open>The two kinds of messages keep the invariant.\<close>

lemma wide_add:
  assumes inv: "wide_inv n ticks i (g, ids, next_id, mid, msgs)" and i: "i < n" "n < 2 ^ 64" and mid: "\<bar>mid' - 100000\<bar> \<le> int (Suc i)"
    and msg: "message_in (100000 - int n - ticks) (100001 + int n + ticks) msg" "fm_type msg = AddOrder" "fm_id msg = next_id"
  shows "wide_inv n ticks (Suc i) (g', ids @ [next_id], next_id + 1, mid', msgs @ [msg])"
proof -
  note I = inv [unfolded wide_inv_def, simplified]
  have "set ids \<subseteq> set (added msgs)" using I by (metis mset_subset_eq_add_left set_mset_mono set_mset_mset)
  with id_fresh [of msgs n] I i have "next_id \<notin> set ids" by auto
  moreover have "ids_ok (msgs @ [msg])" using I msg by (intro ids_ok_add) simp_all
  ultimately show ?thesis using I mid msg by (simp add: wide_inv_def)
qed

lemma wide_cancel:
  assumes inv: "wide_inv n ticks i (g, ids, next_id, mid, msgs)" and mid: "\<bar>mid' - 100000\<bar> \<le> int (Suc i)" and k: "k < length ids"
    and msg: "msg = \<lparr>fm_type = CancelOrder, fm_side = 0, fm_id = ids ! k, fm_price = 0, fm_qty = 0, fm_ts = ts\<rparr>"
  shows "wide_inv n ticks (Suc i) (g', butlast (ids[k := last ids]), next_id, mid', msgs @ [msg])"
proof -
  note I = inv [unfolded wide_inv_def, simplified] and sw = mset_swap_remove [OF k]
  let ?ids = "butlast (ids[k := last ids])"
  have "distinct ?ids" using I mset_eq_imp_distinct_iff [of ids "ids ! k # ?ids"] sw by simp
  moreover have "mset ?ids + mset (cancelled (msgs @ [msg])) = mset (added msgs)" using I sw by (simp add: msg)
  moreover have "ids ! k \<in> set (added msgs)" using I nth_mem [OF k] by (metis mset_subset_eq_add_left mset_subset_eqD set_mset_mset)
  then have "ids_ok (msgs @ [msg])" using I by (intro ids_ok_cancel) (simp_all add: msg)
  ultimately show ?thesis using I mid by (simp add: wide_inv_def msg message_in_def)
qed

lemma wide_step_ok:
  assumes U: "uniform_ok U" and ticks: "0 \<le> ticks" and i: "i < n" "n < 2 ^ 64" and inv: "wide_inv n ticks i st"
  shows "\<exists>st'. wide_step U ticks i st = Some st' \<and> wide_inv n ticks (Suc i) st'"
proof -
  note in_range = U [unfolded uniform_ok_def, rule_format]
  obtain g live next_id mid msgs where st: "st = (g, live, next_id, mid, msgs)" by (cases st)
  note I = inv [unfolded st]
  obtain c g1 where c: "U 0 99 g = (c, g1)" by fastforce
  obtain mid' g2 where m: "(if c < 10 then let (d, g) = U (-1) 1 g1 in (mid + d, g) else (mid, g1)) = (mid', g2)" by fastforce
  have "\<bar>mid' - mid\<bar> \<le> 1" using in_range [of "-1" 1 g1] m by (auto simp: case_prod_beta split: if_splits)
  with I i(1) have mid': "\<bar>mid' - 100000\<bar> \<le> int (Suc i)" "\<bar>mid' - 100000\<bar> \<le> int n" by (auto simp: wide_inv_def)
  obtain add g3 where a: "(if live = [] then (True, g2) else let (a, g) = U 0 99 g2 in (a < 55, g)) = (add, g3)" by fastforce
  show ?thesis
  proof (cases add)
    case True
    obtain s g4 where s: "U 0 99 g3 = (s, g4)" by fastforce
    obtain x g5 where x: "U 0 ticks g4 = (x, g5)" by fastforce
    obtain y g6 where y: "U 0 ticks g5 = (y, g6)" by fastforce
    obtain q g7 where q: "U 1 20 g6 = (q, g7)" by fastforce
    let ?msg = "\<lparr>fm_type = AddOrder, fm_side = (if s < 50 then 0 else 1), fm_id = next_id,
      fm_price = (if s < 50 then mid' - min x y else mid' + 1 + min x y), fm_qty = q, fm_ts = word_of_nat i\<rparr>"
    have step: "wide_step U ticks i st = Some (g7, live @ [next_id], next_id + 1, mid', msgs @ [?msg])"
      using True c m a s x y q by (auto simp: st wide_step_def zero_message_def)
    have "0 \<le> min x y" "min x y \<le> ticks" "1 \<le> q" "q \<le> 20"
      using in_range [OF ticks, of g4] in_range [OF ticks, of g5] in_range [of 1 20 g6] x y q by auto
    then have "message_in (100000 - int n - ticks) (100001 + int n + ticks) ?msg"
      using mid'(2) by (auto simp: message_in_def)
    then have "wide_inv n ticks (Suc i) (g7, live @ [next_id], next_id + 1, mid', msgs @ [?msg])"
      by (rule wide_add [OF I i mid'(1)]) simp_all
    with step show ?thesis by blast
  next
    case False
    then have live: "live \<noteq> []" using a by auto
    obtain k g4 where k: "U 0 (int (length live) - 1) g3 = (k, g4)" by fastforce
    have "0 \<le> k" "k \<le> int (length live) - 1"
      using in_range [of 0 "int (length live) - 1" g3] k live by (simp_all add: Suc_le_eq)
    then have kl: "nat k < length live" using live by linarith
    let ?msg = "\<lparr>fm_type = CancelOrder, fm_side = 0, fm_id = live ! nat k, fm_price = 0, fm_qty = 0, fm_ts = word_of_nat i\<rparr>"
    have "wide_step U ticks i st = Some (g4, butlast (live[nat k := last live]), next_id, mid', msgs @ [?msg])"
      using False c m a k kl by (auto simp: st wide_step_def zero_message_def vread_def vwrite_def)
    with wide_cancel [OF I mid'(1) kl refl] show ?thesis by simp
  qed
qed

lemma generate_wide_feed_ok:
  assumes "uniform_ok U" "0 \<le> ticks" "n < 2 ^ 64"
  shows "\<exists>msgs. generate_wide_feed U g n ticks = Some msgs \<and> length msgs = n \<and> ids_ok msgs \<and> mset (cancelled msgs) \<subseteq># mset (added msgs) \<and>
    (\<forall>m \<in> set msgs. message_in (100000 - int n - ticks) (100001 + int n + ticks) m)"
proof -
  have "wide_inv n ticks 0 (g, [], 1, 100000, [])" by (simp add: wide_inv_def ids_ok_nil) (simp add: added_def cancelled_def)
  then have "\<exists>s. foldM (wide_step U ticks) [0..<n] (g, [], 1, 100000, []) = Some s \<and> wide_inv n ticks n s"
    by (rule foldM_range [of "wide_inv n ticks"]) (rule wide_step_ok [OF assms(1,2) _ assms(3)])
  then obtain s where s: "foldM (wide_step U ticks) [0..<n] (g, [], 1, 100000, []) = Some s" "wide_inv n ticks n s" by blast
  obtain g' live next_id mid msgs where e: "s = (g', live, next_id, mid, msgs)" by (cases s)
  have "mset (cancelled msgs) \<subseteq># mset (added msgs)" using s(2) by (auto simp: e wide_inv_def) (metis mset_subset_eq_add_right)
  with s show ?thesis by (auto simp: e generate_wide_feed_def wide_inv_def)
qed

section \<open>The books admit the feed\<close>

lemma enqueue_ids: "fst ` set (side_orders (enqueue s p (i, q) ls)) = insert i (fst ` set (side_orders ls))"
proof (induction ls)
  case (Cons l ls)
  then show ?case by (cases l) (simp add: image_Un)
qed simp

lemma spec_add_ids:
  assumes "spec_add cap i s p q B = (ok, B', fs)"
  shows "set (book_ids B') \<subseteq> insert i (set (book_ids B))"
  using assms
proof (cases rule: spec_add_cases)
  case (taken q' ls)
  from take_side_ids [OF taken(4)] taken(5) enqueue_ids [of s p i q' "side_of s B"] show ?thesis
    by (cases s) (auto simp: book_ids_def split: if_splits)
qed auto

lemma drop_id_ids: "fst ` set (side_orders (drop_id i ls)) \<subseteq> fst ` set (side_orders ls)"
  by (induction ls) (auto simp: drop_id_def)

lemma spec_apply_ids: "set (book_ids (fst (spec_apply cap m B))) \<subseteq> set (book_ids B) \<union> set (added [m])"
proof -
  have "set (book_ids (snd (spec_cancel i B))) \<subseteq> set (book_ids B)" for i
    using drop_id_ids [of i "s_bids B"] drop_id_ids [of i "s_asks B"] by (auto simp: spec_cancel_def book_ids_def)
  moreover obtain ok C fs where S: "spec_add cap (fm_id m) (side_of_byte (fm_side m)) (fm_price m) (fm_qty m) B = (ok, C, fs)"
    by (cases "spec_add cap (fm_id m) (side_of_byte (fm_side m)) (fm_price m) (fm_qty m) B")
  note spec_add_ids [OF S]
  ultimately show ?thesis by (auto simp: spec_apply_def added_def S)
qed

text \<open>When no id is added twice, every id is new to the book it meets.\<close>

lemma distinct_admitted:
  assumes "distinct (added msgs)" "set (added msgs) \<inter> set (book_ids B) = {}"
  shows "admitted new_id cap msgs B"
  using assms
proof (induction msgs arbitrary: B)
  case (Cons m ms)
  have "added (m # ms) = added [m] @ added ms" by (simp add: added_def)
  moreover from this Cons.prems spec_apply_ids [of cap m B] have "set (added ms) \<inter> set (book_ids (fst (spec_apply cap m B))) = {}" by auto
  ultimately show ?case using Cons by (auto simp: added_def)
qed simp

lemma ids_ok_admitted:
  assumes "ids_ok msgs" "length msgs < 2 ^ 64 - 1"
  shows "admitted new_id cap msgs \<lparr>s_bids = [], s_asks = []\<rparr>"
  using id_fresh [of msgs "Suc (length msgs)"] assms by (intro distinct_admitted) (auto simp: book_ids_def side_orders_def)

section \<open>Properties\<close>

text \<open>A concrete engine for the witnesses: a counter reduced to the interval.\<close>

definition counting :: "nat uniform" where
  "counting a b g = (a + int g mod (b - a + 1), Suc g)"

lemma counting_ok: "uniform_ok counting"
proof -
  have "int g mod (b - a + 1) \<le> b - a" if "a \<le> b" for a b :: int and g
    using that pos_mod_bound [of "b - a + 1" "int g"] by simp
  then show ?thesis by (auto simp: uniform_ok_def counting_def) (smt (verit, best))
qed

text \<open>
  The narrow generator is total and well-formed: with any engine that keeps to the
  requested ranges it produces the requested number of messages; the adds carry the ids 1, 2, 3
  and so on with prices from 95 to 105 and quantities from 1 to 20, and every cancel names an
  id that was added before it.
\<close>

theorem generate_feed_wellformed:
  assumes "uniform_ok U"
  shows "\<exists>msgs. generate_feed U g n = Some msgs \<and> length msgs = n \<and> ids_ok msgs \<and> (\<forall>m \<in> set msgs. message_in 95 105 m)"
  using assms by (rule generate_feed_ok)

theorem generate_feed_wellformed_witness:
  "\<exists>msgs. generate_feed counting 0 3 = Some msgs \<and> length msgs = 3 \<and> ids_ok msgs"
  using generate_feed_wellformed [OF counting_ok, of 0 3] by blast

text \<open>
  The wide generator is total and well-formed too: its prices stay within the drift of the
  middle price and the given number of ticks, and each id is cancelled at most once, after it
  was added.
\<close>

theorem generate_wide_feed_wellformed:
  assumes "uniform_ok U" "0 \<le> ticks" "n < 2 ^ 64"
  shows "\<exists>msgs. generate_wide_feed U g n ticks = Some msgs \<and> length msgs = n \<and> ids_ok msgs \<and>
    mset (cancelled msgs) \<subseteq># mset (added msgs) \<and>
    (\<forall>m \<in> set msgs. message_in (100000 - int n - ticks) (100001 + int n + ticks) m)"
  using assms by (rule generate_wide_feed_ok)

theorem generate_wide_feed_wellformed_witness:
  "\<exists>msgs. generate_wide_feed counting 0 3 300 = Some msgs \<and> length msgs = 3 \<and> mset (cancelled msgs) \<subseteq># mset (added msgs)"
  using generate_wide_feed_wellformed [OF counting_ok, of 300 3 0] by auto

end
