(* ===== verification/Feed_File.thy ===== *)
theory Feed_File
  imports Feed_Message
begin

text \<open>
  The file functions of \<^verbatim>\<open>include/feed_replay.hpp\<close>.  Files are byte lists under their path.  What
  the C library and the device do is in the record \<open>disk\<close>: whether the file can be opened for writing, how
  many bytes each \<^verbatim>\<open>fwrite\<close> accepts into the stream, and how many bytes of the stream have reached
  the file when \<^verbatim>\<open>fclose\<close> returns.  An exception that leaves a function is a left value.
\<close>

section \<open>Streams\<close>

type_synonym files = "string \<rightharpoonup> byte list"

record disk =
  can_open :: bool
  accepts :: "nat \<Rightarrow> nat"
  flushed :: nat

text \<open>\<^verbatim>\<open>fwrite\<close> number \<open>c\<close> of a stream: the number of whole items, and the bytes accepted.\<close>

definition fwrite :: "disk \<Rightarrow> nat \<Rightarrow> nat \<Rightarrow> byte list \<Rightarrow> nat \<times> byte list" where
  "fwrite D c item_size bs = (let k = min (accepts D c) (length bs) in (k div item_size, take k bs))"

text \<open>\<^verbatim>\<open>fread\<close> of \<open>n\<close> items: the items read, each as its bytes, and the rest of the stream.\<close>

definition fread :: "nat \<Rightarrow> nat \<Rightarrow> byte list \<Rightarrow> byte list list \<times> byte list" where
  "fread item_size n bs = (let k = min n (length bs div item_size) in
     (map (\<lambda>i. take item_size (drop (i * item_size) bs)) [0..<k], drop (k * item_size) bs))"

section \<open>Saving and loading\<close>

definition save_feed_file :: "bool \<Rightarrow> disk \<Rightarrow> (nat \<Rightarrow> byte list) \<Rightarrow> string \<Rightarrow> feed_message list \<Rightarrow> files \<Rightarrow> bool \<times> files" where
  "save_feed_file big D pads path msgs fs =
     (if \<not> can_open D then (False, fs)
      else
        let hdr = new_header\<lparr>hdr_count := word_of_nat (length msgs)\<rparr>;
            (n, out) = fwrite D 0 sizeof_header (encode_header big hdr);
            ok = (n = 1);
            (ok, out) = (if ok \<and> msgs \<noteq> []
              then let (n, data) = fwrite D 1 sizeof_message
                     (concat (map (\<lambda>i. encode_message big (pads i) (msgs ! i)) [0..<length msgs]))
                   in (n = length msgs, out @ data)
              else (ok, out))
        in (ok, fs(path \<mapsto> take (flushed D) out)))"

datatype cpp_exception = Length_error_or_bad_alloc

text \<open>
  \<open>limit\<close> is the largest vector of messages that can be allocated; \<open>out\<close> is the output parameter, with the contents that the
  caller left in it, and the second component of the result is what it holds at the end.  The bytes that the stream delivers are those
  before the end of the file or a read error, which \<^verbatim>\<open>fread\<close> reports alike, as a short count.
\<close>

definition vector_clear :: "'a list \<Rightarrow> 'a list" where
  "vector_clear xs = []"

definition load_feed_file :: "bool \<Rightarrow> nat \<Rightarrow> string \<Rightarrow> feed_message list \<Rightarrow> files \<Rightarrow> cpp_exception + bool \<times> feed_message list" where
  "load_feed_file big limit path out fs =
     (let out = vector_clear out in
      case fs path of
        None \<Rightarrow> Inr (False, out)
      | Some bs \<Rightarrow>
          let (items, rest) = fread sizeof_header 1 bs in
          if length items \<noteq> 1 \<or> \<not> feed_magic_valid (decode_header big (items ! 0)) then Inr (False, out)
          else
            let n = unat (hdr_count (decode_header big (items ! 0))) in
            if limit < n then Inl Length_error_or_bad_alloc
            else
              let (ok, msgs) = (if n > 0
                then let (items, rest) = fread sizeof_message n rest
                     in (length items = n, map (decode_message big) items)
                else (True, []))
              in if \<not> ok then Inr (False, out) else Inr (True, msgs))"

section \<open>What is in a file\<close>

definition file_image :: "bool \<Rightarrow> (nat \<Rightarrow> byte list) \<Rightarrow> feed_message list \<Rightarrow> byte list" where
  "file_image big pads msgs = encode_header big (new_header\<lparr>hdr_count := word_of_nat (length msgs)\<rparr>) @
     concat (map (\<lambda>i. encode_message big (pads i) (msgs ! i)) [0..<length msgs])"

definition pads_ok :: "(nat \<Rightarrow> byte list) \<Rightarrow> bool" where
  "pads_ok pads \<longleftrightarrow> (\<forall>i. length (pads i) = 6)"

lemma sizeof_pos [simp]: "0 < sizeof_header" "0 < sizeof_message"
  by (simp_all add: sizeof_header_def sizeof_message_def)

lemma length_header_image [simp]: "length (encode_header big (new_header\<lparr>hdr_count := w\<rparr>)) = sizeof_header"
  by (simp add: new_header_def)

lemma length_blocks: "(\<And>i. i < n \<Longrightarrow> length (f i) = s) \<Longrightarrow> length (concat (map f [0..<n])) = n * s"
  by (induction n) auto

lemma nth_block:
  assumes "\<And>i. i < n \<Longrightarrow> length (f i) = s" "i < n"
  shows "take s (drop (i * s) (concat (map f [0..<n]))) = f i"
proof -
  have "[0..<n] = [0..<i] @ i # [Suc i..<n]" using assms(2) upt_add_eq_append [of 0 i "n - i"] by (simp add: upt_conv_Cons)
  moreover have "length (concat (map f [0..<i])) = i * s" using assms by (intro length_blocks) auto
  ultimately show ?thesis using assms by simp
qed

lemma fread_blocks:
  assumes "\<And>i. i < n \<Longrightarrow> length (f i) = s" "0 < s"
  shows "fread s n (concat (map f [0..<n]) @ rest) = (map f [0..<n], rest)"
proof -
  have len: "length (concat (map f [0..<n])) = n * s" using assms(1) by (rule length_blocks)
  have "take s (drop (i * s) (concat (map f [0..<n]) @ rest)) = f i" if "i < n" for i
  proof -
    have "i * s + s \<le> n * s" using that by (metis Suc_leI add.commute mult_Suc mult_le_mono1)
    then have "take s (drop (i * s) (concat (map f [0..<n]) @ rest)) = take s (drop (i * s) (concat (map f [0..<n])))"
      using len by simp
    with nth_block [OF assms(1) that] show ?thesis by simp
  qed
  moreover have "min n ((n * s + length rest) div s) = n" using assms(2) by (simp add: div_add1_eq [of "n * s"])
  ultimately show ?thesis using len by (simp add: fread_def Let_def)
qed

lemma fread_short: "length bs < n * s \<Longrightarrow> length (fst (fread s n bs)) < n"
proof -
  assume short: "length bs < n * s"
  have "length bs div s < n"
  proof (rule ccontr)
    assume "\<not> length bs div s < n"
    then have "n * s \<le> length bs div s * s" by (simp add: mult_le_mono1)
    with short div_times_less_eq_dividend [of "length bs" s] show False by linarith
  qed
  then show ?thesis by (simp add: fread_def Let_def)
qed

section \<open>Arrays of records\<close>

text \<open>
  What reading and writing an array of objects rely on: each has a representation of fixed size, from which
  it can be recovered whatever the padding bytes are.
\<close>

locale record_codec =
  fixes enc :: "byte list \<Rightarrow> 'a \<Rightarrow> byte list"
    and dec :: "byte list \<Rightarrow> 'a"
    and rsize :: nat
    and padding_size :: nat
    and shaped :: "'a \<Rightarrow> bool"
    and ok :: "'a \<Rightarrow> bool"
  assumes size_pos: "0 < rsize"
    and enc_length: "length pad = padding_size \<Longrightarrow> shaped x \<Longrightarrow> length (enc pad x) = rsize"
    and dec_enc: "length pad = padding_size \<Longrightarrow> shaped x \<Longrightarrow> ok x \<Longrightarrow> dec (enc pad x) = x"
begin

lemma array_length:
  assumes "\<forall>i. length (pads i) = padding_size" "list_all shaped xs"
  shows "length (concat (map (\<lambda>i. enc (pads i) (xs ! i)) [0..<length xs])) = length xs * rsize"
  using assms by (intro length_blocks enc_length) (simp_all add: list_all_length)

lemma array_read:
  assumes "\<forall>i. length (pads i) = padding_size" "list_all shaped xs"
  shows "fread rsize (length xs) (concat (map (\<lambda>i. enc (pads i) (xs ! i)) [0..<length xs]) @ rest) =
    (map (\<lambda>i. enc (pads i) (xs ! i)) [0..<length xs], rest)"
  using assms size_pos by (intro fread_blocks enc_length) (simp_all add: list_all_length)

lemma array_roundtrip:
  assumes "\<forall>i. length (pads i) = padding_size" "list_all shaped xs" "list_all ok xs"
  shows "map dec (fst (fread rsize (length xs) (concat (map (\<lambda>i. enc (pads i) (xs ! i)) [0..<length xs]) @ rest))) = xs"
  using assms by (intro nth_equalityI) (simp_all add: array_read dec_enc list_all_length)

end

interpretation message_codec: record_codec "encode_message big" "decode_message big" sizeof_message 6 "\<lambda>_. True" message_ok for big
  by unfold_locales (simp_all add: decode_encode)

interpretation header_codec: record_codec "\<lambda>_. encode_header big" "decode_header big" sizeof_header 0 "\<lambda>h. length (hdr_magic h) = 8" "\<lambda>_. True" for big
  by unfold_locales simp_all

lemma length_messages:
  "pads_ok pads \<Longrightarrow> length (concat (map (\<lambda>i. encode_message big (pads i) (msgs ! i)) [0..<length msgs])) = length msgs * sizeof_message"
  by (rule message_codec.array_length) (simp_all add: pads_ok_def list_all_iff)

lemma length_file_image: "pads_ok pads \<Longrightarrow> length (file_image big pads msgs) = sizeof_header + length msgs * sizeof_message"
  using length_messages [of pads big msgs] by (simp add: file_image_def)

lemma take_min_length: "take (min k (length bs)) bs = take k bs"
  by (simp add: min_def)

lemma fread_header: "fread sizeof_header (Suc 0) (encode_header big (new_header\<lparr>hdr_count := w\<rparr>) @ rest) =
    ([encode_header big (new_header\<lparr>hdr_count := w\<rparr>)], rest)"
  using header_codec.array_read [of "\<lambda>_. []" "[new_header\<lparr>hdr_count := w\<rparr>]" big rest] by (simp add: new_header_def)

lemma header_decoded [simp]: "decode_header big (encode_header big (new_header\<lparr>hdr_count := w\<rparr>)) = new_header\<lparr>hdr_count := w\<rparr>"
  by (simp add: new_header_def)

lemma new_header_valid [simp]: "feed_magic_valid (new_header\<lparr>hdr_count := w\<rparr>)"
  by (simp add: feed_magic_valid_iff new_header_def)

lemma load_short_header: "fs path = Some bs \<Longrightarrow> length bs < sizeof_header \<Longrightarrow> load_feed_file big limit path old fs = Inr (False, [])"
  using fread_short [of bs 1 sizeof_header] by (simp add: load_feed_file_def vector_clear_def case_prod_beta Let_def)

lemma load_after_header:
  assumes "fs path = Some (encode_header big (new_header\<lparr>hdr_count := w\<rparr>) @ rest)"
  shows "load_feed_file big limit path old fs =
    (if limit < unat w then Inl Length_error_or_bad_alloc
     else let items = fst (fread sizeof_message (unat w) rest) in
       if length items = unat w then Inr (True, map (decode_message big) items) else Inr (False, []))"
proof -
  have "fread s 0 rest = ([], rest)" for s by (simp add: fread_def)
  then show ?thesis using assms
    by (cases "unat w = 0") (simp_all add: load_feed_file_def vector_clear_def fread_header Let_def case_prod_beta)
qed

lemma load_image:
  assumes pads: "pads_ok pads" and ok: "\<And>m. m \<in> set msgs \<Longrightarrow> message_ok m" and n: "length msgs \<le> limit" "length msgs < 2 ^ 64"
    and saved: "fs path = Some (take k (file_image big pads msgs))"
  shows "load_feed_file big limit path old fs = Inr (if length (file_image big pads msgs) \<le> k then (True, msgs) else (False, []))"
proof -
  let ?h = "encode_header big (new_header\<lparr>hdr_count := word_of_nat (length msgs)\<rparr>)"
  let ?f = "\<lambda>i. encode_message big (pads i) (msgs ! i)"
  let ?d = "concat (map ?f [0..<length msgs])"
  note len = length_file_image [OF pads, of big msgs]
  have count: "unat (word_of_nat (length msgs) :: u64) = length msgs" using n(2) by (simp add: unsigned_of_nat take_bit_nat_eq_self)
  have dl: "length ?d = length msgs * sizeof_message" using pads by (rule length_messages)
  show ?thesis
  proof (cases "k < sizeof_header")
    case True
    then show ?thesis using load_short_header [of fs path, OF saved] len by simp
  next
    case False
    then have "fs path = Some (?h @ take (k - sizeof_header) ?d)" using saved by (simp add: file_image_def)
    note run = load_after_header [of fs path, OF this, of limit]
    show ?thesis
    proof (cases "length (file_image big pads msgs) \<le> k")
      case True
      then have whole: "take (k - sizeof_header) ?d = ?d @ []" using dl len by simp
      have P: "\<forall>i. length (pads i) = 6" "list_all (\<lambda>_. True) msgs" "list_all message_ok msgs" using pads ok by (simp_all add: pads_ok_def list_all_iff)
      have "length (fst (fread sizeof_message (length msgs) (?d @ []))) = length msgs" unfolding message_codec.array_read [OF P(1,2)] by simp
      moreover note message_codec.array_roundtrip [OF P, of big "[]"]
      ultimately show ?thesis using True run n(1) count by (simp only: whole Let_def) simp
    next
      case short: False
      with False len have "length (fst (fread sizeof_message (length msgs) (take (k - sizeof_header) ?d))) < length msgs"
        by (intro fread_short) (simp add: dl)
      then show ?thesis using short run n(1) count by (simp add: Let_def)
    qed
  qed
qed

lemma fwrite_all:
  assumes "fwrite D c s bs = (n, out)" "length bs = n * s" "0 < s"
  shows "out = bs"
proof -
  let ?k = "min (accepts D c) (length bs)"
  have "n = ?k div s" "out = take ?k bs" using assms(1) by (simp_all add: fwrite_def Let_def)
  moreover from this have "n * s \<le> ?k" using div_times_less_eq_dividend [of ?k s] by simp
  ultimately show ?thesis using assms(2) by simp
qed

lemma save_image:
  assumes pads: "pads_ok pads" and save: "save_feed_file big D pads path msgs fs = (True, fs')"
  shows "fs' = fs(path \<mapsto> take (flushed D) (file_image big pads msgs))"
proof -
  let ?h = "encode_header big (new_header\<lparr>hdr_count := word_of_nat (length msgs)\<rparr>)"
  let ?d = "concat (map (\<lambda>i. encode_message big (pads i) (msgs ! i)) [0..<length msgs])"
  have dl: "length ?d = length msgs * sizeof_message" using pads by (rule length_messages)
  obtain n out where w: "fwrite D 0 sizeof_header ?h = (n, out)" by fastforce
  obtain k data where v: "fwrite D 1 sizeof_message ?d = (k, data)" by fastforce
  have opened: "can_open D" using save by (auto simp: save_feed_file_def split: if_splits)
  have n: "n = 1" "msgs \<noteq> [] \<longrightarrow> k = length msgs" "fs' = fs(path \<mapsto> take (flushed D) (out @ (if msgs = [] then [] else data)))"
    using save opened by (auto simp: save_feed_file_def w v [simplified] Let_def split: if_splits)
  then have "out = ?h" "msgs \<noteq> [] \<Longrightarrow> data = ?d" using fwrite_all [OF w] fwrite_all [OF v] dl by simp_all
  with n show ?thesis by (auto simp: file_image_def)
qed

section \<open>Properties\<close>

text \<open>
  C26.  Round trip: when \<open>save_feed_file\<close> reports success and everything it wrote has reached the
  file, \<open>load_feed_file\<close> returns exactly the saved messages, in either byte order and whatever
  the padding bytes held.
\<close>

theorem feed_file_roundtrip:
  assumes "pads_ok pads" "\<forall>m \<in> set msgs. message_ok m" "length msgs \<le> limit" "limit < 2 ^ 64"
    "save_feed_file big D pads path msgs fs = (True, fs')" "length (file_image big pads msgs) \<le> flushed D"
  shows "load_feed_file big limit path old fs' = Inr (True, msgs)"
  using save_image [OF assms(1,5)] load_image [OF assms(1) _ assms(3), of fs' path "flushed D" big] assms(2-4,6) by simp

definition demo_message :: feed_message where
  "demo_message = \<lparr>fm_type = AddOrder, fm_side = 1, fm_id = 7, fm_price = -5, fm_qty = 3, fm_ts = 0\<rparr>"

theorem feed_file_roundtrip_witness:
  "load_feed_file False 10 ''a'' [demo_message] (snd (save_feed_file False \<lparr>can_open = True, accepts = (\<lambda>_. 100), flushed = 100\<rparr>
    (\<lambda>_. replicate 6 9) ''a'' [demo_message] Map.empty)) = Inr (True, [demo_message])"
proof -
  let ?D = "\<lparr>can_open = True, accepts = (\<lambda>_. 100), flushed = 100\<rparr> :: disk"
  have "\<exists>fs'. save_feed_file False ?D (\<lambda>_. replicate 6 9) ''a'' [demo_message] Map.empty = (True, fs')"
    by (simp add: save_feed_file_def fwrite_def Let_def sizeof_header_def sizeof_message_def)
  then obtain fs' where s: "save_feed_file False ?D (\<lambda>_. replicate 6 9) ''a'' [demo_message] Map.empty = (True, fs')" ..
  have p: "pads_ok (\<lambda>_. replicate 6 9)" by (simp add: pads_ok_def)
  from feed_file_roundtrip [OF p _ _ _ s, of 10] length_file_image [OF p, of False "[demo_message]"] s show ?thesis
    by (simp add: demo_message_def message_ok_def fits_int64_def sizeof_header_def sizeof_message_def)
qed

text \<open>
  C27.  Truncation is detected: of a saved feed, no proper prefix is accepted, wherever the file
  was cut, and nothing of it is delivered.
\<close>

theorem truncated_file_rejected:
  assumes "pads_ok pads" "\<forall>m \<in> set msgs. message_ok m" "length msgs \<le> limit" "limit < 2 ^ 64"
    "k < length (file_image big pads msgs)" "fs path = Some (take k (file_image big pads msgs))"
  shows "load_feed_file big limit path old fs = Inr (False, [])"
  using load_image [OF assms(1) _ assms(3), of fs path k big] assms(2-6) by simp

theorem truncated_file_rejected_witness:
  "load_feed_file True 10 ''a'' [demo_message] [''a'' \<mapsto> take 55 (file_image True (\<lambda>_. replicate 6 9) [demo_message])] = Inr (False, [])"
proof -
  have p: "pads_ok (\<lambda>_. replicate 6 9)" by (simp add: pads_ok_def)
  show ?thesis
    using length_file_image [OF p, of True "[demo_message]"]
    by (intro truncated_file_rejected [OF p]) (simp_all add: demo_message_def message_ok_def fits_int64_def sizeof_header_def sizeof_message_def)
qed

lemma load_header_cases:
  assumes "load_feed_file big limit path old fs = Inr (ok, out)"
  obtains "\<not> ok" "out = []"
  | bs n where "ok" "fs path = Some bs" "feed_magic_valid (decode_header big (take sizeof_header bs))"
      "n = unat (hdr_count (decode_header big (take sizeof_header bs)))" "sizeof_header \<le> length bs" "n \<le> limit"
      "length out = n" "n * sizeof_message \<le> length bs - sizeof_header"
proof (cases "fs path")
  case None
  with assms that(1) show ?thesis by (auto simp: load_feed_file_def vector_clear_def)
next
  case (Some bs)
  show ?thesis
  proof (cases "length bs < sizeof_header")
    case True
    with load_short_header [of fs path, OF Some] assms that(1) show ?thesis by auto
  next
    case False
    then have "0 < length bs div sizeof_header" by (simp add: div_greater_zero_iff)
    then have "min (Suc 0) (length bs div sizeof_header) = Suc 0" by simp
    then have head: "fread sizeof_header (Suc 0) bs = ([take sizeof_header bs], drop sizeof_header bs)" by (simp add: fread_def)
    let ?n = "unat (hdr_count (decode_header big (take sizeof_header bs)))"
    have full: "?n * sizeof_message \<le> length bs - sizeof_header"
      if "length (fst (fread sizeof_message ?n (drop sizeof_header bs))) = ?n"
      using that fread_short [of "drop sizeof_header bs" ?n sizeof_message] by (metis length_drop linorder_not_less nat_neq_iff)
    show ?thesis
      using assms Some False head full
      by (cases "?n = 0") (auto simp: load_feed_file_def vector_clear_def Let_def case_prod_beta split: if_splits intro: that)
  qed
qed

text \<open>
  C28.  All or nothing: whatever the output vector held before the call, whenever \<open>load_feed_file\<close> returns false it is empty, and whenever
  it returns true the file begins with the magic, the vector has as many messages as the header
  says, and the file is long enough for them.
\<close>

theorem load_all_or_nothing:
  assumes "load_feed_file big limit path old fs = Inr (ok, out)"
  shows "(\<not> ok \<longrightarrow> out = []) \<and> (ok \<longrightarrow> (\<exists>bs. fs path = Some bs \<and> take 8 bs = kMagic \<and>
    length out = unat (hdr_count (decode_header big (take sizeof_header bs))) \<and>
    sizeof_header + length out * sizeof_message \<le> length bs))"
  using assms
proof (cases rule: load_header_cases)
  case (2 bs n)
  have "length (hdr_magic (decode_header big (take sizeof_header bs))) = 8"
    using 2(5) by (simp add: decode_header_def sizeof_header_def)
  with 2(3) have "hdr_magic (decode_header big (take sizeof_header bs)) = kMagic" by (simp add: feed_magic_valid_iff)
  then have "take 8 bs = kMagic" by (simp add: decode_header_def sizeof_header_def min_def)
  with 2 show ?thesis by auto
qed simp

theorem load_all_or_nothing_witness:
  "load_feed_file False 10 ''a'' [demo_message] [''a'' \<mapsto> [1, 2, 3]] = Inr (False, []) \<and>
    take 8 (file_image False (\<lambda>_. replicate 6 9) []) = kMagic"
proof -
  have "load_feed_file False 10 ''a'' [demo_message] [''a'' \<mapsto> file_image False (\<lambda>_. replicate 6 9) []] = Inr (True, [])"
    using load_image [of "\<lambda>_. replicate 6 9" "[]" 10 "[''a'' \<mapsto> file_image False (\<lambda>_. replicate 6 9) []]" "''a''" 99 False]
      length_file_image [of "\<lambda>_. replicate 6 9" False "[]"]
    by (simp add: pads_ok_def sizeof_header_def)
  from load_all_or_nothing [OF this] have "take 8 (file_image False (\<lambda>_. replicate 6 9) []) = kMagic" by simp
  moreover have "\<exists>out. load_feed_file False 10 ''a'' [demo_message] [''a'' \<mapsto> [1, 2, 3]] = Inr (False, out)"
    by (simp add: load_feed_file_def fread_def sizeof_header_def)
  then obtain out where out: "load_feed_file False 10 ''a'' [demo_message] [''a'' \<mapsto> [1, 2, 3]] = Inr (False, out)" ..
  ultimately show ?thesis using load_all_or_nothing [OF out] by simp
qed

text \<open>
  C33.  Two error paths that the return value does not show.  The result of \<^verbatim>\<open>fclose\<close> is not
  looked at: when the buffered bytes cannot be written out at the end, \<open>save_feed_file\<close> still
  reports success although the file cannot be loaded.  And a header whose count exceeds what
  can be allocated makes \<open>load_feed_file\<close> throw instead of returning false.
\<close>

theorem feed_file_silent_errors:
  "(\<exists>D fs. save_feed_file big D (\<lambda>_. replicate 6 0) path [] Map.empty = (True, fs) \<and>
      load_feed_file big limit path old fs = Inr (False, [])) \<and>
   load_feed_file big limit path old [path \<mapsto> encode_header big (new_header\<lparr>hdr_count := w\<rparr>)] =
     (if limit < unat w then Inl Length_error_or_bad_alloc else Inr (w = 0, []))"
proof
  let ?D = "\<lparr>can_open = True, accepts = (\<lambda>_. 4096), flushed = 0\<rparr> :: disk"
  have "save_feed_file big ?D (\<lambda>_. replicate 6 0) path [] Map.empty = (True, [path \<mapsto> []])"
    by (simp add: save_feed_file_def fwrite_def Let_def sizeof_header_def)
  moreover have "load_feed_file big limit path old [path \<mapsto> []] = Inr (False, [])" by (rule load_short_header [of _ _ "[]"]) simp_all
  ultimately show "\<exists>D fs. save_feed_file big D (\<lambda>_. replicate 6 0) path [] Map.empty = (True, fs) \<and>
      load_feed_file big limit path old fs = Inr (False, [])" by blast
  have "fst (fread sizeof_message n []) = []" for n by (simp add: fread_def)
  then show "load_feed_file big limit path old [path \<mapsto> encode_header big (new_header\<lparr>hdr_count := w\<rparr>)] =
     (if limit < unat w then Inl Length_error_or_bad_alloc else Inr (w = 0, []))"
    using load_after_header [of "[path \<mapsto> encode_header big (new_header\<lparr>hdr_count := w\<rparr>)]" path big w "[]" limit]
    by (auto simp: unat_eq_0)
qed

end
