(* ===== verification/Signals.thy ===== *)
theory Signals
  imports Book_Run Machine_Int
begin

text \<open>
  \<^verbatim>\<open>include/signals.hpp\<close>: fixed-point microprice and imbalance, the snapshot computed from the
  top of the book, and its text form.  \<^verbatim>\<open>compute_signals\<close> is a template over the book type and
  calls only \<^verbatim>\<open>top_levels\<close>, so that function is its parameter.
\<close>

section \<open>Definitions\<close>

definition kSignalScale :: int where
  "kSignalScale = 1000000"

definition kImbalanceDepths :: "nat list" where
  "kImbalanceDepths = [1, 3, 5]"

definition kMaxSignalDepth :: nat where
  "kMaxSignalDepth = kImbalanceDepths ! (length kImbalanceDepths - 1)"

definition microprice_scaled :: "price \<Rightarrow> quantity \<Rightarrow> price \<Rightarrow> quantity \<Rightarrow> int option" where
  "microprice_scaled bid bid_qty ask ask_qty = do {
     spread \<leftarrow> checked64 (ask - bid);
     weighted \<leftarrow> checked128 (spread * bid_qty);
     scaled \<leftarrow> checked128 (weighted * kSignalScale);
     total \<leftarrow> checked64 (bid_qty + ask_qty);
     offset \<leftarrow> div128 scaled total;
     base \<leftarrow> checked128 (bid * kSignalScale);
     result \<leftarrow> checked128 (base + offset);
     Some (to_int64 result) }"

definition imbalance_scaled :: "quantity \<Rightarrow> quantity \<Rightarrow> int option" where
  "imbalance_scaled bid_qty ask_qty = do {
     total \<leftarrow> checked64 (bid_qty + ask_qty);
     if total = 0 then Some 0
     else do {
       diff \<leftarrow> checked64 (bid_qty - ask_qty);
       scaled \<leftarrow> checked128 (diff * kSignalScale);
       ratio \<leftarrow> div128 scaled total;
       Some (to_int64 ratio) } }"

record book_signals =
  sig_best_bid :: price
  sig_best_ask :: price
  sig_bid_qty :: quantity
  sig_ask_qty :: quantity
  microprice :: int
  imbalance :: "int list"

definition new_signals :: book_signals where
  "new_signals = \<lparr>sig_best_bid = 0, sig_best_ask = 0, sig_bid_qty = 0, sig_ask_qty = 0, microprice = 0,
     imbalance = replicate (length kImbalanceDepths) 0\<rparr>"

definition has_bid :: "book_signals \<Rightarrow> bool" where
  "has_bid s \<longleftrightarrow> sig_bid_qty s > 0"

definition has_ask :: "book_signals \<Rightarrow> bool" where
  "has_ask s \<longleftrightarrow> sig_ask_qty s > 0"

definition two_sided :: "book_signals \<Rightarrow> bool" where
  "two_sided s \<longleftrightarrow> has_bid s \<and> has_ask s"

definition mid_scaled :: "book_signals \<Rightarrow> int option" where
  "mid_scaled s =
     (if two_sided s then do {
        base \<leftarrow> checked64 (sig_best_bid s * kSignalScale);
        spread \<leftarrow> checked64 (sig_best_ask s - sig_best_bid s);
        half \<leftarrow> checked64 (spread * trunc_div kSignalScale 2);
        checked64 (base + half) }
      else Some 0)"

text \<open>The body of the loop over the levels: the running sums, the next depth, the snapshot.\<close>

definition signal_step :: "level_qty list \<Rightarrow> level_qty list \<Rightarrow> nat \<Rightarrow>
    quantity \<times> quantity \<times> nat \<times> book_signals \<Rightarrow> (quantity \<times> quantity \<times> nat \<times> book_signals) option" where
  "signal_step bid_levels ask_levels level = (\<lambda>(cum_bid, cum_ask, d, out). do {
     cum_bid \<leftarrow> (if level < length bid_levels then checked64 (cum_bid + lq_qty (bid_levels ! level)) else Some cum_bid);
     cum_ask \<leftarrow> (if level < length ask_levels then checked64 (cum_ask + lq_qty (ask_levels ! level)) else Some cum_ask);
     depth_d \<leftarrow> vread kImbalanceDepths d;
     if level + 1 = depth_d
     then do {
       v \<leftarrow> imbalance_scaled cum_bid cum_ask;
       im \<leftarrow> vwrite (imbalance out) d v;
       Some (cum_bid, cum_ask, d + 1, out\<lparr>imbalance := im\<rparr>) }
     else Some (cum_bid, cum_ask, d, out) })"

definition compute_signals :: "(side \<Rightarrow> nat \<Rightarrow> level_qty list) \<Rightarrow> book_signals \<Rightarrow> book_signals option" where
  "compute_signals tops out = do {
     bid_levels \<leftarrow> Some (tops Buy kMaxSignalDepth);
     ask_levels \<leftarrow> Some (tops Sell kMaxSignalDepth);
     out \<leftarrow> Some (out\<lparr>sig_best_bid := (if bid_levels \<noteq> [] then lq_price (bid_levels ! 0) else 0)\<rparr>);
     out \<leftarrow> Some (out\<lparr>sig_bid_qty := (if bid_levels \<noteq> [] then lq_qty (bid_levels ! 0) else 0)\<rparr>);
     out \<leftarrow> Some (out\<lparr>sig_best_ask := (if ask_levels \<noteq> [] then lq_price (ask_levels ! 0) else 0)\<rparr>);
     out \<leftarrow> Some (out\<lparr>sig_ask_qty := (if ask_levels \<noteq> [] then lq_qty (ask_levels ! 0) else 0)\<rparr>);
     m \<leftarrow> (if bid_levels \<noteq> [] \<and> ask_levels \<noteq> []
          then microprice_scaled (sig_best_bid out) (sig_bid_qty out) (sig_best_ask out) (sig_ask_qty out) else Some 0);
     (cum_bid, cum_ask, d, out) \<leftarrow> foldM (signal_step bid_levels ask_levels) [0..<kMaxSignalDepth] (0, 0, 0, out\<lparr>microprice := m\<rparr>);
     Some out }"

text \<open>Printing: the magnitude is computed in \<^verbatim>\<open>std::uint64_t\<close>, so that it is right for the least value too.\<close>

definition print_scaled :: "int \<Rightarrow> string" where
  "print_scaled v =
     (let mag = (if v < 0 then 0 - word_of_int v else word_of_int v) :: u64 in
      (if v < 0 then ''-'' else []) @ digits (unat (mag div word_of_int kSignalScale)) @ ''.'' @
      pad_left (CHR ''0'') 6 (digits (unat (mag mod word_of_int kSignalScale))))"

definition print_signals :: "book_signals \<Rightarrow> string option" where
  "print_signals s = do {
     mid \<leftarrow> (if two_sided s then map_option print_scaled (mid_scaled s) else Some ''(n/a)'');
     micro \<leftarrow> Some (if two_sided s then print_scaled (microprice s) else ''(n/a)'');
     rows \<leftarrow> Some (concat (map (\<lambda>d. ''imbalance@'' @ digits (kImbalanceDepths ! d) @ '': '' @
       print_scaled (imbalance s ! d) @ [CHR 0x0A]) [0..<length kImbalanceDepths]));
     Some (''mid: '' @ mid @ [CHR 0x0A] @ ''microprice: '' @ micro @ [CHR 0x0A] @ rows) }"

section \<open>Microprice and imbalance\<close>

lemma kSignalScale_pos: "0 < kSignalScale"
  by (simp add: kSignalScale_def)

text \<open>The prices for which the scaled results fit.\<close>

definition scalable :: "price \<Rightarrow> bool" where
  "scalable p \<longleftrightarrow> fits_int64 (p * kSignalScale)"

text \<open>The weighted mid price that the code computes without a negative numerator.\<close>

definition weighted_mid :: "price \<Rightarrow> quantity \<Rightarrow> price \<Rightarrow> quantity \<Rightarrow> int" where
  "weighted_mid bid bid_qty ask ask_qty = (bid * ask_qty + ask * bid_qty) * kSignalScale div (bid_qty + ask_qty)"

lemma weighted_mid_offset:
  assumes "0 < bq + aq"
  shows "weighted_mid b bq a aq = b * kSignalScale + (a - b) * bq * kSignalScale div (bq + aq)"
proof -
  have "(b * aq + a * bq) * kSignalScale = (a - b) * bq * kSignalScale + b * kSignalScale * (bq + aq)"
    by (simp add: algebra_simps)
  with assms show ?thesis by (simp add: weighted_mid_def)
qed

lemma weighted_mid_between:
  assumes "b < a" "0 < bq" "0 < aq"
  shows "b * kSignalScale \<le> weighted_mid b bq a aq \<and> weighted_mid b bq a aq < a * kSignalScale"
proof -
  let ?off = "(a - b) * bq * kSignalScale div (bq + aq)"
  have "0 \<le> ?off" using assms kSignalScale_pos by (simp add: pos_imp_zdiv_nonneg_iff)
  moreover have "0 < (a - b) * kSignalScale * aq" using assms kSignalScale_pos by simp
  then have "(a - b) * bq * kSignalScale < (a - b) * kSignalScale * (bq + aq)" by (simp add: algebra_simps)
  then have "?off < (a - b) * kSignalScale" using assms by (intro int_div_less) simp_all
  ultimately show ?thesis using weighted_mid_offset [of bq aq b a] assms by (simp add: algebra_simps)
qed

lemma microprice_ok:
  assumes "b < a" "0 < bq" "0 < aq" "scalable b" "scalable a" "fits_int64 (bq + aq)"
  shows "microprice_scaled b bq a aq = Some (weighted_mid b bq a aq)"
proof -
  let ?s = "(a - b) * bq"
  note F = fits_int64_iff fits_int128_iff
  have small: "\<bar>b\<bar> * 1000000 \<le> 9223372036854775808" "\<bar>a\<bar> * 1000000 \<le> 9223372036854775808"
    using assms(4,5) by (auto simp: scalable_def F kSignalScale_def)
  then have sp: "0 < a - b" "a - b \<le> 18446744073710" using assms(1) by linarith+
  have bq: "0 < bq" "bq \<le> 9223372036854775807" using assms by (simp_all add: F)
  have "0 < ?s" using sp bq by simp
  have "?s \<le> 18446744073710 * 9223372036854775807" using sp bq by (intro mult_mono) auto
  then have s1: "fits_int128 ?s" using \<open>0 < ?s\<close> by (simp add: F)
  have spread: "(a - b) * kSignalScale \<le> 18446744073709551615" using assms(4,5) by (simp add: kSignalScale_def scalable_def F)
  have "(a - b) * kSignalScale * bq \<le> 18446744073709551615 * 9223372036854775807"
    using spread bq by (intro mult_mono) auto
  moreover have "(a - b) * kSignalScale * bq = ?s * kSignalScale" by simp
  moreover have "0 < ?s * kSignalScale" using \<open>0 < ?s\<close> kSignalScale_pos by simp
  ultimately have s2: "fits_int128 (?s * kSignalScale)" unfolding F by linarith
  have bt: "b * kSignalScale \<le> weighted_mid b bq a aq" "weighted_mid b bq a aq < a * kSignalScale"
    using weighted_mid_between [OF assms(1-3)] by blast+
  have off: "trunc_div (?s * kSignalScale) (bq + aq) = weighted_mid b bq a aq - b * kSignalScale"
    using weighted_mid_offset [of bq aq b a] assms(2,3) \<open>0 < ?s * kSignalScale\<close> by (simp add: trunc_div_nonneg)
  have fit: "fits_int64 (weighted_mid b bq a aq)"
    using bt fits_int64_between [OF assms(4,5) [unfolded scalable_def]] by simp
  have s3: "fits_int128 (weighted_mid b bq a aq - b * kSignalScale)"
    using fit assms(4) by (simp add: F scalable_def)
  have s4: "fits_int64 (a - b)" using sp by (simp add: F)
  have s5: "fits_int128 (b * kSignalScale)" using assms(4) by (simp add: scalable_def fits_int64_int128)
  from s1 s2 s3 s4 s5 fit fits_int64_int128 [OF fit] assms(2,3,6) off show ?thesis
    by (simp add: microprice_scaled_def div128_def run_simps)
qed

definition ratio_scaled :: "quantity \<Rightarrow> quantity \<Rightarrow> int" where
  "ratio_scaled bid_qty ask_qty = trunc_div ((bid_qty - ask_qty) * kSignalScale) (bid_qty + ask_qty)"

lemma ratio_range: "0 \<le> bq \<Longrightarrow> 0 \<le> aq \<Longrightarrow> \<bar>ratio_scaled bq aq\<bar> \<le> kSignalScale"
proof (cases "bq + aq = 0")
  case False
  moreover assume "0 \<le> bq" "0 \<le> aq"
  moreover from this have "\<bar>bq - aq\<bar> * kSignalScale \<le> (bq + aq) * kSignalScale"
    using kSignalScale_pos by (intro mult_right_mono) auto
  ultimately show ?thesis unfolding ratio_scaled_def using kSignalScale_pos
    by (intro trunc_div_bound) (auto simp: abs_mult mult.commute)
qed (simp add: ratio_scaled_def trunc_div_def kSignalScale_def)

lemma ratio_antisym: "ratio_scaled aq bq = - ratio_scaled bq aq"
proof -
  have "(aq - bq) * kSignalScale = - ((bq - aq) * kSignalScale)" by (simp add: algebra_simps)
  then show ?thesis by (simp add: ratio_scaled_def trunc_div_minus add.commute)
qed

lemma ratio_below:
  assumes "0 < bq" "0 < aq"
  shows "ratio_scaled bq aq < kSignalScale"
proof (cases "aq \<le> bq")
  case True
  have "(bq - aq) * kSignalScale < kSignalScale * (bq + aq)"
    using assms(2) kSignalScale_pos by (simp add: algebra_simps)
  then show ?thesis using True assms kSignalScale_pos by (simp add: ratio_scaled_def trunc_div_nonneg int_div_less)
next
  case False
  then have "ratio_scaled bq aq \<le> 0" using assms kSignalScale_pos ratio_antisym [of bq aq]
    by (simp add: ratio_scaled_def trunc_div_nonneg pos_imp_zdiv_nonneg_iff)
  then show ?thesis using kSignalScale_pos by simp
qed

lemma ratio_extreme:
  assumes "0 \<le> bq" "0 \<le> aq"
  shows "ratio_scaled bq aq = kSignalScale \<longleftrightarrow> aq = 0 \<and> 0 < bq"
proof -
  consider "bq = 0" | "0 < bq" "aq = 0" | "0 < bq" "0 < aq" using assms by linarith
  then show ?thesis
  proof cases
    case 1
    then show ?thesis using assms kSignalScale_pos by (auto simp: ratio_scaled_def trunc_div_def sgn_mult)
  next
    case 2
    then show ?thesis using kSignalScale_pos by (simp add: ratio_scaled_def trunc_div_nonneg)
  next
    case 3
    with ratio_below [of bq aq] show ?thesis by simp
  qed
qed

lemma imbalance_ok:
  assumes "0 \<le> bq" "0 \<le> aq" "fits_int64 (bq + aq)"
  shows "imbalance_scaled bq aq = Some (ratio_scaled bq aq)"
proof -
  note F = fits_int64_iff fits_int128_iff
  have "\<bar>ratio_scaled bq aq\<bar> \<le> kSignalScale" using assms by (simp add: ratio_range)
  then have "fits_int64 (ratio_scaled bq aq)" by (auto simp: F kSignalScale_def)
  moreover have "fits_int64 (bq - aq)" "fits_int128 ((bq - aq) * kSignalScale)"
    using assms by (auto simp: F kSignalScale_def)
  ultimately show ?thesis using assms
    by (auto simp: imbalance_scaled_def checked64_def checked128_def div128_def fits_int64_int128
      simp flip: ratio_scaled_def) (simp add: ratio_scaled_def trunc_div_def)
qed

section \<open>The snapshot\<close>

definition cum_qty :: "level_qty list \<Rightarrow> nat \<Rightarrow> quantity" where
  "cum_qty ls k = sum_list (map lq_qty (take k ls))"

text \<open>The snapshot of a book whose sides have the given aggregated levels, best first.\<close>

definition signals_of :: "level_qty list \<Rightarrow> level_qty list \<Rightarrow> book_signals" where
  "signals_of bs as =
     \<lparr>sig_best_bid = (case bs of [] \<Rightarrow> 0 | l # _ \<Rightarrow> lq_price l), sig_best_ask = (case as of [] \<Rightarrow> 0 | l # _ \<Rightarrow> lq_price l),
      sig_bid_qty = cum_qty bs 1, sig_ask_qty = cum_qty as 1,
      microprice = (case (bs, as) of (l # _, m # _) \<Rightarrow> weighted_mid (lq_price l) (lq_qty l) (lq_price m) (lq_qty m) | _ \<Rightarrow> 0),
      imbalance = map (\<lambda>k. ratio_scaled (cum_qty bs k) (cum_qty as k)) kImbalanceDepths\<rparr>"

text \<open>Levels whose sums and scaled prices stay inside 64 bits.\<close>

definition levels_fit :: "level_qty list \<Rightarrow> level_qty list \<Rightarrow> bool" where
  "levels_fit bs as \<longleftrightarrow> (\<forall>l \<in> set bs \<union> set as. 0 < lq_qty l \<and> scalable (lq_price l)) \<and>
     fits_int64 (sum_list (map lq_qty bs) + sum_list (map lq_qty as))"

lemma cum_qty_simps [simp]: "cum_qty ls 0 = 0" "cum_qty [] k = 0" "cum_qty (l # ls) (Suc k) = lq_qty l + cum_qty ls k"
  by (simp_all add: cum_qty_def)

lemma cum_qty_Suc: "cum_qty ls (Suc k) = (if k < length ls then cum_qty ls k + lq_qty (ls ! k) else cum_qty ls k)"
  by (simp add: cum_qty_def take_Suc_conv_app_nth)

lemma cum_qty_take: "k \<le> n \<Longrightarrow> cum_qty (take n ls) k = cum_qty ls k"
  by (simp add: cum_qty_def min_def)

lemma cum_qty_range:
  assumes "\<forall>l \<in> set ls. 0 < lq_qty l"
  shows "0 \<le> cum_qty ls k \<and> cum_qty ls k \<le> sum_list (map lq_qty ls)"
proof -
  have nonneg: "0 \<le> sum_list (map lq_qty xs)" if "set xs \<subseteq> set ls" for xs
    using assms that by (intro sum_list_nonneg) (auto dest: less_imp_le)
  have "sum_list (map lq_qty ls) = cum_qty ls k + sum_list (map lq_qty (drop k ls))"
    unfolding cum_qty_def by (metis append_take_drop_id map_append sum_list_append)
  with nonneg [of "drop k ls"] nonneg [of "take k ls"] show ?thesis
    by (auto simp: cum_qty_def set_drop_subset set_take_subset)
qed

lemma cum_qty_fit:
  assumes "levels_fit bs as"
  shows "0 \<le> cum_qty bs j" "0 \<le> cum_qty as k" "fits_int64 (cum_qty bs j + cum_qty as k)"
    "fits_int64 (cum_qty bs j)" "fits_int64 (cum_qty as k)"
proof -
  have "\<forall>l \<in> set bs. 0 < lq_qty l" "\<forall>l \<in> set as. 0 < lq_qty l"
    "sum_list (map lq_qty bs) + sum_list (map lq_qty as) < 9223372036854775808"
    using assms by (auto simp: levels_fit_def fits_int64_iff)
  with cum_qty_range [of bs j] cum_qty_range [of as k]
  show "0 \<le> cum_qty bs j" "0 \<le> cum_qty as k" "fits_int64 (cum_qty bs j + cum_qty as k)"
    "fits_int64 (cum_qty bs j)" "fits_int64 (cum_qty as k)"
    unfolding fits_int64_iff by linarith+
qed

lemma levels_fit_take: "levels_fit bs as \<Longrightarrow> levels_fit (take n bs) (take n as)"
  using cum_qty_fit(3) [of bs as n n] by (auto simp: levels_fit_def cum_qty_def dest: in_set_takeD)

lemma signal_step_ok:
  assumes "levels_fit bs as" "d < 3"
  shows "signal_step bs as k (cum_qty bs k, cum_qty as k, d, out) =
    (if Suc k = kImbalanceDepths ! d
     then do { im \<leftarrow> vwrite (imbalance out) d (ratio_scaled (cum_qty bs (Suc k)) (cum_qty as (Suc k)));
       Some (cum_qty bs (Suc k), cum_qty as (Suc k), Suc d, out\<lparr>imbalance := im\<rparr>) }
     else Some (cum_qty bs (Suc k), cum_qty as (Suc k), d, out))"
proof -
  note c = cum_qty_fit [OF assms(1)]
  have "imbalance_scaled (cum_qty bs (Suc k)) (cum_qty as (Suc k)) = Some (ratio_scaled (cum_qty bs (Suc k)) (cum_qty as (Suc k)))"
    by (rule imbalance_ok [OF c(1-3)])
  moreover have "(if k < length bs then checked64 (cum_qty bs k + lq_qty (bs ! k)) else Some (cum_qty bs k)) = Some (cum_qty bs (Suc k))"
    using c(4) [of "Suc k"] by (simp add: cum_qty_Suc checked64_def split: if_splits)
  moreover have "(if k < length as then checked64 (cum_qty as k + lq_qty (as ! k)) else Some (cum_qty as k)) = Some (cum_qty as (Suc k))"
    using c(5) [of "Suc k"] by (simp add: cum_qty_Suc checked64_def split: if_splits)
  moreover have "vread kImbalanceDepths d = Some (kImbalanceDepths ! d)"
    using assms(2) by (simp add: vread_def kImbalanceDepths_def)
  ultimately show ?thesis by (cases "Suc k = kImbalanceDepths ! d") (simp_all add: signal_step_def)
qed

lemma signal_loop_ok:
  assumes fit: "levels_fit bs as" and out: "length (imbalance out) = 3"
  shows "foldM (signal_step bs as) [0..<kMaxSignalDepth] (0, 0, 0, out) =
    Some (cum_qty bs 5, cum_qty as 5, 3, out\<lparr>imbalance := map (\<lambda>k. ratio_scaled (cum_qty bs k) (cum_qty as k)) kImbalanceDepths\<rparr>)"
proof -
  note st = signal_step_ok [OF fit]
  from out obtain x y z where im: "imbalance out = [x, y, z]" by (auto simp: numeral_3_eq_3 length_Suc_conv)
  have "[0..<kMaxSignalDepth] = [0, Suc 0, Suc (Suc 0), Suc (Suc (Suc 0)), Suc (Suc (Suc (Suc 0)))]"
    by (simp add: kMaxSignalDepth_def kImbalanceDepths_def upt_rec)
  then have "foldM (signal_step bs as) [0..<kMaxSignalDepth] (cum_qty bs 0, cum_qty as 0, 0, out) =
      Some (cum_qty bs 5, cum_qty as 5, 3, out\<lparr>imbalance := map (\<lambda>k. ratio_scaled (cum_qty bs k) (cum_qty as k)) kImbalanceDepths\<rparr>)"
    by (simp add: st kImbalanceDepths_def vwrite_def im numeral_3_eq_3 eval_nat_numeral del: cum_qty_simps)
  then show ?thesis by simp
qed

lemma signals_of_take: "signals_of (take 5 bs) (take 5 as) = signals_of bs as"
  by (simp add: signals_of_def cum_qty_take kImbalanceDepths_def split: list.split)

lemma compute_signals_take:
  assumes fit: "levels_fit bs as" and tops: "tops Buy 5 = bs" "tops Sell 5 = as" and out: "length (imbalance out) = 3"
    and apart: "\<And>l m ls ms. bs = l # ls \<Longrightarrow> as = m # ms \<Longrightarrow> lq_price l < lq_price m"
  shows "compute_signals tops out = Some (signals_of bs as)"
proof -
  have depth: "kMaxSignalDepth = 5" by (simp add: kMaxSignalDepth_def kImbalanceDepths_def)
  have "(if bs \<noteq> [] \<and> as \<noteq> [] then microprice_scaled (lq_price (bs ! 0)) (lq_qty (bs ! 0)) (lq_price (as ! 0)) (lq_qty (as ! 0))
      else Some 0) = Some (microprice (signals_of bs as))"
  proof (cases "bs \<noteq> [] \<and> as \<noteq> []")
    case True
    then obtain l ls m ms where c: "bs = l # ls" "as = m # ms" by (metis neq_Nil_conv)
    then have "fits_int64 (lq_qty l + lq_qty m)" using cum_qty_fit(3) [OF fit, of 1 1] by simp
    with fit c apart [OF c] show ?thesis by (simp add: signals_of_def levels_fit_def microprice_ok)
  next
    case False
    then show ?thesis by (auto simp: signals_of_def split: list.splits)
  qed
  then show ?thesis using tops signal_loop_ok [OF fit] out
    by (cases bs; cases as) (simp_all add: compute_signals_def depth signals_of_def)
qed

lemma compute_signals_ok:
  assumes "levels_fit bs as" "tops Buy 5 = take 5 bs" "tops Sell 5 = take 5 as" "length (imbalance out) = 3"
    and "\<And>l m ls ms. bs = l # ls \<Longrightarrow> as = m # ms \<Longrightarrow> lq_price l < lq_price m"
  shows "compute_signals tops out = Some (signals_of bs as)"
proof -
  have "compute_signals tops out = Some (signals_of (take 5 bs) (take 5 as))"
  proof (rule compute_signals_take [OF levels_fit_take [OF assms(1)]])
    show "lq_price l < lq_price m" if "take 5 bs = l # ls" "take 5 as = m # ms" for l m ls ms
      using that by (cases bs; cases as) (simp_all add: assms(5))
  qed (rule assms(2-4))+
  then show ?thesis by (simp add: signals_of_take)
qed

section \<open>The snapshot of a book\<close>

definition signal_range :: "spec_book \<Rightarrow> bool" where
  "signal_range B \<longleftrightarrow> (\<forall>p \<in> fst ` set (s_bids B) \<union> fst ` set (s_asks B). scalable p) \<and> fits_int64 (book_qty B)"

lemma depth_qty: "sum_list (map lq_qty (depth ls)) = side_qty ls"
  by (induction ls) (auto simp: depth_def)

lemma queue_ok_qty: "queue_ok xs \<Longrightarrow> 0 < queue_qty xs"
proof -
  assume "queue_ok xs"
  then obtain x ys where "xs = x # ys" "0 < snd x" "\<forall>y \<in> set ys. 0 < snd y" by (cases xs) (fastforce simp: queue_ok_def)+
  moreover from this have "0 \<le> sum_list (map snd ys)" by (intro sum_list_nonneg) (auto dest: less_imp_le)
  ultimately show ?thesis by (simp add: queue_qty_def)
qed

lemma spec_levels_fit:
  assumes "spec_inv B" "signal_range B"
  shows "levels_fit (depth (s_bids B)) (depth (s_asks B))"
proof -
  have lv: "0 < lq_qty l \<and> lq_price l \<in> fst ` set (side_of s B)" if l: "l \<in> set (depth (side_of s B))" for s l
  proof -
    from l obtain p xs where x: "(p, xs) \<in> set (side_of s B)" "l = \<lparr>lq_price = p, lq_qty = queue_qty xs\<rparr>"
      by (auto simp: depth_def)
    with assms(1) have "queue_ok xs" by (auto simp: spec_inv_def side_ok_def)
    with x queue_ok_qty [of xs] show ?thesis by (auto intro: image_eqI [of _ _ "(p, xs)"])
  qed
  have "0 < lq_qty l \<and> scalable (lq_price l)" if "l \<in> set (depth (s_bids B)) \<union> set (depth (s_asks B))" for l
    using that lv [of l Buy] lv [of l Sell] assms(2) unfolding signal_range_def side_of.simps by blast
  with assms(2) show ?thesis by (simp add: levels_fit_def signal_range_def depth_qty book_qty_def)
qed

lemma spec_signals_ok:
  assumes "spec_inv B" "signal_range B" "length (imbalance out) = 3" and tops: "\<And>s. tops s 5 = take 5 (depth (side_of s B))"
  shows "compute_signals tops out = Some (signals_of (depth (s_bids B)) (depth (s_asks B)))"
proof (rule compute_signals_ok)
  from assms show "levels_fit (depth (s_bids B)) (depth (s_asks B))" by (simp add: spec_levels_fit)
  show "tops Buy 5 = take 5 (depth (s_bids B))" "tops Sell 5 = take 5 (depth (s_asks B))" using tops [of Buy] tops [of Sell] by simp_all
  show "lq_price l < lq_price m" if "depth (s_bids B) = l # ls" "depth (s_asks B) = m # ms" for l m ls ms
    using that assms(1) by (auto simp: depth_def spec_inv_def uncrossed_def)
qed (rule assms(3))

lemma book_signals_ok:
  assumes "consistent b B" "signal_range B" "length (imbalance out) = 3"
  shows "compute_signals (\<lambda>s n. top_levels s n b) out = Some (signals_of (depth (s_bids B)) (depth (s_asks B)))"
  using assms by (intro spec_signals_ok) (simp_all add: consistent_def top_levels_ok)

lemma depth_cases: "depth ls = [] \<longleftrightarrow> ls = []"
  by (simp add: depth_def)

lemma signals_two_sided:
  assumes "levels_fit bs as"
  shows "two_sided (signals_of bs as) \<longleftrightarrow> bs \<noteq> [] \<and> as \<noteq> []"
  using assms by (cases bs; cases as) (auto simp: two_sided_def has_bid_def has_ask_def signals_of_def levels_fit_def)

lemma mid_ok:
  assumes "two_sided s" "sig_best_bid s < sig_best_ask s" "scalable (sig_best_bid s)" "scalable (sig_best_ask s)"
  shows "\<exists>m. mid_scaled s = Some m \<and> 2 * m = (sig_best_bid s + sig_best_ask s) * kSignalScale \<and>
    sig_best_bid s * kSignalScale < m \<and> m < sig_best_ask s * kSignalScale"
proof -
  let ?b = "sig_best_bid s" and ?a = "sig_best_ask s"
  have half: "trunc_div kSignalScale 2 = 500000" by (simp add: trunc_div_def kSignalScale_def)
  have "fits_int64 (?a - ?b)" "fits_int64 ((?a - ?b) * 500000)" "fits_int64 (?b * kSignalScale)"
    "fits_int64 (?b * kSignalScale + (?a - ?b) * 500000)"
    using assms by (simp_all add: scalable_def fits_int64_iff kSignalScale_def)
  then show ?thesis using assms(1,2) by (simp add: mid_scaled_def run_simps half) (simp add: kSignalScale_def)
qed

section \<open>Text output\<close>

text \<open>The number that a decimal text denotes: \<open>(n, k)\<close> stands for the fraction with numerator \<open>n\<close> and denominator $10^k$.\<close>

definition decimal_of :: "string \<Rightarrow> int \<times> nat" where
  "decimal_of s =
     (let neg = (s \<noteq> [] \<and> hd s = CHR ''-''); body = (if neg then tl s else s);
          whole = takeWhile (\<lambda>c. c \<noteq> CHR ''.'') body; frac = drop (length whole + 1) body;
          v = int (numeral_value (whole @ frac))
      in (if neg then - v else v, length frac))"

lemma magnitude:
  assumes "fits_int64 v"
  shows "unat ((if v < 0 then 0 - word_of_int v else word_of_int v) :: u64) = nat \<bar>v\<bar>"
proof -
  have "(if v < 0 then 0 - word_of_int v else word_of_int v) = (word_of_int \<bar>v\<bar> :: u64)" by simp
  moreover have "\<bar>v\<bar> < 2 ^ 64" using assms by (auto simp: fits_int64_iff)
  then have "take_bit 64 \<bar>v\<bar> = \<bar>v\<bar>" by (intro take_bit_int_eq_self) simp_all
  ultimately show ?thesis by (simp only: unsigned_of_int) simp
qed

lemma decimal_split:
  "decimal_of ((if neg then ''-'' else []) @ digits w @ ''.'' @ fs) =
    ((if neg then -1 else 1) * (int w * 10 ^ length fs + int (numeral_value fs)), length fs)"
proof -
  let ?body = "digits w @ ''.'' @ fs"
  have "takeWhile (\<lambda>c. c \<noteq> CHR ''.'') ?body = digits w"
    using digits_no_sign(1) [of w] by (subst takeWhile_append2) auto
  moreover have "hd ?body \<noteq> CHR ''-''" using digits_no_sign(2,3) [of w] by (cases "digits w") auto
  ultimately show ?thesis by (cases neg) (simp_all add: decimal_of_def Let_def numeral_value_append)
qed

lemma print_scaled_value:
  assumes "fits_int64 v"
  shows "decimal_of (print_scaled v) = (v, 6)"
proof -
  let ?mag = "(if v < 0 then 0 - word_of_int v else word_of_int v) :: u64"
  let ?frac = "pad_left (CHR ''0'') 6 (digits (nat \<bar>v\<bar> mod 1000000))"
  have scale: "unat (word_of_int kSignalScale :: u64) = 1000000" by (simp add: kSignalScale_def)
  have "unat (?mag div word_of_int kSignalScale) = nat \<bar>v\<bar> div 1000000" "unat (?mag mod word_of_int kSignalScale) = nat \<bar>v\<bar> mod 1000000"
    by (simp_all only: unat_div unat_mod scale magnitude [OF assms])
  then have shown: "print_scaled v = (if v < 0 then ''-'' else []) @ digits (nat \<bar>v\<bar> div 1000000) @ ''.'' @ ?frac"
    unfolding print_scaled_def Let_def by (simp only:)
  have len: "length ?frac = 6" using digits_length [of "nat \<bar>v\<bar> mod 1000000" 6] by (simp add: pad_left_def)
  have "decimal_of (print_scaled v) = ((if v < 0 then -1 else 1) * (int (nat \<bar>v\<bar> div 1000000) * 10 ^ 6 + int (nat \<bar>v\<bar> mod 1000000)), 6)"
    unfolding shown decimal_split len by (simp only: numeral_value_pad numeral_value_digits)
  also have "int (nat \<bar>v\<bar> div 1000000) * 10 ^ 6 + int (nat \<bar>v\<bar> mod 1000000) = \<bar>v\<bar>"
    by (simp add: zdiv_int zmod_int)
  finally show ?thesis by simp
qed

section \<open>Properties\<close>

text \<open>
  C24.  The microprice is the size-weighted mid price rounded down, and lies between the best
  bid and the best ask; no intermediate result leaves 128 bits as long as the scaled prices and
  the sum of the two quantities fit in 64 bits.
\<close>

theorem microprice_spec:
  assumes "bid < ask" "0 < bid_qty" "0 < ask_qty" "scalable bid" "scalable ask" "fits_int64 (bid_qty + ask_qty)"
  shows "\<exists>m. microprice_scaled bid bid_qty ask ask_qty = Some m \<and>
    m = (bid * ask_qty + ask * bid_qty) * kSignalScale div (bid_qty + ask_qty) \<and>
    bid * kSignalScale \<le> m \<and> m < ask * kSignalScale"
  using microprice_ok [OF assms] weighted_mid_between [OF assms(1-3)] by (simp add: weighted_mid_def)

theorem microprice_spec_witness:
  "\<exists>m. microprice_scaled (-3) 2 4 5 = Some m \<and> -3000000 \<le> m \<and> m < 4000000"
  using microprice_spec [of "-3" 4 2 5] by (auto simp: scalable_def fits_int64_iff kSignalScale_def)

text \<open>
  C25.  The imbalance of two non-negative quantities lies in the unit interval scaled by
  \<open>kSignalScale\<close>, is exactly antisymmetric, and is extreme exactly when one side is empty.
\<close>

theorem imbalance_spec:
  assumes "0 \<le> bid_qty" "0 \<le> ask_qty" "fits_int64 (bid_qty + ask_qty)"
  shows "\<exists>v. imbalance_scaled bid_qty ask_qty = Some v \<and> imbalance_scaled ask_qty bid_qty = Some (- v) \<and>
    \<bar>v\<bar> \<le> kSignalScale \<and> (bid_qty = 0 \<and> ask_qty = 0 \<longrightarrow> v = 0) \<and> (v = kSignalScale \<longleftrightarrow> ask_qty = 0 \<and> 0 < bid_qty)"
proof -
  let ?v = "ratio_scaled bid_qty ask_qty"
  have "imbalance_scaled ask_qty bid_qty = Some (ratio_scaled ask_qty bid_qty)"
    using assms by (intro imbalance_ok) (simp_all add: add.commute)
  moreover have "?v = kSignalScale \<longleftrightarrow> ask_qty = 0 \<and> 0 < bid_qty" by (rule ratio_extreme [OF assms(1,2)])
  ultimately show ?thesis
    using imbalance_ok [OF assms] ratio_range [OF assms(1,2)] ratio_antisym [of ask_qty bid_qty]
    by (auto simp: ratio_scaled_def trunc_div_def)
qed

theorem imbalance_spec_witness:
  "\<exists>v. imbalance_scaled 3 1 = Some v \<and> imbalance_scaled 1 3 = Some (- v) \<and> \<bar>v\<bar> \<le> 1000000"
  using imbalance_spec [of 3 1] by (auto simp: fits_int64_iff kSignalScale_def)

text \<open>
  C23.  The snapshot of a book: on a book that represents \<open>B\<close>, with prices that can be scaled and
  a total quantity that fits in 64 bits, \<open>compute_signals\<close> runs without undefined behaviour and
  overwrites every field: best prices and their quantities, the weighted mid price, and for each
  reporting depth the imbalance of the quantities summed over that many levels.
\<close>

theorem compute_signals_spec:
  assumes "consistent b B" "signal_range B" "length (imbalance out) = 3"
  shows "compute_signals (\<lambda>s n. top_levels s n b) out = Some (signals_of (depth (s_bids B)) (depth (s_asks B))) \<and>
    (two_sided (signals_of (depth (s_bids B)) (depth (s_asks B))) \<longleftrightarrow> s_bids B \<noteq> [] \<and> s_asks B \<noteq> [])"
  using book_signals_ok [OF assms] signals_two_sided [OF spec_levels_fit] assms(1,2)
  by (simp add: consistent_def depth_cases)

theorem compute_signals_spec_witness:
  "\<exists>b. reachable b \<and> compute_signals (\<lambda>s n. top_levels s n b) new_signals =
    Some \<lparr>sig_best_bid = 3, sig_best_ask = 4, sig_bid_qty = 5, sig_ask_qty = 6, microprice = 3454545,
      imbalance = [-90909, -90909, -90909]\<rparr>"
proof -
  let ?B = "\<lparr>s_bids = [(3, [(1, 5)])], s_asks = [(4, [(2, 6)])]\<rparr>"
  from two_sided_book obtain b where b: "reachable b" "refines b ?B" by blast
  have "spec_inv ?B"
    unfolding spec_inv_def side_all [of _ Buy] by (simp add: side_ok_def queue_ok_def book_ids_def side_orders_def uncrossed_def)
  moreover have "signal_range ?B" by (simp add: signal_range_def scalable_def fits_int64_iff kSignalScale_def book_qty_def)
  ultimately have "compute_signals (\<lambda>s n. top_levels s n b) new_signals = Some (signals_of (depth (s_bids ?B)) (depth (s_asks ?B)))"
    using compute_signals_spec [of b ?B new_signals] b(2) by (simp add: consistent_def new_signals_def kImbalanceDepths_def)
  with b(1) show ?thesis
    by (auto simp: signals_of_def depth_def cum_qty_def kImbalanceDepths_def ratio_scaled_def weighted_mid_def trunc_div_def kSignalScale_def)
qed

text \<open>
  The mid price is exact, and strictly between the two best prices.
\<close>

theorem mid_scaled_exact:
  assumes "two_sided s" "sig_best_bid s < sig_best_ask s" "scalable (sig_best_bid s)" "scalable (sig_best_ask s)"
  shows "\<exists>m. mid_scaled s = Some m \<and> 2 * m = (sig_best_bid s + sig_best_ask s) * kSignalScale \<and>
    sig_best_bid s * kSignalScale < m \<and> m < sig_best_ask s * kSignalScale"
  using assms by (rule mid_ok)

theorem mid_scaled_exact_witness:
  "\<exists>m. mid_scaled (new_signals\<lparr>sig_best_bid := 3, sig_best_ask := 4, sig_bid_qty := 1, sig_ask_qty := 1\<rparr>) = Some m \<and> 2 * m = 7000000"
  using mid_scaled_exact [of "new_signals\<lparr>sig_best_bid := 3, sig_best_ask := 4, sig_bid_qty := 1, sig_ask_qty := 1\<rparr>"]
  by (simp add: two_sided_def has_bid_def has_ask_def scalable_def fits_int64_iff kSignalScale_def)

text \<open>
  C32.  Printing loses nothing: the text of every 64-bit value \<open>v\<close>, the least one included, is a decimal number with exactly
  six digits after the point that denotes $v / 10^6$.
\<close>

theorem print_scaled_roundtrip:
  assumes "fits_int64 v"
  shows "decimal_of (print_scaled v) = (v, 6)"
  using assms by (rule print_scaled_value)

theorem print_scaled_roundtrip_witness:
  "decimal_of (print_scaled (- (2 ^ 63))) = (- (2 ^ 63), 6) \<and> decimal_of (print_scaled 1000005) = (1000005, 6) \<and> decimal_of ''1.5'' = (15, 1)"
proof -
  have "decimal_of ''1.5'' = (15, 1)" by (simp add: decimal_of_def numeral_value_def)
  with print_scaled_roundtrip [of "- (2 ^ 63)"] print_scaled_roundtrip [of 1000005] show ?thesis by (simp add: fits_int64_def)
qed

text \<open>
  C34.  The quantities do have to fit together: whenever the totals of the best bid and of the best ask of a book sum to more than 64 bits,
  although each of them fits, both signals overflow, whatever the prices are, and computing the signals of that book is undefined.
\<close>

theorem signals_overflow:
  assumes "refines b B" "s_bids B = (p, xs) # ls" "s_asks B = (q, ys) # ms" "\<not> fits_int64 (queue_qty xs + queue_qty ys)"
  shows "(\<forall>bid ask. microprice_scaled bid (queue_qty xs) ask (queue_qty ys) = None) \<and>
    imbalance_scaled (queue_qty xs) (queue_qty ys) = None \<and> compute_signals (\<lambda>s n. top_levels s n b) out = None"
proof -
  have m: "microprice_scaled bid (queue_qty xs) ask (queue_qty ys) = None" for bid ask
    using assms(4) by (simp add: microprice_scaled_def checked64_def split: bind_split)
  have "\<exists>bs. top_levels Buy kMaxSignalDepth b = \<lparr>lq_price = p, lq_qty = queue_qty xs\<rparr> # bs"
    "\<exists>as. top_levels Sell kMaxSignalDepth b = \<lparr>lq_price = q, lq_qty = queue_qty ys\<rparr> # as"
    using top_levels_ok [OF assms(1)] assms(2,3) by (simp_all add: depth_def kMaxSignalDepth_def kImbalanceDepths_def)
  then obtain bs as where "top_levels Buy kMaxSignalDepth b = \<lparr>lq_price = p, lq_qty = queue_qty xs\<rparr> # bs"
    "top_levels Sell kMaxSignalDepth b = \<lparr>lq_price = q, lq_qty = queue_qty ys\<rparr> # as" by blast
  then have "compute_signals (\<lambda>s n. top_levels s n b) out = None" by (simp add: compute_signals_def m)
  with m assms(4) show ?thesis by (simp add: imbalance_scaled_def checked64_def)
qed

theorem signals_overflow_witness:
  "\<exists>b. reachable b \<and> total_at (amap (ladder_of Buy b)) 3 = 2 ^ 62 \<and> total_at (amap (ladder_of Sell b)) 4 = 2 ^ 62 \<and>
    compute_signals (\<lambda>s n. top_levels s n b) new_signals = None"
proof -
  let ?B = "\<lparr>s_bids = [(3, [(1, 2 ^ 62)])], s_asks = [(4, [(2, 2 ^ 62)])]\<rparr> :: spec_book"
  from two_sided_qty [of "2 ^ 62" "2 ^ 62"] obtain b where b: "reachable b" "refines b ?B" by auto
  have "compute_signals (\<lambda>s n. top_levels s n b) new_signals = None"
    using signals_overflow [OF b(2), of 3 "[(1, 2 ^ 62)]" "[]" 4 "[(2, 2 ^ 62)]" "[]" new_signals] by (simp add: fits_int64_def)
  moreover have "total_at (amap (ladder_of Buy b)) 3 = 2 ^ 62" "total_at (amap (ladder_of Sell b)) 4 = 2 ^ 62"
    using total_at_refines [OF b(2), of Buy 3] total_at_refines [OF b(2), of Sell 4] by (simp_all add: level_qty_of_def)
  ultimately show ?thesis using b(1) by blast
qed

end
