(* ===== verification/Feed_Range.thy ===== *)
theory Feed_Range
  imports Feed_Replay Signals
begin

text \<open>
  How far a feed can move a book: the prices in the book are prices of the feed, and the resting
  and traded quantities are covered by the quantities of the add messages.  From this follow
  the ranges that the signals and the fill counters of the programs need.
\<close>

section \<open>Prices and quantities of one step\<close>

definition book_prices :: "spec_book \<Rightarrow> price set" where
  "book_prices B = fst ` set (s_bids B) \<union> fst ` set (s_asks B)"

lemma book_prices_sides: "book_prices B = fst ` set (side_of s B) \<union> fst ` set (side_of (opposite s) B)"
  by (cases s) (auto simp: book_prices_def)

lemma spec_add_prices:
  assumes inv: "spec_inv B" and run: "spec_add cap i s p q B = (ok, B', fs)"
  shows "book_prices B' \<subseteq> insert p (book_prices B) \<and> (\<forall>f \<in> set fs. 0 < f_qty f)"
  using run
proof (cases rule: spec_add_cases)
  case (taken q' ls)
  have "side_ok (opposite s) (side_of (opposite s) B)" using inv by (simp add: spec_inv_def)
  from take_side_ok [OF taken(4) this] have t: "fst ` set ls \<subseteq> fst ` set (side_of (opposite s) B)" "\<forall>f \<in> set fs. fill_ok (opposite s) i p f"
    by blast+
  from t(1) taken(5) have "book_prices B' \<subseteq> insert p (book_prices B)"
    by (auto simp: book_prices_sides [of _ s] enqueue_prices split: if_splits)
  with t(2) show ?thesis by (auto simp: fill_ok_def)
qed auto

lemma positive_side: "side_ok s ls \<Longrightarrow> 0 \<le> side_qty ls"
proof (induction ls)
  case (Cons l ls)
  then have "queue_ok (snd l)" "side_ok s ls" by (cases l; simp add: side_ok_def)+
  with Cons.IH queue_ok_qty [of "snd l"] show ?case by simp
qed simp

lemma drop_id_qty: "side_ok s ls \<Longrightarrow> side_qty (drop_id i ls) \<le> side_qty ls"
proof (induction ls)
  case (Cons l ls)
  obtain p xs where l: "l = (p, xs)" by (cases l)
  from Cons.prems l have ok: "queue_ok xs" "side_ok s ls" by (simp_all add: side_ok_def)
  have "queue_qty (filter (\<lambda>(j, _). j \<noteq> i) ys) \<le> queue_qty ys" if "\<forall>(j, q) \<in> set ys. 0 < q" for ys
    using that by (induction ys) auto
  with ok(1) have "queue_qty (filter (\<lambda>(j, _). j \<noteq> i) xs) \<le> queue_qty xs" by (simp add: queue_ok_def)
  with Cons.IH [OF ok(2)] l show ?case by auto
qed simp

lemma spec_inv_sides: "spec_inv B \<Longrightarrow> side_ok Buy (s_bids B) \<and> side_ok Sell (s_asks B)"
  unfolding spec_inv_def side_all [of _ Buy] by simp

lemma spec_cancel_range:
  assumes "spec_inv B"
  shows "book_prices (snd (spec_cancel i B)) \<subseteq> book_prices B \<and> book_qty (snd (spec_cancel i B)) \<le> book_qty B"
proof -
  from spec_inv_sides [OF assms] show ?thesis using drop_id_prices [of i "s_bids B"] drop_id_prices [of i "s_asks B"] drop_id_qty [of Buy "s_bids B" i] drop_id_qty [of Sell "s_asks B" i]
    by (auto simp: spec_cancel_def book_prices_def book_qty_def)
qed

lemma book_qty_nonneg: "spec_inv B \<Longrightarrow> 0 \<le> book_qty B"
  using positive_side [of Buy "s_bids B"] positive_side [of Sell "s_asks B"]
  by (auto simp: book_qty_def dest: spec_inv_sides)

section \<open>Whole feeds\<close>

definition add_qty :: "feed_message list \<Rightarrow> quantity" where
  "add_qty msgs = sum_list (map (\<lambda>m. if fm_type m = AddOrder then fm_qty m else 0) msgs)"

definition add_prices :: "feed_message list \<Rightarrow> price set" where
  "add_prices msgs = fm_price ` {m \<in> set msgs. fm_type m = AddOrder}"

definition quantities_ok :: "feed_message list \<Rightarrow> bool" where
  "quantities_ok msgs \<longleftrightarrow> (\<forall>m \<in> set msgs. fm_type m = AddOrder \<longrightarrow> 0 \<le> fm_qty m)"

lemma spec_apply_range:
  assumes inv: "spec_inv B" and run: "spec_apply cap m B = (B', fs)" and q: "quantities_ok [m]"
  shows "spec_inv B' \<and> book_prices B' \<subseteq> book_prices B \<union> add_prices [m] \<and> (\<forall>f \<in> set fs. 0 < f_qty f) \<and>
    book_qty B' + 2 * fills_qty fs \<le> book_qty B + add_qty [m]"
proof -
  consider "fm_type m = AddOrder" | "fm_type m \<noteq> AddOrder" "fm_type m = CancelOrder"
    | "fm_type m \<noteq> AddOrder" "fm_type m \<noteq> CancelOrder" by blast
  then show ?thesis
  proof cases
    case 1
    then obtain ok where S: "spec_add cap (fm_id m) (side_of_byte (fm_side m)) (fm_price m) (fm_qty m) B = (ok, B', fs)"
      using run by (auto simp: spec_apply_def) (metis prod.collapse)
    have "0 \<le> fm_qty m" using q 1 by (simp add: quantities_ok_def)
    from spec_add_conserves [OF inv S this] spec_add_prices [OF inv S] spec_add_keeps_inv [OF inv S] \<open>0 \<le> fm_qty m\<close> 1
    show ?thesis by (auto simp: add_qty_def add_prices_def split: if_splits)
  next
    case 2
    then have "B' = snd (spec_cancel (fm_id m) B)" "fs = []" using run by (simp_all add: spec_apply_def)
    with 2 spec_cancel_range [OF inv, of "fm_id m"] spec_cancel_keeps_inv [OF inv, of "fm_id m" "fst (spec_cancel (fm_id m) B)"]
    show ?thesis by (auto simp: add_qty_def)
  next
    case 3
    then show ?thesis using run inv by (simp add: spec_apply_def add_qty_def)
  qed
qed

lemma spec_replay_range:
  assumes "spec_inv B" "spec_replay cap msgs B = (B', fs)" "quantities_ok msgs"
  shows "spec_inv B' \<and> book_prices B' \<subseteq> book_prices B \<union> add_prices msgs \<and> (\<forall>f \<in> set fs. 0 < f_qty f) \<and>
    book_qty B' + 2 * fills_qty fs \<le> book_qty B + add_qty msgs"
  using assms
proof (induction msgs arbitrary: B fs)
  case (Cons m ms)
  obtain C gs where C: "spec_apply cap m B = (C, gs)" by fastforce
  obtain hs where D: "spec_replay cap ms C = (B', hs)" "fs = gs @ hs" using Cons.prems(2) C by (auto simp: case_prod_beta) (metis prod.collapse)
  have q: "quantities_ok [m]" "quantities_ok ms" using Cons.prems(3) by (simp_all add: quantities_ok_def)
  note s = spec_apply_range [OF Cons.prems(1) C q(1)]
  with Cons.IH [OF _ D(1) q(2)] D(2) show ?case by (auto simp: add_qty_def add_prices_def)
qed (auto simp: add_qty_def)

text \<open>A feed whose prices can be scaled and whose quantities sum to less than $2^{63}$.\<close>

definition feed_fits :: "feed_message list \<Rightarrow> bool" where
  "feed_fits msgs \<longleftrightarrow> prices_ok msgs \<and> quantities_ok msgs \<and> (\<forall>p \<in> add_prices msgs. scalable p) \<and> add_qty msgs < 2 ^ 63"

text \<open>Quantities with a sum in 64 bits keep every level total there.\<close>

lemma book_qty_levels:
  assumes inv: "spec_inv B" and fits: "book_qty B < 2 ^ 63"
  shows "book_fits B"
proof -
  have side: "side_fits ls" if "side_ok t ls" "side_qty ls < 2 ^ 63" for t ls
    using that
  proof (induction ls)
    case (Cons l ls)
    obtain p xs where l: "l = (p, xs)" by (cases l)
    from Cons.prems(1) l have ok: "queue_ok xs" "side_ok t ls" by (simp_all add: side_ok_def)
    from queue_ok_qty [OF ok(1)] positive_side [OF ok(2)] Cons.prems(2) l Cons.IH [OF ok(2)] show ?case by simp
  qed simp
  from spec_inv_sides [OF inv] have ok: "side_ok Buy (s_bids B)" "side_ok Sell (s_asks B)" by simp_all
  with positive_side [OF ok(1)] positive_side [OF ok(2)] side [OF ok(1)] side [OF ok(2)] fits show ?thesis
    by (simp add: book_fits_def book_qty_def)
qed

lemma quantities_totals_fit:
  assumes "spec_inv B" "quantities_ok msgs" "book_qty B + add_qty msgs < 2 ^ 63"
  shows "totals_fit cap msgs B"
  using assms
proof (induction msgs arbitrary: B)
  case (Cons m ms)
  obtain C gs where C: "spec_apply cap m B = (C, gs)" by fastforce
  have q: "quantities_ok [m]" "quantities_ok ms" "add_qty (m # ms) = add_qty [m] + add_qty ms" "0 \<le> add_qty ms"
    using Cons.prems(2) by (auto simp: quantities_ok_def add_qty_def intro!: sum_list_nonneg)
  from spec_apply_range [OF Cons.prems(1) C q(1)] fills_nonneg [of gs] have
    s: "spec_inv C" "book_qty C \<le> book_qty B + add_qty [m]" by auto
  with Cons.prems(3) q book_qty_levels [of C] Cons.IH [of C] have "book_fits C" "totals_fit cap ms C" by simp_all
  moreover have "fits_int64 (fm_qty m)" if "fm_type m = AddOrder"
    using that Cons.prems q book_qty_nonneg [of B] by (simp add: add_qty_def quantities_ok_def fits_int64_nonneg)
  ultimately show ?case using C by simp
qed simp

lemma feed_fits_totals: "feed_fits msgs \<Longrightarrow> totals_fit cap msgs \<lparr>s_bids = [], s_asks = []\<rparr>"
  using quantities_totals_fit [OF spec_inv_empty] by (simp add: feed_fits_def book_qty_def)

lemma feed_fits_prefix:
  assumes "feed_fits (xs @ ys)"
  shows "feed_fits xs"
proof -
  from assms have q: "quantities_ok (xs @ ys)" "add_qty (xs @ ys) < 2 ^ 63" by (simp_all add: feed_fits_def)
  then have "0 \<le> add_qty ys" by (auto simp: add_qty_def quantities_ok_def intro!: sum_list_nonneg)
  with q(2) have "add_qty xs < 2 ^ 63" by (simp add: add_qty_def)
  with assms show ?thesis by (auto simp: feed_fits_def prices_ok_def quantities_ok_def add_prices_def)
qed

lemma feed_fits_range:
  assumes "feed_fits msgs" "spec_replay cap msgs \<lparr>s_bids = [], s_asks = []\<rparr> = (B, fs)"
  shows "signal_range B" "spec_inv B" "\<forall>f \<in> set fs. 0 < f_qty f" "fills_qty fs < 2 ^ 63"
proof -
  let ?E = "\<lparr>s_bids = [], s_asks = []\<rparr> :: spec_book"
  have q: "quantities_ok msgs" using assms(1) by (simp add: feed_fits_def)
  from spec_replay_range [OF spec_inv_empty assms(2) q] have
    r: "spec_inv B" "book_prices B \<subseteq> add_prices msgs" "\<forall>f \<in> set fs. 0 < f_qty f" "book_qty B + 2 * fills_qty fs \<le> add_qty msgs"
    by (auto simp: book_prices_def book_qty_def)
  have "add_qty msgs < 2 ^ 63" using assms(1) by (simp add: feed_fits_def)
  with r(4) book_qty_nonneg [OF r(1)] fills_nonneg [OF r(3)] have "0 \<le> book_qty B" "book_qty B < 2 ^ 63" "fills_qty fs < 2 ^ 63"
    by linarith+
  with r assms(1) show "signal_range B" "spec_inv B" "\<forall>f \<in> set fs. 0 < f_qty f" "fills_qty fs < 2 ^ 63"
    by (auto simp: signal_range_def feed_fits_def book_prices_def fits_int64_def)
qed

end
