(* ===== verification/Spsc_Ring.thy ===== *)
theory Spsc_Ring
  imports Prelude
begin

text \<open>
  \<^verbatim>\<open>include/spsc_ring_buffer.hpp\<close>: the single-producer single-consumer ring.  First the two
  operations as one thread sees them, and the contract of a bounded queue that they keep.  Then
  the two threads together: their atomic loads and stores and their accesses to the array are
  the steps of a relation in which an acquire load may return any value of the other thread's
  index that is not older than the last one it saw, which is what the C++ memory model allows.
\<close>

section \<open>The operations\<close>

record 'a ring =
  buffer :: "'a list"
  head_idx :: nat
  tail_idx :: nat

definition new_ring :: "'a \<Rightarrow> nat \<Rightarrow> 'a ring" where
  "new_ring x capacity = \<lparr>buffer = replicate capacity x, head_idx = 0, tail_idx = 0\<rparr>"

definition ring_mask :: "'a ring \<Rightarrow> nat" where
  "ring_mask R = length (buffer R) - 1"

definition try_push :: "'a \<Rightarrow> 'a ring \<Rightarrow> (bool \<times> 'a ring) option" where
  "try_push item R =
     (let next_idx = (head_idx R + 1) AND ring_mask R in
      if next_idx = tail_idx R then Some (False, R)
      else do {
        buf \<leftarrow> vwrite (buffer R) (head_idx R) item;
        Some (True, R\<lparr>buffer := buf, head_idx := next_idx\<rparr>) })"

text \<open>The output parameter is the value under the inner \<^const>\<open>Some\<close>.\<close>

definition try_pop :: "'a ring \<Rightarrow> ('a option \<times> 'a ring) option" where
  "try_pop R =
     (if tail_idx R = head_idx R then Some (None, R)
      else do {
        out \<leftarrow> vread (buffer R) (tail_idx R);
        Some (Some out, R\<lparr>tail_idx := (tail_idx R + 1) AND ring_mask R\<rparr>) })"

section \<open>Cells between two counters\<close>

text \<open>
  Element number \<open>k\<close> lives in cell \<open>k mod n\<close>; the queue holds the elements from the number of
  pops \<open>t\<close> up to the number of pushes \<open>h\<close>.
\<close>

definition cells_from :: "'a list \<Rightarrow> nat \<Rightarrow> nat \<Rightarrow> 'a list" where
  "cells_from buf t h = map (\<lambda>k. buf ! (k mod length buf)) [t..<h]"

lemma mod_eq_near: "k mod n = l mod n \<longleftrightarrow> k = l" if "k \<le> l" "l < k + n" for k l n :: nat
proof
  assume "k mod n = l mod n"
  then have "n dvd l - k" using that by (metis mod_eq_dvd_iff_nat)
  with that show "k = l" by (metis diff_less_mono le_add1 le_add_diff_inverse diff_add_inverse nat_dvd_not_less
    le_antisym not_gr_zero zero_less_diff less_imp_le_nat linorder_not_less)
qed simp

lemma Suc_mod_wrap: "Suc h mod n = j mod n \<longleftrightarrow> Suc h = j + n" if "j \<le> h" "h < j + n"
proof (cases "Suc h = j + n")
  case False
  with that mod_eq_near [of j "Suc h" n] show ?thesis by auto
qed simp

lemma cells_from_push:
  assumes "t \<le> h" "h < t + length buf"
  shows "cells_from (buf[h mod length buf := x]) t (Suc h) = cells_from buf t h @ [x]"
proof -
  have n: "0 < length buf" using assms by linarith
  have "buf[h mod length buf := x] ! (k mod length buf) = buf ! (k mod length buf)" if "t \<le> k" "k < h" for k
    using that assms mod_eq_near [of k h "length buf"] by (simp add: nth_list_update)
  then show ?thesis using assms n by (simp add: cells_from_def)
qed

lemma cells_from_pop: "t < h \<Longrightarrow> cells_from buf t h = buf ! (t mod length buf) # cells_from buf (Suc t) h"
  by (simp add: cells_from_def upt_conv_Cons)

lemma length_cells_from [simp]: "length (cells_from buf t h) = h - t"
  by (simp add: cells_from_def)

lemma cells_from_nil [simp]: "cells_from buf t t = []"
  by (simp add: cells_from_def)

lemma cells_from_shift:
  "cells_from buf (t + length buf) (h + length buf) = cells_from buf t h"
proof -
  have "(t + length buf + i) mod length buf = (t + i) mod length buf" for i
    by (metis add.assoc add.commute mod_add_self2)
  then show ?thesis by (auto simp: cells_from_def intro: nth_equalityI)
qed

section \<open>The contract of a bounded queue\<close>

locale bounded_fifo =
  fixes inv :: "'r \<Rightarrow> bool"
    and items :: "'r \<Rightarrow> 'a list"
    and slots :: "'r \<Rightarrow> nat"
    and push :: "'a \<Rightarrow> 'r \<Rightarrow> (bool \<times> 'r) option"
    and pop :: "'r \<Rightarrow> ('a option \<times> 'r) option"
  assumes push_ok: "inv R \<Longrightarrow> length (items R) < slots R \<Longrightarrow>
      \<exists>R'. push x R = Some (True, R') \<and> inv R' \<and> items R' = items R @ [x] \<and> slots R' = slots R"
    and push_full: "inv R \<Longrightarrow> length (items R) = slots R \<Longrightarrow> push x R = Some (False, R)"
    and pop_ok: "inv R \<Longrightarrow> items R = x # xs \<Longrightarrow>
      \<exists>R'. pop R = Some (Some x, R') \<and> inv R' \<and> items R' = xs \<and> slots R' = slots R"
    and pop_empty: "inv R \<Longrightarrow> items R = [] \<Longrightarrow> pop R = Some (None, R)"
    and bounded: "inv R \<Longrightarrow> length (items R) \<le> slots R"
begin

lemma push_result:
  assumes "inv R"
  shows "\<exists>ok R'. push x R = Some (ok, R') \<and> inv R' \<and> slots R' = slots R \<and>
    items R' = items R @ (if ok then [x] else []) \<and> ok = (length (items R) < slots R)"
proof (cases "length (items R) < slots R")
  case True
  with push_ok [OF assms True, of x] show ?thesis by auto
next
  case False
  with push_full [OF assms, of x] bounded [OF assms] assms show ?thesis by auto
qed

lemma pop_result:
  assumes "inv R"
  shows "\<exists>y R'. pop R = Some (y, R') \<and> inv R' \<and> slots R' = slots R \<and>
    items R = (case y of None \<Rightarrow> [] | Some x \<Rightarrow> [x]) @ items R' \<and> y = first_opt (items R)"
  using pop_empty [OF assms] pop_ok [OF assms] assms by (cases "items R") fastforce+

end

section \<open>The ring keeps the contract\<close>

definition ring_inv :: "'a ring \<Rightarrow> bool" where
  "ring_inv R \<longleftrightarrow> is_pow2 (length (buffer R)) \<and> head_idx R < length (buffer R) \<and> tail_idx R < length (buffer R)"

text \<open>The number of pushes seen from the tail: the head, moved up by one lap when it has wrapped.\<close>

definition head_num :: "'a ring \<Rightarrow> nat" where
  "head_num R = (if tail_idx R \<le> head_idx R then head_idx R else head_idx R + length (buffer R))"

definition ring_items :: "'a ring \<Rightarrow> 'a list" where
  "ring_items R = cells_from (buffer R) (tail_idx R) (head_num R)"

definition usable :: "'a ring \<Rightarrow> nat" where
  "usable R = length (buffer R) - 1"

lemma ring_inv_new: "is_pow2 n \<Longrightarrow> ring_inv (new_ring x n)"
  by (simp add: ring_inv_def new_ring_def is_pow2_pos)

lemma ring_items_new [simp]: "ring_items (new_ring x n) = []"
  by (simp add: ring_items_def head_num_def new_ring_def)

lemma usable_new [simp]: "usable (new_ring x n) = n - 1"
  by (simp add: usable_def new_ring_def)

lemma head_num_range:
  assumes "ring_inv R"
  shows "tail_idx R \<le> head_num R \<and> head_num R < tail_idx R + length (buffer R) \<and> head_num R mod length (buffer R) = head_idx R"
  using assms by (auto simp: ring_inv_def head_num_def)

lemma next_idx_ok:
  assumes "ring_inv R"
  shows "(head_idx R + 1) AND ring_mask R = Suc (head_num R) mod length (buffer R)"
  using assms head_num_range [OF assms] and_pred_mod [of "length (buffer R)"]
  by (simp add: ring_mask_def ring_inv_def mod_Suc)

lemma tail_next_ok:
  assumes "ring_inv R"
  shows "(tail_idx R + 1) AND ring_mask R = Suc (tail_idx R) mod length (buffer R)"
  using assms and_pred_mod [of "length (buffer R)"] by (simp add: ring_mask_def ring_inv_def)

lemma ring_full_iff:
  assumes "ring_inv R"
  shows "(head_idx R + 1) AND ring_mask R = tail_idx R \<longleftrightarrow> Suc (head_num R) = tail_idx R + length (buffer R)"
  unfolding next_idx_ok [OF assms]
  using assms head_num_range [OF assms] Suc_mod_wrap [of "tail_idx R" "head_num R" "length (buffer R)"]
  by (simp add: ring_inv_def)

lemma try_push_ok:
  assumes "ring_inv R" "length (ring_items R) < usable R"
  shows "\<exists>R'. try_push x R = Some (True, R') \<and> ring_inv R' \<and> ring_items R' = ring_items R @ [x] \<and> usable R' = usable R"
proof -
  let ?n = "length (buffer R)"
  let ?R = "R\<lparr>buffer := (buffer R)[head_idx R := x], head_idx := Suc (head_num R) mod ?n\<rparr>"
  note r = head_num_range [OF assms(1)]
  have lt: "Suc (head_num R) < tail_idx R + ?n" using assms r by (auto simp: ring_items_def usable_def)
  have run: "try_push x R = Some (True, ?R)"
    using assms(1) lt ring_full_iff [OF assms(1)] next_idx_ok [OF assms(1)]
    by (simp add: try_push_def vwrite_def ring_inv_def)
  have inv: "ring_inv ?R" using assms(1) by (auto simp: ring_inv_def intro: mod_less_divisor)
  then have "head_num ?R mod ?n = Suc (head_num R) mod ?n" "tail_idx R \<le> head_num ?R" "head_num ?R < tail_idx R + ?n"
    using head_num_range [OF inv] by simp_all
  then have "head_num ?R = Suc (head_num R)"
    using lt r mod_eq_near [of "Suc (head_num R)" "head_num ?R" ?n] mod_eq_near [of "head_num ?R" "Suc (head_num R)" ?n]
    by linarith
  then have "ring_items ?R = ring_items R @ [x]"
    using cells_from_push [of "tail_idx R" "head_num R" "buffer R" x] r by (simp add: ring_items_def)
  with run inv show ?thesis by (simp add: usable_def)
qed

lemma try_push_full:
  assumes "ring_inv R" "length (ring_items R) = usable R"
  shows "try_push x R = Some (False, R)"
proof -
  have "Suc (head_num R) = tail_idx R + length (buffer R)"
    using assms(2) head_num_range [OF assms(1)] by (auto simp: ring_items_def usable_def)
  with ring_full_iff [OF assms(1)] show ?thesis by (simp add: try_push_def)
qed

lemma try_pop_ok:
  assumes "ring_inv R" "ring_items R = x # xs"
  shows "\<exists>R'. try_pop R = Some (Some x, R') \<and> ring_inv R' \<and> ring_items R' = xs \<and> usable R' = usable R"
proof -
  let ?n = "length (buffer R)" and ?t = "tail_idx R"
  let ?R = "R\<lparr>tail_idx := Suc ?t mod ?n\<rparr>"
  note r = head_num_range [OF assms(1)]
  have lt: "?t < head_num R" using assms(2) r by (metis cells_from_nil le_neq_implies_less list.distinct(1) ring_items_def)
  then have ne: "?t \<noteq> head_idx R" by (auto simp: head_num_def)
  have parts: "buffer R ! ?t = x" "cells_from (buffer R) (Suc ?t) (head_num R) = xs"
    using cells_from_pop [OF lt, of "buffer R"] assms by (simp_all add: ring_items_def ring_inv_def)
  have run: "try_pop R = Some (Some x, ?R)"
    using assms(1) ne parts tail_next_ok [OF assms(1)] by (simp add: try_pop_def vread_def ring_inv_def)
  have inv: "ring_inv ?R" using assms(1) by (auto simp: ring_inv_def intro: mod_less_divisor)
  have "ring_items ?R = xs"
  proof (cases "Suc ?t = ?n")
    case True
    then have "head_num ?R + ?n = head_num R" using lt r assms(1) by (auto simp: head_num_def ring_inv_def)
    with parts(2) True cells_from_shift [of "buffer R" 0 "head_num ?R"] show ?thesis by (simp add: ring_items_def)
  next
    case False
    then have "Suc ?t mod ?n = Suc ?t" "head_num ?R = head_num R" using lt assms(1) by (auto simp: head_num_def ring_inv_def)
    with parts(2) show ?thesis by (simp add: ring_items_def)
  qed
  with run inv show ?thesis by (simp add: usable_def)
qed

lemma try_pop_empty:
  assumes "ring_inv R" "ring_items R = []"
  shows "try_pop R = Some (None, R)"
proof -
  have "head_num R = tail_idx R" using assms(2) head_num_range [OF assms(1)] by (auto simp: ring_items_def cells_from_def)
  then have "head_idx R = tail_idx R" using assms(1) by (auto simp: head_num_def ring_inv_def split: if_splits)
  then show ?thesis by (simp add: try_pop_def)
qed

lemma ring_bounded: "ring_inv R \<Longrightarrow> length (ring_items R) \<le> usable R"
  using head_num_range [of R] by (simp add: ring_items_def usable_def) linarith

interpretation spsc: bounded_fifo ring_inv ring_items usable try_push try_pop
  by unfold_locales
    (rule try_push_ok try_push_full try_pop_ok try_pop_empty ring_bounded; assumption)+

section \<open>Two threads\<close>

text \<open>
  An atomic index is its modification order, the list of the values stored to it, oldest first;
  the position of the last value that the other thread has loaded is kept beside it.  Each
  thread reads its own index without synchronisation, since nobody else writes it.  \<open>pushed\<close>
  and \<open>popped\<close> record the values of the completed calls.
\<close>

datatype 'a producer_pc = P_idle | P_write 'a nat nat | P_store 'a nat
datatype 'a consumer_pc = C_idle | C_read nat | C_store 'a nat

record 'a spsc =
  cells :: "'a list"
  head_mo :: "nat list"
  tail_mo :: "nat list"
  tail_seen :: nat
  head_seen :: nat
  producer :: "'a producer_pc"
  consumer :: "'a consumer_pc"
  pushed :: "'a list"
  popped :: "'a list"

definition new_spsc :: "'a \<Rightarrow> nat \<Rightarrow> 'a spsc" where
  "new_spsc x capacity = \<lparr>cells = replicate capacity x, head_mo = [0], tail_mo = [0], tail_seen = 0, head_seen = 0,
     producer = P_idle, consumer = C_idle, pushed = [], popped = []\<rparr>"

definition spsc_next :: "'a spsc \<Rightarrow> nat \<Rightarrow> nat" where
  "spsc_next s i = (i + 1) AND (length (cells s) - 1)"

text \<open>The steps of \<^verbatim>\<open>try_push\<close>: the loads with the full test, the array write, the release store.\<close>

inductive push_step :: "'a spsc \<Rightarrow> 'a spsc \<Rightarrow> bool" where
  full: "producer s = P_idle \<Longrightarrow> tail_seen s \<le> j \<Longrightarrow> j < length (tail_mo s) \<Longrightarrow>
    spsc_next s (last (head_mo s)) = tail_mo s ! j \<Longrightarrow> push_step s (s\<lparr>tail_seen := j\<rparr>)"
| load: "producer s = P_idle \<Longrightarrow> tail_seen s \<le> j \<Longrightarrow> j < length (tail_mo s) \<Longrightarrow>
    spsc_next s (last (head_mo s)) \<noteq> tail_mo s ! j \<Longrightarrow>
    push_step s (s\<lparr>tail_seen := j, producer := P_write item (last (head_mo s)) (spsc_next s (last (head_mo s)))\<rparr>)"
| put: "producer s = P_write item h nxt \<Longrightarrow> h < length (cells s) \<Longrightarrow>
    push_step s (s\<lparr>cells := (cells s)[h := item], producer := P_store item nxt\<rparr>)"
| store: "producer s = P_store item nxt \<Longrightarrow>
    push_step s (s\<lparr>head_mo := head_mo s @ [nxt], producer := P_idle, pushed := pushed s @ [item]\<rparr>)"

text \<open>The steps of \<^verbatim>\<open>try_pop\<close>: the loads with the empty test, the array read, the release store.\<close>

inductive pop_step :: "'a spsc \<Rightarrow> 'a spsc \<Rightarrow> bool" where
  empty: "consumer s = C_idle \<Longrightarrow> head_seen s \<le> j \<Longrightarrow> j < length (head_mo s) \<Longrightarrow>
    last (tail_mo s) = head_mo s ! j \<Longrightarrow> pop_step s (s\<lparr>head_seen := j\<rparr>)"
| load: "consumer s = C_idle \<Longrightarrow> head_seen s \<le> j \<Longrightarrow> j < length (head_mo s) \<Longrightarrow>
    last (tail_mo s) \<noteq> head_mo s ! j \<Longrightarrow>
    pop_step s (s\<lparr>head_seen := j, consumer := C_read (last (tail_mo s))\<rparr>)"
| get: "consumer s = C_read t \<Longrightarrow> t < length (cells s) \<Longrightarrow>
    pop_step s (s\<lparr>consumer := C_store (cells s ! t) t\<rparr>)"
| store: "consumer s = C_store x t \<Longrightarrow>
    pop_step s (s\<lparr>tail_mo := tail_mo s @ [spsc_next s t], consumer := C_idle, popped := popped s @ [x]\<rparr>)"

inductive spsc_reachable :: "'a \<Rightarrow> nat \<Rightarrow> 'a spsc \<Rightarrow> bool" for x :: 'a and n :: nat where
  init: "spsc_reachable x n (new_spsc x n)"
| push: "spsc_reachable x n s \<Longrightarrow> push_step s s' \<Longrightarrow> spsc_reachable x n s'"
| pop: "spsc_reachable x n s \<Longrightarrow> pop_step s s' \<Longrightarrow> spsc_reachable x n s'"

inductive_cases push_stepE: "push_step s s'"
inductive_cases pop_stepE: "pop_step s s'"

section \<open>The invariant of the two threads\<close>

definition counter_mo :: "nat \<Rightarrow> nat \<Rightarrow> nat list" where
  "counter_mo n k = map (\<lambda>i. i mod n) [0..<Suc k]"

lemma counter_mo_simps [simp]:
  "length (counter_mo n k) = Suc k" "last (counter_mo n k) = k mod n"
  "counter_mo n k @ [Suc k mod n] = counter_mo n (Suc k)" "i \<le> k \<Longrightarrow> counter_mo n k ! i = i mod n"
  by (simp_all add: counter_mo_def nth_append del: upt_Suc) (simp_all add: nth_append)

fun producer_ok :: "nat \<Rightarrow> nat \<Rightarrow> nat \<Rightarrow> 'a list \<Rightarrow> 'a producer_pc \<Rightarrow> bool" where
  "producer_ok n h v cs P_idle = True"
| "producer_ok n h v cs (P_write item i nxt) \<longleftrightarrow> i = h mod n \<and> nxt = Suc h mod n \<and> Suc h < v + n"
| "producer_ok n h v cs (P_store item nxt) \<longleftrightarrow> nxt = Suc h mod n \<and> Suc h < v + n \<and> cs ! (h mod n) = item"

fun consumer_ok :: "nat \<Rightarrow> nat \<Rightarrow> nat \<Rightarrow> 'a list \<Rightarrow> 'a consumer_pc \<Rightarrow> bool" where
  "consumer_ok n t v ps C_idle = True"
| "consumer_ok n t v ps (C_read i) \<longleftrightarrow> i = t mod n \<and> t < v"
| "consumer_ok n t v ps (C_store x i) \<longleftrightarrow> i = t mod n \<and> t < v \<and> x = ps ! t"

definition spsc_inv :: "nat \<Rightarrow> 'a spsc \<Rightarrow> bool" where
  "spsc_inv n s \<longleftrightarrow>
     (let h = length (pushed s); t = length (popped s) in
       is_pow2 n \<and> length (cells s) = n \<and> head_mo s = counter_mo n h \<and> tail_mo s = counter_mo n t \<and>
       tail_seen s \<le> t \<and> t \<le> head_seen s \<and> head_seen s \<le> h \<and> h < tail_seen s + n \<and>
       popped s = take t (pushed s) \<and> (\<forall>k. t \<le> k \<and> k < h \<longrightarrow> cells s ! (k mod n) = pushed s ! k) \<and>
       producer_ok n h (tail_seen s) (cells s) (producer s) \<and> consumer_ok n t (head_seen s) (pushed s) (consumer s))"

lemma spsc_next_ok: "is_pow2 n \<Longrightarrow> length (cells s) = n \<Longrightarrow> spsc_next s (k mod n) = Suc k mod n"
  using and_pred_mod(1) [of n "k mod n + 1"] by (simp add: spsc_next_def mod_Suc_eq)

lemma spsc_inv_new: "is_pow2 n \<Longrightarrow> spsc_inv n (new_spsc x n)"
  by (simp add: spsc_inv_def new_spsc_def counter_mo_def is_pow2_pos)

lemma consumer_ok_grow: "v \<le> length ps \<Longrightarrow> consumer_ok n t v ps c \<Longrightarrow> v \<le> w \<Longrightarrow> consumer_ok n t w (ps @ qs) c"
  by (cases c) (auto simp: nth_append)

lemma producer_ok_grow: "producer_ok n h v cs p \<Longrightarrow> v \<le> w \<Longrightarrow> producer_ok n h w cs p"
  by (cases p) auto

lemma push_step_inv:
  assumes step: "push_step s s'" and inv: "spsc_inv n s"
  shows "spsc_inv n s'"
proof -
  let ?h = "length (pushed s)" and ?t = "length (popped s)"
  note I = inv [unfolded spsc_inv_def Let_def]
  from I have n: "is_pow2 n" "length (cells s) = n" and "?t \<le> ?h" "0 < n" by (auto simp: is_pow2_pos)
  from step show ?thesis
  proof (cases rule: push_step.cases)
    case (full j)
    with I show ?thesis by (auto simp: spsc_inv_def Let_def)
  next
    case (load j item)
    with I have j: "tail_seen s \<le> j" "j \<le> ?t" "Suc ?h mod n \<noteq> j mod n" by (auto simp: spsc_next_ok [OF n])
    with I \<open>?t \<le> ?h\<close> have "Suc ?h < j + n" using Suc_mod_wrap [of j ?h n] by auto
    with I j load(1) show ?thesis by (auto simp: spsc_inv_def Let_def spsc_next_ok [OF n])
  next
    case (put item h nxt)
    with I have "h = ?h mod n" "?h < ?t + n" by auto
    then have "(cells s)[h := item] ! (k mod n) = cells s ! (k mod n)" if "?t \<le> k" "k < ?h" for k
      using that mod_eq_near [of k ?h n] by (simp add: nth_list_update)
    with I put n \<open>0 < n\<close> show ?thesis by (auto simp: spsc_inv_def Let_def)
  next
    case (store item nxt)
    with I have "cells s ! (k mod n) = (pushed s @ [item]) ! k" if "?t \<le> k" "k < Suc ?h" for k
      using that by (auto simp: nth_append less_Suc_eq)
    moreover have "consumer_ok n ?t (head_seen s) (pushed s @ [item]) (consumer s)"
      using I by (intro consumer_ok_grow [of "head_seen s"]) auto
    ultimately show ?thesis using I store by (auto simp: spsc_inv_def Let_def)
  qed
qed

lemma pop_step_inv:
  assumes step: "pop_step s s'" and inv: "spsc_inv n s"
  shows "spsc_inv n s'"
proof -
  let ?h = "length (pushed s)" and ?t = "length (popped s)"
  note I = inv [unfolded spsc_inv_def Let_def]
  from I have n: "is_pow2 n" "length (cells s) = n" and "?t \<le> ?h" "?h < ?t + n" by auto
  from step show ?thesis
  proof (cases rule: pop_step.cases)
    case (empty j)
    with I show ?thesis by (auto simp: spsc_inv_def Let_def)
  next
    case (load j)
    with I have j: "head_seen s \<le> j" "j \<le> ?h" "?t mod n \<noteq> j mod n" by auto
    with I have "?t < j" by (metis le_neq_implies_less le_trans)
    with I j load(1) show ?thesis by (auto simp: spsc_inv_def Let_def)
  next
    case (get t)
    with I show ?thesis by (auto simp: spsc_inv_def Let_def)
  next
    case (store x t)
    with I have "x = pushed s ! ?t" "?t < ?h" by auto
    then have "popped s @ [x] = take (Suc ?t) (pushed s)" using I by (simp add: take_Suc_conv_app_nth)
    with I store show ?thesis by (auto simp: spsc_inv_def Let_def spsc_next_ok [OF n])
  qed
qed

lemma spsc_reachable_inv: "spsc_reachable x n s \<Longrightarrow> is_pow2 n \<Longrightarrow> spsc_inv n s"
  by (induction rule: spsc_reachable.induct) (auto intro: spsc_inv_new push_step_inv pop_step_inv)

text \<open>What a step of the ring leaves of the other thread's fields, and what it does to the histories.\<close>

lemma push_step_frame:
  assumes "push_step s s'"
  shows "consumer s' = consumer s \<and> popped s' = popped s \<and> head_seen s' = head_seen s \<and>
    pushed s' = pushed s @ (if producer s \<noteq> P_idle \<and> producer s' = P_idle then [last (pushed s')] else [])"
  using assms by cases auto

lemma pop_step_frame:
  assumes "pop_step s s'"
  shows "producer s' = producer s \<and> pushed s' = pushed s \<and> head_mo s' = head_mo s \<and> head_seen s \<le> head_seen s' \<and>
    popped s' = popped s @ (if consumer s \<noteq> C_idle \<and> consumer s' = C_idle then [last (popped s')] else [])"
  using assms by cases auto

lemma pop_step_possible:
  assumes "spsc_inv n s"
  shows "\<exists>s'. pop_step s s'"
proof (cases "consumer s")
  case C_idle
  with assms have "head_seen s < length (head_mo s)" by (auto simp: spsc_inv_def Let_def)
  then show ?thesis using pop_step.empty [OF C_idle le_refl] pop_step.load [OF C_idle le_refl] by blast
next
  case (C_read i)
  with assms have "i < length (cells s)" by (auto simp: spsc_inv_def Let_def is_pow2_pos)
  then show ?thesis using pop_step.get [OF C_read] by blast
qed (blast intro: pop_step.store)

section \<open>What the two threads get\<close>

text \<open>
  C16.  The ring is a queue for its two threads: in every interleaving of their steps, however
  stale the index values they load, what has been popped is a prefix of what has been pushed
  (nothing lost, duplicated, reordered or invented), and fewer than \<open>Capacity\<close> elements are in
  flight.
\<close>

theorem spsc_fifo:
  assumes "is_pow2 n" "spsc_reachable x n s"
  shows "\<exists>rest. pushed s = popped s @ rest \<and> length rest < n"
proof -
  let ?t = "length (popped s)"
  from spsc_reachable_inv [OF assms(2,1)] have "popped s = take ?t (pushed s)" "length (pushed s) < ?t + n"
    by (auto simp: spsc_inv_def Let_def)
  then show ?thesis by (metis append_take_drop_id length_append nat_add_left_cancel_less)
qed

text \<open>
  C17.  The array accesses never race: when the producer is about to write a cell and the
  consumer to read one, the cells differ and are inside the array; the pop of every earlier
  element of the producer's cell is one it has synchronised with, and so is the push of the
  element the consumer reads.
\<close>

theorem spsc_race_free:
  assumes "is_pow2 n" "spsc_reachable x n s" "producer s = P_write item h nxt" "consumer s = C_read t"
  shows "h \<noteq> t \<and> h < n \<and> t < n \<and> length (popped s) < head_seen s \<and>
    (\<forall>k < length (pushed s). k mod n = h \<longrightarrow> k < tail_seen s)"
proof -
  let ?h = "length (pushed s)" and ?t = "length (popped s)"
  from spsc_reachable_inv [OF assms(2,1)] assms(3,4) have
    I: "h = ?h mod n" "t = ?t mod n" "Suc ?h < tail_seen s + n" "tail_seen s \<le> ?t" "?t < head_seen s" "head_seen s \<le> ?h"
    by (auto simp: spsc_inv_def Let_def)
  moreover have "?t mod n \<noteq> ?h mod n" using I mod_eq_near [of ?t ?h n] by simp
  moreover have "k < tail_seen s" if "k < ?h" "k mod n = h" for k
  proof (rule ccontr)
    assume "\<not> k < tail_seen s"
    with that I mod_eq_near [of k ?h n] show False by simp
  qed
  ultimately show ?thesis using is_pow2_pos [OF assms(1)] by simp
qed

text \<open>Runs for the witnesses: one element pushed, and both threads in the middle of a call.\<close>

definition one_pushed :: "nat spsc" where
  "one_pushed = (new_spsc 0 4)\<lparr>cells := [9, 0, 0, 0], head_mo := [0, 1], pushed := [9]\<rparr>"

definition both_busy :: "nat spsc" where
  "both_busy = one_pushed\<lparr>producer := P_write 8 1 2, head_seen := 1, consumer := C_read 0\<rparr>"

lemma one_pushed_reachable: "spsc_reachable 0 4 one_pushed"
proof -
  let ?s = "new_spsc (0 :: nat) 4"
  have "push_step ?s (?s\<lparr>producer := P_write 9 0 1\<rparr>)"
    using push_step.load [of ?s 0 9] by (simp add: new_spsc_def spsc_next_def)
  moreover have "push_step (?s\<lparr>producer := P_write 9 0 1\<rparr>) (?s\<lparr>cells := [9, 0, 0, 0], producer := P_store 9 1\<rparr>)"
    using push_step.put [of "?s\<lparr>producer := P_write 9 0 1\<rparr>" 9 0 1] by (simp add: new_spsc_def numeral_eq_Suc)
  moreover have "push_step (?s\<lparr>cells := [9, 0, 0, 0], producer := P_store 9 1\<rparr>) one_pushed"
    using push_step.store [of "?s\<lparr>cells := [9, 0, 0, 0], producer := P_store 9 1\<rparr>" 9 1]
    by (simp add: new_spsc_def one_pushed_def)
  ultimately show ?thesis
    by (rule spsc_reachable.push [OF spsc_reachable.push [OF spsc_reachable.push [OF spsc_reachable.init]]])
qed

lemma both_busy_reachable: "spsc_reachable 0 4 both_busy"
proof -
  have "spsc_next one_pushed 1 = 2"
    using spsc_next_ok [of 4 one_pushed 1] is_pow2_power [of 2] by (simp add: one_pushed_def)
  then have "push_step one_pushed (one_pushed\<lparr>producer := P_write 8 1 2\<rparr>)"
    using push_step.load [of one_pushed 0 8] by (simp add: new_spsc_def one_pushed_def)
  moreover have "pop_step (one_pushed\<lparr>producer := P_write 8 1 2\<rparr>) both_busy"
    using pop_step.load [of "one_pushed\<lparr>producer := P_write 8 1 2\<rparr>" 1]
    by (simp add: new_spsc_def one_pushed_def both_busy_def)
  ultimately show ?thesis by (rule spsc_reachable.pop [OF spsc_reachable.push [OF one_pushed_reachable]])
qed

theorem spsc_fifo_witness: "\<exists>rest. pushed one_pushed = popped one_pushed @ rest \<and> length rest < 4"
  using spsc_fifo [OF _ one_pushed_reachable] is_pow2_power [of 2] by simp

theorem spsc_race_free_witness: "(1 :: nat) \<noteq> 0 \<and> length (popped both_busy) < head_seen both_busy"
  using spsc_race_free [OF _ both_busy_reachable, of 8 1 2 0] is_pow2_power [of 2] by (simp add: both_busy_def)

section \<open>One thread at a time\<close>

text \<open>The ring that a thread sees when the other is idle and every store has become visible.\<close>

definition snapshot :: "'a spsc \<Rightarrow> 'a ring" where
  "snapshot s = \<lparr>buffer = cells s, head_idx = last (head_mo s), tail_idx = last (tail_mo s)\<rparr>"

lemma snapshot_inv: "spsc_inv n s \<Longrightarrow> ring_inv (snapshot s)"
  by (auto simp: spsc_inv_def Let_def ring_inv_def snapshot_def is_pow2_pos)

text \<open>
  A call of the sequential operation is a run of the thread's steps: one when it fails, three
  when it succeeds.
\<close>

lemma push_call:
  assumes inv: "spsc_inv n s" and idle: "producer s = P_idle"
    and run: "try_push item (snapshot s) = Some (ok, R)"
  shows "if ok then \<exists>s1 s2 s3. push_step s s1 \<and> push_step s1 s2 \<and> push_step s2 s3 \<and> producer s1 \<noteq> P_idle \<and> producer s2 \<noteq> P_idle \<and>
      producer s3 = P_idle \<and> snapshot s3 = R \<and> pushed s3 = pushed s @ [item]
    else \<exists>s1. push_step s s1 \<and> producer s1 = P_idle \<and> snapshot s1 = R"
proof -
  let ?t = "length (popped s)" and ?i = "last (head_mo s)"
  note I = inv [unfolded spsc_inv_def Let_def]
  from I have j: "tail_seen s \<le> ?t" "?t < length (tail_mo s)" "last (tail_mo s) = tail_mo s ! ?t" and i: "?i < length (cells s)"
    by (simp_all add: is_pow2_pos)
  have nxt: "(?i + 1) AND ring_mask (snapshot s) = spsc_next s ?i" by (simp add: ring_mask_def snapshot_def spsc_next_def)
  show ?thesis
  proof (cases "spsc_next s ?i = tail_mo s ! ?t")
    case True
    then have "\<not> ok" "R = snapshot s" using run j nxt by (auto simp: try_push_def snapshot_def)
    moreover have "push_step s (s\<lparr>tail_seen := ?t\<rparr>)" by (rule push_step.full [OF idle j(1,2) True])
    ultimately show ?thesis using idle by (auto simp: snapshot_def intro!: exI [of _ "s\<lparr>tail_seen := ?t\<rparr>"])
  next
    case False
    define s1 where "s1 = s\<lparr>tail_seen := ?t, producer := P_write item ?i (spsc_next s ?i)\<rparr>"
    define s2 where "s2 = s1\<lparr>cells := (cells s1)[?i := item], producer := P_store item (spsc_next s ?i)\<rparr>"
    define s3 where "s3 = s2\<lparr>head_mo := head_mo s2 @ [spsc_next s ?i], producer := P_idle, pushed := pushed s2 @ [item]\<rparr>"
    have "push_step s s1" unfolding s1_def by (rule push_step.load [OF idle j(1,2) False])
    moreover have "push_step s1 s2" unfolding s2_def by (rule push_step.put) (simp_all add: s1_def i)
    moreover have "push_step s2 s3" unfolding s3_def by (rule push_step.store) (simp add: s2_def)
    moreover have "ok" "R = snapshot s3" using run j nxt i False
      by (auto simp: try_push_def snapshot_def vwrite_def s1_def s2_def s3_def)
    moreover have "producer s1 \<noteq> P_idle" "producer s2 \<noteq> P_idle" "producer s3 = P_idle" "pushed s3 = pushed s @ [item]"
      by (simp_all add: s1_def s2_def s3_def)
    ultimately show ?thesis by auto
  qed
qed

lemma pop_call:
  assumes inv: "spsc_inv n s" and idle: "consumer s = C_idle"
    and run: "try_pop (snapshot s) = Some (y, R)"
  shows "case y of Some x \<Rightarrow> \<exists>s1 s2 s3. pop_step s s1 \<and> pop_step s1 s2 \<and> pop_step s2 s3 \<and> consumer s1 \<noteq> C_idle \<and> consumer s2 \<noteq> C_idle \<and>
      consumer s3 = C_idle \<and> snapshot s3 = R \<and> popped s3 = popped s @ [x]
    | None \<Rightarrow> \<exists>s1. pop_step s s1 \<and> consumer s1 = C_idle \<and> snapshot s1 = R"
proof -
  let ?h = "length (pushed s)" and ?i = "last (tail_mo s)"
  note I = inv [unfolded spsc_inv_def Let_def]
  from I have j: "head_seen s \<le> ?h" "?h < length (head_mo s)" "last (head_mo s) = head_mo s ! ?h" and i: "?i < length (cells s)"
    by (simp_all add: is_pow2_pos)
  have nxt: "(?i + 1) AND ring_mask (snapshot s) = spsc_next s ?i" by (simp add: ring_mask_def snapshot_def spsc_next_def)
  show ?thesis
  proof (cases "?i = head_mo s ! ?h")
    case True
    then have "y = None" "R = snapshot s" using run j by (auto simp: try_pop_def snapshot_def)
    moreover have "pop_step s (s\<lparr>head_seen := ?h\<rparr>)" by (rule pop_step.empty [OF idle j(1,2) True])
    ultimately show ?thesis using idle by (auto simp: snapshot_def intro!: exI [of _ "s\<lparr>head_seen := ?h\<rparr>"])
  next
    case False
    define s1 where "s1 = s\<lparr>head_seen := ?h, consumer := C_read ?i\<rparr>"
    define s2 where "s2 = s1\<lparr>consumer := C_store (cells s1 ! ?i) ?i\<rparr>"
    define s3 where "s3 = s2\<lparr>tail_mo := tail_mo s2 @ [spsc_next s2 ?i], consumer := C_idle, popped := popped s2 @ [cells s ! ?i]\<rparr>"
    have "pop_step s s1" unfolding s1_def by (rule pop_step.load [OF idle j(1,2) False])
    moreover have "pop_step s1 s2" unfolding s2_def by (rule pop_step.get) (simp_all add: s1_def i)
    moreover have "pop_step s2 s3" unfolding s3_def by (rule pop_step.store) (simp add: s2_def s1_def)
    moreover have "y = Some (cells s ! ?i)" "R = snapshot s3" using run j nxt i False
      by (auto simp: try_pop_def snapshot_def vread_def s1_def s2_def s3_def spsc_next_def)
    moreover have "consumer s1 \<noteq> C_idle" "consumer s2 \<noteq> C_idle" "consumer s3 = C_idle" "popped s3 = popped s @ [cells s ! ?i]"
      by (simp_all add: s1_def s2_def s3_def)
    ultimately show ?thesis by auto
  qed
qed

end
