(* ===== verification/Md_Publisher.thy ===== *)
theory Md_Publisher
  imports Signals Spsc_Ring "HOL-Library.Sublist"
begin

text \<open>
  \<^verbatim>\<open>include/md_publisher.hpp\<close>: the publishing stage, a ring of snapshots with the counters of the
  published and the dropped ones.  The ring is used only through the contract of the bounded
  queue that the theory of the ring establishes.
\<close>

section \<open>Operations\<close>

record publisher =
  pub_ring :: "book_signals ring"
  published :: u64
  dropped :: u64

definition new_publisher :: "nat \<Rightarrow> publisher" where
  "new_publisher capacity = \<lparr>pub_ring = new_ring new_signals capacity, published = 0, dropped = 0\<rparr>"

definition publish :: "book_signals \<Rightarrow> publisher \<Rightarrow> (bool \<times> publisher) option" where
  "publish s P = do {
     (ok, R) \<leftarrow> try_push s (pub_ring P);
     if ok then Some (True, P\<lparr>pub_ring := R, published := published P + 1\<rparr>)
     else Some (False, P\<lparr>pub_ring := R, dropped := dropped P + 1\<rparr>) }"

definition poll :: "publisher \<Rightarrow> (book_signals option \<times> publisher) option" where
  "poll P = do {
     (y, R) \<leftarrow> try_pop (pub_ring P);
     Some (y, P\<lparr>pub_ring := R\<rparr>) }"

definition usable_slots :: "nat \<Rightarrow> nat" where
  "usable_slots capacity = capacity - 1"

section \<open>Behaviour of the operations\<close>

abbreviation waiting :: "publisher \<Rightarrow> book_signals list" where
  "waiting P \<equiv> ring_items (pub_ring P)"

definition pub_inv :: "publisher \<Rightarrow> bool" where
  "pub_inv P \<longleftrightarrow> ring_inv (pub_ring P)"

lemma pub_inv_new: "is_pow2 n \<Longrightarrow> pub_inv (new_publisher n)"
  by (simp add: pub_inv_def new_publisher_def ring_inv_new)

lemma publish_ok:
  assumes "pub_inv P"
  shows "\<exists>ok P'. publish s P = Some (ok, P') \<and> pub_inv P' \<and> usable (pub_ring P') = usable (pub_ring P) \<and>
    ok = (length (waiting P) < usable (pub_ring P)) \<and> waiting P' = waiting P @ (if ok then [s] else []) \<and>
    published P' = published P + (if ok then 1 else 0) \<and> dropped P' = dropped P + (if ok then 0 else 1)"
proof -
  from spsc.push_result [of "pub_ring P" s] assms obtain ok R where
    "try_push s (pub_ring P) = Some (ok, R)" "ring_inv R" "usable R = usable (pub_ring P)"
    "ring_items R = waiting P @ (if ok then [s] else [])" "ok = (length (waiting P) < usable (pub_ring P))"
    by (auto simp: pub_inv_def)
  then show ?thesis by (intro exI [of _ ok]) (cases ok; simp add: publish_def pub_inv_def)
qed

lemma poll_ok:
  assumes "pub_inv P"
  shows "\<exists>y P'. poll P = Some (y, P') \<and> pub_inv P' \<and> usable (pub_ring P') = usable (pub_ring P) \<and>
    y = first_opt (waiting P) \<and> waiting P = (case y of None \<Rightarrow> [] | Some x \<Rightarrow> [x]) @ waiting P' \<and>
    published P' = published P \<and> dropped P' = dropped P"
proof -
  from spsc.pop_result [of "pub_ring P"] assms obtain y R where f:
    "try_pop (pub_ring P) = Some (y, R)" "ring_inv R" "usable R = usable (pub_ring P)"
    "waiting P = (case y of None \<Rightarrow> [] | Some x \<Rightarrow> [x]) @ ring_items R" "y = first_opt (waiting P)"
    unfolding pub_inv_def by blast
  show ?thesis
    by (intro exI [of _ y] exI [of _ "P\<lparr>pub_ring := R\<rparr>"] conjI)
      (simp_all add: poll_def pub_inv_def f(1-3), fact f(5), fact f(4))
qed

section \<open>Any sequence of calls\<close>

datatype pub_call = Publish book_signals | Poll

text \<open>The snapshots that entered the ring and those that the consumer received.\<close>

fun pub_run :: "pub_call list \<Rightarrow> publisher \<Rightarrow> (book_signals list \<times> book_signals list \<times> publisher) option" where
  "pub_run [] P = Some ([], [], P)"
| "pub_run (Publish s # cs) P = do {
     (ok, P) \<leftarrow> publish s P;
     (sent, got, P) \<leftarrow> pub_run cs P;
     Some ((if ok then [s] else []) @ sent, got, P) }"
| "pub_run (Poll # cs) P = do {
     (y, P) \<leftarrow> poll P;
     (sent, got, P) \<leftarrow> pub_run cs P;
     Some (sent, (case y of None \<Rightarrow> [] | Some s \<Rightarrow> [s]) @ got, P) }"

fun offered :: "pub_call list \<Rightarrow> book_signals list" where
  "offered [] = []"
| "offered (Publish s # cs) = s # offered cs"
| "offered (Poll # cs) = offered cs"

lemma pub_run_ok:
  assumes "pub_inv P"
  shows "\<exists>sent got P'. pub_run cs P = Some (sent, got, P') \<and> pub_inv P' \<and> usable (pub_ring P') = usable (pub_ring P) \<and>
    waiting P @ sent = got @ waiting P' \<and> subseq sent (offered cs) \<and>
    published P' = published P + of_nat (length sent) \<and>
    dropped P' = dropped P + of_nat (length (offered cs) - length sent)"
  using assms
proof (induction cs P rule: pub_run.induct)
  case (2 s cs P)
  from publish_ok [OF 2(2), of s] obtain ok Q where Q: "publish s P = Some (ok, Q)" "pub_inv Q"
    "usable (pub_ring Q) = usable (pub_ring P)" "waiting Q = waiting P @ (if ok then [s] else [])"
    "published Q = published P + (if ok then 1 else 0)" "dropped Q = dropped P + (if ok then 0 else 1)" by blast
  from 2(1) [OF Q(1) refl Q(2)] obtain sent got P' where R: "pub_run cs Q = Some (sent, got, P')" "pub_inv P'"
    "usable (pub_ring P') = usable (pub_ring Q)" "waiting Q @ sent = got @ waiting P'" "subseq sent (offered cs)"
    "published P' = published Q + of_nat (length sent)" "dropped P' = dropped Q + of_nat (length (offered cs) - length sent)"
    by blast
  from list_emb_length [OF R(5)] have "length sent \<le> length (offered cs)" .
  with Q R show ?case by (cases ok) (auto simp: Suc_diff_le)
next
  case (3 cs P)
  from poll_ok [OF 3(2)] obtain y Q where Q: "poll P = Some (y, Q)" "pub_inv Q"
    "usable (pub_ring Q) = usable (pub_ring P)" "waiting P = (case y of None \<Rightarrow> [] | Some x \<Rightarrow> [x]) @ waiting Q"
    "published Q = published P" "dropped Q = dropped P" by blast
  from 3(1) [OF Q(1) refl Q(2)] obtain sent got P' where R: "pub_run cs Q = Some (sent, got, P')" "pub_inv P'"
    "usable (pub_ring P') = usable (pub_ring Q)" "waiting Q @ sent = got @ waiting P'" "subseq sent (offered cs)"
    "published P' = published Q + of_nat (length sent)" "dropped P' = dropped Q + of_nat (length (offered cs) - length sent)"
    by blast
  with Q show ?case by (cases y) auto
qed simp

section \<open>Properties\<close>

text \<open>
  C29.  Conflated, never wrong: whatever the producer and the consumer call in whatever order,
  the calls return, the consumer receives published snapshots in the order of their publication
  with none missing in between, the others are still waiting (at most \<open>usable_slots\<close> of them),
  and every offered snapshot is counted exactly once, as published or as dropped.
\<close>

theorem publisher_conflates:
  assumes "is_pow2 n"
  shows "\<exists>sent got P. pub_run cs (new_publisher n) = Some (sent, got, P) \<and>
    sent = got @ waiting P \<and> length (waiting P) \<le> usable_slots n \<and> subseq sent (offered cs) \<and>
    published P = of_nat (length sent) \<and> dropped P = of_nat (length (offered cs) - length sent)"
proof -
  from pub_run_ok [OF pub_inv_new [OF assms], of cs] obtain sent got P where
    P: "pub_run cs (new_publisher n) = Some (sent, got, P)" "pub_inv P" "usable (pub_ring P) = n - 1"
      "sent = got @ waiting P" "subseq sent (offered cs)" "published P = of_nat (length sent)"
      "dropped P = of_nat (length (offered cs) - length sent)"
    by (auto simp: new_publisher_def)
  moreover from P spsc.bounded [of "pub_ring P"] have "length (waiting P) \<le> usable_slots n"
    by (simp add: pub_inv_def usable_slots_def)
  ultimately show ?thesis by blast
qed

theorem publisher_conflates_witness:
  "\<exists>sent got P. pub_run [Publish new_signals, Publish new_signals, Poll] (new_publisher 2) = Some (sent, got, P) \<and>
    sent = got @ waiting P \<and> subseq sent [new_signals, new_signals]"
  using publisher_conflates [of 2 "[Publish new_signals, Publish new_signals, Poll]"] is_pow2_power [of 1] by auto

text \<open>
  The publisher never blocks and drops only when it must: a call of \<open>publish\<close> returns, and
  it reports false exactly when the consumer is a full ring behind.
\<close>

theorem publish_drops_only_when_full:
  assumes "pub_inv P"
  shows "\<exists>P'. publish s P = Some (length (waiting P) < usable (pub_ring P), P') \<and> pub_inv P'"
  using publish_ok [OF assms, of s] by blast

theorem publish_drops_only_when_full_witness:
  "\<exists>P'. publish new_signals (new_publisher 2) = Some (True, P') \<and> pub_inv P'"
  using publish_drops_only_when_full [OF pub_inv_new, of 2 new_signals] is_pow2_power [of 1]
  by (simp add: new_publisher_def)

end
