(* ===== verification/Md_Threads.thy ===== *)
theory Md_Threads
  imports Md_Publisher
begin

text \<open>
  The thread that consumes the snapshots, which the listener command (\<^verbatim>\<open>src/xdp_listen_cmd.cpp\<close>) and the
  benchmark (\<^verbatim>\<open>Consumer::run\<close> of \<^verbatim>\<open>bench/latency_bench.cpp\<close>) start, and its end: it polls the ring, looks at the stop
  flag when the ring is empty, and drains the ring once more when the flag is set.  First the
  loop turn by turn, as one sees it when the calls of the two threads do not overlap; then the two threads
  with the steps of the ring, where the loads of the stop flag and of the indices may be stale.  What
  the consumer does with a snapshot is a parameter, one for the loop and one for the draining loop.
\<close>

section \<open>The loop, turn by turn\<close>

datatype md_pc = Polling | Checking | Draining | Joined

text \<open>
  One turn: a poll with the treatment of its result, or a look at the stop flag.
\<close>

definition consumer_turn :: "(book_signals \<Rightarrow> 'c \<Rightarrow> 'c) \<Rightarrow> (book_signals \<Rightarrow> 'c \<Rightarrow> 'c) \<Rightarrow> bool \<Rightarrow> publisher \<Rightarrow> md_pc \<Rightarrow> 'c \<Rightarrow> (publisher \<times> md_pc \<times> 'c) option" where
  "consumer_turn f g stop P pc c =
     (case pc of
        Polling \<Rightarrow> do {
          (y, P) \<leftarrow> poll P;
          Some (case y of Some s \<Rightarrow> (P, Polling, f s c) | None \<Rightarrow> (P, Checking, c)) }
      | Checking \<Rightarrow> Some (P, if stop then Draining else Polling, c)
      | Draining \<Rightarrow> do {
          (y, P) \<leftarrow> poll P;
          Some (case y of Some s \<Rightarrow> (P, Draining, g s c) | None \<Rightarrow> (P, Joined, c)) }
      | Joined \<Rightarrow> Some (P, Joined, c))"

primrec consumer_turns :: "(book_signals \<Rightarrow> 'c \<Rightarrow> 'c) \<Rightarrow> (book_signals \<Rightarrow> 'c \<Rightarrow> 'c) \<Rightarrow> nat \<Rightarrow> publisher \<Rightarrow> md_pc \<Rightarrow> 'c \<Rightarrow> (publisher \<times> md_pc \<times> 'c) option" where
  "consumer_turns f g 0 P pc c = Some (P, pc, c)"
| "consumer_turns f g (Suc n) P pc c = do { (P, pc, c) \<leftarrow> consumer_turn f g False P pc c; consumer_turns f g n P pc c }"

text \<open>The end of the thread, once it can see that the flag is set.\<close>

partial_function (option) consumer_finish :: "(book_signals \<Rightarrow> 'c \<Rightarrow> 'c) \<Rightarrow> (book_signals \<Rightarrow> 'c \<Rightarrow> 'c) \<Rightarrow> publisher \<Rightarrow> md_pc \<Rightarrow> 'c \<Rightarrow> (publisher \<times> 'c) option" where
  "consumer_finish f g P pc c =
     (if pc = Joined then Some (P, c)
      else Option.bind (consumer_turn f g True P pc c) (\<lambda>(P, pc, c). consumer_finish f g P pc c))"

text \<open>
  The whole life of the two threads, call by call: in turns that a scheduler chooses, the producer publishes the
  snapshots of a list and then sets the flag, and the consumer makes a turn.
\<close>

fun md_exec :: "(book_signals \<Rightarrow> 'c \<Rightarrow> 'c) \<Rightarrow> (book_signals \<Rightarrow> 'c \<Rightarrow> 'c) \<Rightarrow> bool list \<Rightarrow> book_signals list \<Rightarrow> bool \<Rightarrow> publisher \<Rightarrow> md_pc \<Rightarrow> 'c \<Rightarrow> (bool \<times> publisher \<times> md_pc \<times> 'c) option" where
  "md_exec f g [] todo stop P pc c = Some (stop, P, pc, c)"
| "md_exec f g (True # sched) [] stop P pc c = md_exec f g sched [] True P pc c"
| "md_exec f g (True # sched) (s # todo) stop P pc c = do { (ok, P) \<leftarrow> publish s P; md_exec f g sched todo stop P pc c }"
| "md_exec f g (False # sched) todo stop P pc c = do {
     (P, pc, c) \<leftarrow> consumer_turn f g stop P pc c;
     md_exec f g sched todo stop P pc c }"

section \<open>The two threads with the steps of the ring\<close>

text \<open>
  The ring with its own history, the stop flag (false until its one store), the two counters of the
  producer, and the consumer's place in its loop and state.
\<close>

record ('a, 'c) md_threads =
  t_ring :: "'a spsc"
  t_stop :: bool
  t_published :: u64
  t_dropped :: u64
  t_pc :: md_pc
  t_state :: 'c

definition new_threads :: "'a \<Rightarrow> nat \<Rightarrow> 'c \<Rightarrow> ('a, 'c) md_threads" where
  "new_threads x capacity c = \<lparr>t_ring = new_spsc x capacity, t_stop = False, t_published = 0, t_dropped = 0, t_pc = Polling, t_state = c\<rparr>"

text \<open>
  The producer publishes and at last stores the flag with release order: a call of \<^verbatim>\<open>publish\<close> that finds the
  ring full ends at its first step and is counted as dropped, another one ends with the store of the head.
\<close>

inductive producer_step :: "('a, 'c) md_threads \<Rightarrow> ('a, 'c) md_threads \<Rightarrow> bool" where
  full: "\<not> t_stop T \<Longrightarrow> push_step (t_ring T) R \<Longrightarrow> producer (t_ring T) = P_idle \<Longrightarrow> producer R = P_idle \<Longrightarrow>
    producer_step T (T\<lparr>t_ring := R, t_dropped := t_dropped T + 1\<rparr>)"
| going: "\<not> t_stop T \<Longrightarrow> push_step (t_ring T) R \<Longrightarrow> producer R \<noteq> P_idle \<Longrightarrow>
    producer_step T (T\<lparr>t_ring := R\<rparr>)"
| stored: "\<not> t_stop T \<Longrightarrow> push_step (t_ring T) R \<Longrightarrow> producer (t_ring T) \<noteq> P_idle \<Longrightarrow> producer R = P_idle \<Longrightarrow>
    producer_step T (T\<lparr>t_ring := R, t_published := t_published T + 1\<rparr>)"
| stop: "\<not> t_stop T \<Longrightarrow> producer (t_ring T) = P_idle \<Longrightarrow> producer_step T (T\<lparr>t_stop := True\<rparr>)"

text \<open>
  The consumer polls and looks at the flag.  The load of the flag may return false although it has been set
  (it is stale, or not yet set); when it returns true, the acquire load makes every store that came
  before the release store visible, the last one of the head among them.
\<close>

inductive consumer_step :: "('a \<Rightarrow> 'c \<Rightarrow> 'c) \<Rightarrow> ('a \<Rightarrow> 'c \<Rightarrow> 'c) \<Rightarrow> ('a, 'c) md_threads \<Rightarrow> ('a, 'c) md_threads \<Rightarrow> bool" for f g where
  empty: "t_pc T = Polling \<Longrightarrow> pop_step (t_ring T) R \<Longrightarrow> consumer (t_ring T) = C_idle \<Longrightarrow> consumer R = C_idle \<Longrightarrow>
    consumer_step f g T (T\<lparr>t_ring := R, t_pc := Checking\<rparr>)"
| going: "t_pc T \<in> {Polling, Draining} \<Longrightarrow> pop_step (t_ring T) R \<Longrightarrow> consumer R \<noteq> C_idle \<Longrightarrow>
    consumer_step f g T (T\<lparr>t_ring := R\<rparr>)"
| taken: "t_pc T = Polling \<Longrightarrow> pop_step (t_ring T) R \<Longrightarrow> consumer (t_ring T) \<noteq> C_idle \<Longrightarrow> consumer R = C_idle \<Longrightarrow>
    consumer_step f g T (T\<lparr>t_ring := R, t_state := f (last (popped R)) (t_state T)\<rparr>)"
| not_stopped: "t_pc T = Checking \<Longrightarrow> consumer_step f g T (T\<lparr>t_pc := Polling\<rparr>)"
| stopped: "t_pc T = Checking \<Longrightarrow> t_stop T \<Longrightarrow>
    consumer_step f g T (T\<lparr>t_ring := (t_ring T)\<lparr>head_seen := length (head_mo (t_ring T)) - 1\<rparr>, t_pc := Draining\<rparr>)"
| drained: "t_pc T = Draining \<Longrightarrow> pop_step (t_ring T) R \<Longrightarrow> consumer (t_ring T) \<noteq> C_idle \<Longrightarrow> consumer R = C_idle \<Longrightarrow>
    consumer_step f g T (T\<lparr>t_ring := R, t_state := g (last (popped R)) (t_state T)\<rparr>)"
| finish: "t_pc T = Draining \<Longrightarrow> pop_step (t_ring T) R \<Longrightarrow> consumer (t_ring T) = C_idle \<Longrightarrow> consumer R = C_idle \<Longrightarrow>
    consumer_step f g T (T\<lparr>t_ring := R, t_pc := Joined\<rparr>)"

inductive threads_reachable :: "('a \<Rightarrow> 'c \<Rightarrow> 'c) \<Rightarrow> ('a \<Rightarrow> 'c \<Rightarrow> 'c) \<Rightarrow> 'a \<Rightarrow> nat \<Rightarrow> 'c \<Rightarrow> ('a, 'c) md_threads \<Rightarrow> bool" for f g x n c where
  init: "threads_reachable f g x n c (new_threads x n c)"
| producer: "threads_reachable f g x n c T \<Longrightarrow> producer_step T U \<Longrightarrow> threads_reachable f g x n c U"
| consumer: "threads_reachable f g x n c T \<Longrightarrow> consumer_step f g T U \<Longrightarrow> threads_reachable f g x n c U"

section \<open>The invariant of the two threads\<close>

text \<open>What the consumer has made of the snapshots it has: \<open>xs\<close> in the loop, \<open>ys\<close> in the draining loop.\<close>

definition consumed :: "('a \<Rightarrow> 'c \<Rightarrow> 'c) \<Rightarrow> ('a \<Rightarrow> 'c \<Rightarrow> 'c) \<Rightarrow> 'c \<Rightarrow> bool \<Rightarrow> 'a list \<Rightarrow> 'c \<Rightarrow> bool" where
  "consumed f g c draining got r \<longleftrightarrow> (\<exists>xs ys. got = xs @ ys \<and> (draining \<or> ys = []) \<and> r = fold g ys (fold f xs c))"

fun pc_ok :: "md_pc \<Rightarrow> bool \<Rightarrow> 'a spsc \<Rightarrow> bool" where
  "pc_ok Polling stop s = True"
| "pc_ok Checking stop s \<longleftrightarrow> consumer s = C_idle"
| "pc_ok Draining stop s \<longleftrightarrow> stop \<and> head_seen s = length (pushed s)"
| "pc_ok Joined stop s \<longleftrightarrow> stop \<and> popped s = pushed s"

definition threads_inv :: "('a \<Rightarrow> 'c \<Rightarrow> 'c) \<Rightarrow> ('a \<Rightarrow> 'c \<Rightarrow> 'c) \<Rightarrow> nat \<Rightarrow> 'c \<Rightarrow> ('a, 'c) md_threads \<Rightarrow> bool" where
  "threads_inv f g n c T \<longleftrightarrow> spsc_inv n (t_ring T) \<and> pc_ok (t_pc T) (t_stop T) (t_ring T) \<and>
     (t_stop T \<longrightarrow> producer (t_ring T) = P_idle) \<and> t_published T = of_nat (length (pushed (t_ring T))) \<and>
     consumed f g c (t_pc T \<in> {Draining, Joined}) (popped (t_ring T)) (t_state T)"

lemma threads_inv_new: "is_pow2 n \<Longrightarrow> threads_inv f g n c (new_threads x n c)"
  using spsc_inv_new [of n x] by (simp add: threads_inv_def new_threads_def consumed_def) (simp add: new_spsc_def)

lemma consumer_ok_idle: "c = C_idle \<Longrightarrow> consumer_ok n t v ps c"
  by simp

text \<open>A poll that finds the ring empty although it sees every store has taken everything.\<close>

lemma empty_means_all:
  assumes "spsc_inv n s" "pop_step s s'" "consumer s = C_idle" "consumer s' = C_idle" "head_seen s = length (pushed s)"
  shows "popped s' = pushed s'"
proof -
  note I = assms(1) [unfolded spsc_inv_def Let_def]
  from assms(2) show ?thesis
  proof cases
    case (empty j)
    with I assms(5) have "j = length (pushed s)" "length (popped s) mod n = j mod n" by auto
    with I mod_eq_near [of "length (popped s)" j n] have "length (popped s) = length (pushed s)" by auto
    with I empty(1) show ?thesis by simp
  qed (use assms(3,4) in auto)
qed

lemma consumed_more:
  "consumed f g c False got r \<Longrightarrow> consumed f g c False (got @ [x]) (f x r)"
  "consumed f g c True got r \<Longrightarrow> consumed f g c True (got @ [x]) (g x r)"
  unfolding consumed_def by (auto, metis append.assoc fold_append fold_simps o_apply)

lemma consumed_draining: "consumed f g c False got r \<Longrightarrow> consumed f g c True got r"
  unfolding consumed_def by blast

lemma producer_step_inv:
  assumes "producer_step T U" "threads_inv f g n c T"
  shows "threads_inv f g n c U"
proof -
  have pc: "t_pc T \<in> {Polling, Checking}" if "\<not> t_stop T" using that assms(2) by (cases "t_pc T") (auto simp: threads_inv_def)
  from assms(1) show ?thesis
  proof cases
    case (full R)
    with pc push_step_frame [OF full(3)] push_step_inv [OF full(3), of n] assms(2) show ?thesis by (auto simp: threads_inv_def)
  next
    case (going R)
    with pc push_step_frame [OF going(3)] push_step_inv [OF going(3), of n] assms(2) show ?thesis by (auto simp: threads_inv_def)
  next
    case (stored R)
    then obtain y where "pushed R = pushed (t_ring T) @ [y]" using push_step_frame [OF stored(3)] by auto
    with stored pc push_step_frame [OF stored(3)] push_step_inv [OF stored(3), of n] assms(2) show ?thesis by (auto simp: threads_inv_def)
  next
    case stop
    with pc assms(2) show ?thesis by (auto simp: threads_inv_def)
  qed
qed

lemma consumer_step_inv:
  assumes "consumer_step f g T U" "threads_inv f g n c T"
  shows "threads_inv f g n c U"
proof -
  have I: "spsc_inv n (t_ring T)" using assms(2) by (simp add: threads_inv_def)
  have seen: "head_seen R = length (pushed R)"
    if "pop_step (t_ring T) R" "head_seen (t_ring T) = length (pushed (t_ring T))" for R
    using that pop_step_frame [OF that(1)] pop_step_inv [OF that(1) I] by (auto simp: spsc_inv_def Let_def)
  from assms(1) show ?thesis
  proof cases
    case (empty R)
    with pop_step_frame [OF empty(3)] pop_step_inv [OF empty(3), of n] assms(2) show ?thesis by (auto simp: threads_inv_def)
  next
    case (going R)
    with pop_step_frame [OF going(3)] pop_step_inv [OF going(3), of n] seen [OF going(3)] assms(2) show ?thesis by (auto simp: threads_inv_def)
  next
    case (taken R)
    then obtain y where "popped R = popped (t_ring T) @ [y]" using pop_step_frame [OF taken(3)] by auto
    with taken pop_step_frame [OF taken(3)] pop_step_inv [OF taken(3), of n] assms(2) consumed_more(1) show ?thesis by (fastforce simp: threads_inv_def)
  next
    case not_stopped
    with assms(2) show ?thesis by (auto simp: threads_inv_def)
  next
    case stopped
    with assms(2) consumed_draining show ?thesis by (auto simp: threads_inv_def spsc_inv_def Let_def intro: consumer_ok_idle)
  next
    case (drained R)
    then obtain y where "popped R = popped (t_ring T) @ [y]" using pop_step_frame [OF drained(3)] by auto
    with drained pop_step_frame [OF drained(3)] pop_step_inv [OF drained(3), of n] seen [OF drained(3)] assms(2) consumed_more(2)
    show ?thesis by (fastforce simp: threads_inv_def)
  next
    case (finish R)
    with pop_step_frame [OF finish(3)] pop_step_inv [OF finish(3), of n] empty_means_all [OF I finish(3-5)] assms(2)
    show ?thesis by (auto simp: threads_inv_def)
  qed
qed

lemma threads_reachable_inv: "threads_reachable f g x n c T \<Longrightarrow> is_pow2 n \<Longrightarrow> threads_inv f g n c T"
  by (induction rule: threads_reachable.induct) (auto intro: threads_inv_new producer_step_inv consumer_step_inv)

text \<open>What a consumer that treats all snapshots alike has at the end.\<close>

lemma consumed_alike: "consumed f f c d got r \<Longrightarrow> r = fold f got c"
  by (auto simp: consumed_def)

lemma joined_fold:
  assumes "is_pow2 n" "threads_reachable f f x n c T" "t_pc T = Joined"
  shows "t_state T = fold f (pushed (t_ring T)) c" "t_published T = of_nat (length (pushed (t_ring T)))"
  using threads_reachable_inv [OF assms(2,1)] assms(3) by (auto simp: threads_inv_def dest: consumed_alike)

section \<open>The consumer can always finish\<close>

text \<open>The steps that a draining consumer has left: three for each snapshot, and the last poll.\<close>

fun pop_left :: "'a consumer_pc \<Rightarrow> nat" where
  "pop_left C_idle = 3"
| "pop_left (C_read i) = 2"
| "pop_left (C_store y i) = 1"

definition ring_left :: "'a spsc \<Rightarrow> nat" where
  "ring_left s = 3 * (length (pushed s) - length (popped s)) + pop_left (consumer s)"

definition drain_left :: "('a, 'c) md_threads \<Rightarrow> nat" where
  "drain_left T = (if t_pc T = Joined then 0 else ring_left (t_ring T))"

lemma pop_step_left:
  assumes "pop_step s s'" "spsc_inv n s" "\<not> (consumer s = C_idle \<and> consumer s' = C_idle)"
  shows "ring_left s' < ring_left s"
  using assms by cases (auto simp: spsc_inv_def Let_def ring_left_def)

lemma ring_left_pos: "0 < ring_left s"
  by (cases "consumer s") (simp_all add: ring_left_def)

lemma drain_step_left:
  assumes "consumer_step f g T U" "threads_inv f g n c T" "t_pc T = Draining"
  shows "drain_left U < drain_left T"
proof -
  have I: "spsc_inv n (t_ring T)" using assms(2) by (simp add: threads_inv_def)
  from assms(1) show ?thesis
  proof cases
    case (going R)
    with pop_step_left [OF going(3) I] show ?thesis by (auto simp: drain_left_def)
  next
    case (drained R)
    with pop_step_left [OF drained(3) I] show ?thesis by (auto simp: drain_left_def)
  next
    case (finish R)
    then show ?thesis by (simp add: drain_left_def ring_left_pos)
  qed (use assms(3) in auto)
qed

text \<open>Where a loop goes when a poll fails.\<close>

fun loop_exit :: "md_pc \<Rightarrow> md_pc" where
  "loop_exit Polling = Checking"
| "loop_exit Draining = Joined"
| "loop_exit pc = pc"

lemma loop_step_possible:
  assumes "threads_inv f g n c T" "t_pc T \<in> {Polling, Draining}"
  shows "\<exists>U. consumer_step f g T U \<and> t_stop U = t_stop T \<and>
    (t_pc U = t_pc T \<and> ring_left (t_ring U) < ring_left (t_ring T) \<or> t_pc U = loop_exit (t_pc T))"
proof -
  have I: "spsc_inv n (t_ring T)" using assms(1) by (simp add: threads_inv_def)
  from pop_step_possible [OF I] obtain R where R: "pop_step (t_ring T) R" by blast
  note left = pop_step_left [OF R I]
  consider "consumer R \<noteq> C_idle" | "consumer R = C_idle" "consumer (t_ring T) = C_idle" | "consumer R = C_idle" "consumer (t_ring T) \<noteq> C_idle" by blast
  then show ?thesis
  proof cases
    case 1
    with consumer_step.going [OF assms(2) R, of f g] left show ?thesis by fastforce
  next
    case 2
    with assms(2) consumer_step.empty [OF _ R 2(2,1), of f g] consumer_step.finish [OF _ R 2(2,1), of f g] show ?thesis by fastforce
  next
    case 3
    with assms(2) consumer_step.taken [OF _ R 3(2,1), of f g] consumer_step.drained [OF _ R 3(2,1), of f g] left show ?thesis by fastforce
  qed
qed

lemma loop_ends:
  assumes "threads_inv f g n c T" "t_pc T \<in> {Polling, Draining}"
  shows "\<exists>U. (consumer_step f g)\<^sup>*\<^sup>* T U \<and> t_stop U = t_stop T \<and> t_pc U = loop_exit (t_pc T) \<and> threads_inv f g n c U"
  using assms
proof (induction "ring_left (t_ring T)" arbitrary: T rule: less_induct)
  case less
  from loop_step_possible [OF less.prems] obtain U where U: "consumer_step f g T U" "t_stop U = t_stop T"
    "t_pc U = t_pc T \<and> ring_left (t_ring U) < ring_left (t_ring T) \<or> t_pc U = loop_exit (t_pc T)" by blast
  note inv = consumer_step_inv [OF U(1) less.prems(1)]
  show ?case
  proof (cases "t_pc U = loop_exit (t_pc T)")
    case False
    with U(3) less.prems(2) less.hyps [OF _ inv] obtain V where "(consumer_step f g)\<^sup>*\<^sup>* U V" "t_stop V = t_stop U"
      "t_pc V = loop_exit (t_pc U)" "threads_inv f g n c V" by auto
    with U False show ?thesis by (metis converse_rtranclp_into_rtranclp)
  qed (use U(1,2) inv in blast)
qed

lemma stopped_joins:
  assumes "threads_inv f g n c T" "t_stop T"
  shows "\<exists>U. (consumer_step f g)\<^sup>*\<^sup>* T U \<and> t_pc U = Joined"
proof -
  have drain: "\<exists>U. (consumer_step f g)\<^sup>*\<^sup>* V U \<and> t_pc U = Joined" if "threads_inv f g n c V" "t_pc V = Draining" for V
    using loop_ends [OF that(1)] that(2) by fastforce
  have check: "\<exists>U. (consumer_step f g)\<^sup>*\<^sup>* V U \<and> t_pc U = Joined" if V: "threads_inv f g n c V" "t_pc V = Checking" "t_stop V" for V
  proof -
    note step = consumer_step.stopped [OF V(2,3), of f g]
    from drain [OF consumer_step_inv [OF step V(1)]] step show ?thesis by (auto intro: converse_rtranclp_into_rtranclp)
  qed
  show ?thesis
  proof (cases "t_pc T")
    case Polling
    with loop_ends [OF assms(1)] assms(2) obtain V where "(consumer_step f g)\<^sup>*\<^sup>* T V" "t_stop V" "t_pc V = Checking" "threads_inv f g n c V" by auto
    with check show ?thesis by (meson rtranclp_trans)
  qed (use assms check drain in auto)
qed

section \<open>A turn is a run of the steps\<close>

text \<open>
  The turn-by-turn view is a run of the two threads: the publisher's ring is what an idle thread sees, and the
  two agree on the consumer.
\<close>

definition at_call :: "nat \<Rightarrow> ('a, 'c) md_threads \<Rightarrow> bool" where
  "at_call n T \<longleftrightarrow> spsc_inv n (t_ring T) \<and> producer (t_ring T) = P_idle \<and> consumer (t_ring T) = C_idle"

definition seen_as :: "(book_signals, 'c) md_threads \<Rightarrow> publisher \<Rightarrow> md_pc \<Rightarrow> 'c \<Rightarrow> bool" where
  "seen_as T P pc c \<longleftrightarrow> snapshot (t_ring T) = pub_ring P \<and> t_published T = published P \<and> t_dropped T = dropped P \<and> t_pc T = pc \<and> t_state T = c"

lemma publish_is_run:
  assumes T: "at_call n T" "seen_as T P pc c" "\<not> t_stop T" and run: "publish s P = Some (ok, P')"
  shows "\<exists>U. producer_step\<^sup>*\<^sup>* T U \<and> at_call n U \<and> seen_as U P' pc c \<and> \<not> t_stop U"
proof -
  from run obtain R where R: "try_push s (snapshot (t_ring T)) = Some (ok, R)"
    "P' = (if ok then P\<lparr>pub_ring := R, published := published P + 1\<rparr> else P\<lparr>pub_ring := R, dropped := dropped P + 1\<rparr>)"
    using T(2) by (auto simp: publish_def seen_as_def bind_eq_Some_iff split: if_splits)
  have I: "spsc_inv n (t_ring T)" "producer (t_ring T) = P_idle" using T(1) by (simp_all add: at_call_def)
  show ?thesis
  proof (cases ok)
    case True
    with push_call [OF I R(1)] obtain s1 s2 s3 where
      s: "push_step (t_ring T) s1" "push_step s1 s2" "push_step s2 s3" "producer s1 \<noteq> P_idle" "producer s2 \<noteq> P_idle" "producer s3 = P_idle"
        "snapshot s3 = R" by auto
    let ?T1 = "T\<lparr>t_ring := s1\<rparr>" and ?T2 = "T\<lparr>t_ring := s2\<rparr>" and ?T3 = "T\<lparr>t_ring := s3, t_published := t_published T + 1\<rparr>"
    have "producer_step T ?T1" "producer_step ?T1 ?T2" "producer_step ?T2 ?T3"
      using producer_step.going [of T s1] producer_step.going [of ?T1 s2] producer_step.stored [of ?T2 s3] T(3) s by simp_all
    then have "producer_step\<^sup>*\<^sup>* T ?T3" by (meson converse_rtranclp_into_rtranclp rtranclp.rtrancl_refl)
    moreover have "at_call n ?T3"
      using s T(1) push_step_inv [OF s(3) push_step_inv [OF s(2) push_step_inv [OF s(1) I(1)]]]
        push_step_frame [OF s(1)] push_step_frame [OF s(2)] push_step_frame [OF s(3)] by (simp add: at_call_def)
    ultimately show ?thesis using R(2) s(7) T(2,3) True by (intro exI [of _ ?T3]) (simp add: seen_as_def)
  next
    case False
    with push_call [OF I R(1)] obtain s1 where s: "push_step (t_ring T) s1" "producer s1 = P_idle" "snapshot s1 = R" by auto
    let ?U = "T\<lparr>t_ring := s1, t_dropped := t_dropped T + 1\<rparr>"
    have "producer_step T ?U" by (rule producer_step.full [OF T(3) s(1) I(2) s(2)])
    moreover have "at_call n ?U" using s T(1) push_step_inv [OF s(1) I(1)] push_step_frame [OF s(1)] by (simp add: at_call_def)
    ultimately show ?thesis using R(2) s(3) T(2,3) False by (intro exI [of _ ?U]) (simp add: seen_as_def)
  qed
qed

lemma poll_is_run:
  assumes T: "at_call n T" "seen_as T P pc c" "pc \<in> {Polling, Draining}" and run: "poll P = Some (y, P')"
  shows "\<exists>U. (consumer_step f g)\<^sup>*\<^sup>* T U \<and> at_call n U \<and> t_stop U = t_stop T \<and>
    (case y of Some s \<Rightarrow> seen_as U P' pc (if pc = Polling then f s c else g s c) | None \<Rightarrow> seen_as U P' (loop_exit pc) c)"
proof -
  from run obtain R where R: "try_pop (snapshot (t_ring T)) = Some (y, R)" "P' = P\<lparr>pub_ring := R\<rparr>"
    using T(2) by (auto simp: poll_def seen_as_def bind_eq_Some_iff)
  have I: "spsc_inv n (t_ring T)" "consumer (t_ring T) = C_idle" and pc: "t_pc T = pc" using T(1,2) by (simp_all add: at_call_def seen_as_def)
  show ?thesis
  proof (cases y)
    case (Some x)
    with pop_call [OF I R(1)] obtain s1 s2 s3 where
      s: "pop_step (t_ring T) s1" "pop_step s1 s2" "pop_step s2 s3" "consumer s1 \<noteq> C_idle" "consumer s2 \<noteq> C_idle" "consumer s3 = C_idle"
        "snapshot s3 = R" "popped s3 = popped (t_ring T) @ [x]" by auto
    let ?T1 = "T\<lparr>t_ring := s1\<rparr>" and ?T2 = "T\<lparr>t_ring := s2\<rparr>"
    let ?T3 = "T\<lparr>t_ring := s3, t_state := (if pc = Polling then f x c else g x c)\<rparr>"
    have "consumer_step f g T ?T1" "consumer_step f g ?T1 ?T2"
      using consumer_step.going [of T s1 f g] consumer_step.going [of ?T1 s2 f g] T(3) pc s by simp_all
    moreover have "consumer_step f g ?T2 ?T3"
      using consumer_step.taken [of ?T2 s3 f g] consumer_step.drained [of ?T2 s3 f g] T(2,3) pc s by (auto simp: seen_as_def)
    ultimately have "(consumer_step f g)\<^sup>*\<^sup>* T ?T3" by (meson converse_rtranclp_into_rtranclp rtranclp.rtrancl_refl)
    moreover have "at_call n ?T3"
      using s T(1) pop_step_inv [OF s(3) pop_step_inv [OF s(2) pop_step_inv [OF s(1) I(1)]]]
        pop_step_frame [OF s(1)] pop_step_frame [OF s(2)] pop_step_frame [OF s(3)] by (simp add: at_call_def)
    ultimately show ?thesis using R(2) s(7) T(2) Some by (intro exI [of _ ?T3]) (simp add: seen_as_def)
  next
    case None
    with pop_call [OF I R(1)] obtain s1 where s: "pop_step (t_ring T) s1" "consumer s1 = C_idle" "snapshot s1 = R" by auto
    let ?U = "T\<lparr>t_ring := s1, t_pc := loop_exit pc\<rparr>"
    have "consumer_step f g T ?U"
      using consumer_step.empty [of T s1 f g] consumer_step.finish [of T s1 f g] T(3) pc s I(2) by auto
    moreover have "at_call n ?U" using s T(1) pop_step_inv [OF s(1) I(1)] pop_step_frame [OF s(1)] by (simp add: at_call_def)
    ultimately show ?thesis using R(2) s(3) T(2) None by (intro exI [of _ ?U]) (auto simp: seen_as_def)
  qed
qed

lemma turn_is_run:
  assumes T: "at_call n T" "seen_as T P pc c" "stop \<longrightarrow> t_stop T" and run: "consumer_turn f g stop P pc c = Some (P', pc', c')"
  shows "\<exists>U. (consumer_step f g)\<^sup>*\<^sup>* T U \<and> at_call n U \<and> t_stop U = t_stop T \<and> seen_as U P' pc' c'"
proof -
  have loop: ?thesis if "pc \<in> {Polling, Draining}"
  proof -
    from that run obtain y Q where Q: "poll P = Some (y, Q)" by (cases "poll P") (auto simp: consumer_turn_def)
    from poll_is_run [OF T(1,2) that Q, of f g] that run Q show ?thesis by (cases y) (auto simp: consumer_turn_def)
  qed
  have check: ?thesis if "pc = Checking"
  proof (cases stop)
    case True
    let ?U = "T\<lparr>t_ring := (t_ring T)\<lparr>head_seen := length (head_mo (t_ring T)) - 1\<rparr>, t_pc := Draining\<rparr>"
    have "consumer_step f g T ?U" using consumer_step.stopped [of T f g] True T that by (simp add: seen_as_def)
    moreover have "at_call n ?U" using T(1) by (auto simp: at_call_def spsc_inv_def Let_def)
    moreover have "seen_as ?U P' pc' c'" using T(2) run True that by (auto simp: seen_as_def consumer_turn_def snapshot_def)
    ultimately show ?thesis by (intro exI [of _ ?U]) auto
  next
    case False
    have "consumer_step f g T (T\<lparr>t_pc := Polling\<rparr>)" using consumer_step.not_stopped [of T f g] T(2) that by (simp add: seen_as_def)
    with T run False that show ?thesis by (intro exI [of _ "T\<lparr>t_pc := Polling\<rparr>"]) (auto simp: seen_as_def at_call_def consumer_turn_def)
  qed
  show ?thesis
  proof (cases pc)
    case Joined
    with T run show ?thesis by (auto simp: consumer_turn_def)
  qed (use loop check in auto)
qed

lemma producer_steps_reachable: "producer_step\<^sup>*\<^sup>* T U \<Longrightarrow> threads_reachable f g x n c T \<Longrightarrow> threads_reachable f g x n c U"
  by (induction rule: rtranclp_induct) (auto intro: threads_reachable.producer)

lemma consumer_steps_reachable: "(consumer_step f g)\<^sup>*\<^sup>* T U \<Longrightarrow> threads_reachable f g x n c T \<Longrightarrow> threads_reachable f g x n c U"
  by (induction rule: rtranclp_induct) (auto intro: threads_reachable.consumer)

lemma consumer_steps_pushed: "(consumer_step f g)\<^sup>*\<^sup>* T U \<Longrightarrow> pushed (t_ring U) = pushed (t_ring T)"
proof (induction rule: rtranclp_induct)
  case (step U V)
  from step(2) have "pushed (t_ring V) = pushed (t_ring U)" by cases (auto dest: pop_step_frame)
  with step.IH show ?case by simp
qed simp

section \<open>The turns keep the order\<close>

text \<open>
  Of the snapshots \<open>sent\<close> the consumer has taken \<open>got\<close> and the others are waiting; when it has returned,
  none is.
\<close>

definition consumer_at :: "(book_signals \<Rightarrow> 'c \<Rightarrow> 'c) \<Rightarrow> (book_signals \<Rightarrow> 'c \<Rightarrow> 'c) \<Rightarrow> 'c \<Rightarrow> book_signals list \<Rightarrow> book_signals list \<Rightarrow> publisher \<Rightarrow> md_pc \<Rightarrow> 'c \<Rightarrow> bool" where
  "consumer_at f g c0 sent got P pc c \<longleftrightarrow> pub_inv P \<and> sent = got @ waiting P \<and> consumed f g c0 (pc \<in> {Draining, Joined}) got c \<and>
     (pc = Joined \<longrightarrow> waiting P = [])"

definition same_counts :: "publisher \<Rightarrow> publisher \<Rightarrow> bool" where
  "same_counts P Q \<longleftrightarrow> usable (pub_ring P) = usable (pub_ring Q) \<and> published P = published Q \<and> dropped P = dropped Q"

lemma same_counts_refl [simp]: "same_counts P P"
  by (simp add: same_counts_def)

lemma same_counts_trans: "same_counts P Q \<Longrightarrow> same_counts Q R \<Longrightarrow> same_counts P R"
  by (simp add: same_counts_def)

fun turns_left :: "md_pc \<Rightarrow> nat \<Rightarrow> nat" where
  "turns_left Polling n = n + 3"
| "turns_left Checking n = n + 2"
| "turns_left Draining n = n + 1"
| "turns_left Joined n = 0"

lemma poll_empty:
  assumes "pub_inv P" "waiting P = []"
  shows "\<exists>Q. poll P = Some (None, Q) \<and> pub_inv Q \<and> waiting Q = [] \<and> same_counts Q P"
  using poll_ok [OF assms(1)] assms(2) by (auto simp: same_counts_def)

lemma poll_next:
  assumes "pub_inv P" "waiting P = s # rest"
  shows "\<exists>Q. poll P = Some (Some s, Q) \<and> pub_inv Q \<and> waiting Q = rest \<and> same_counts Q P"
  using poll_ok [OF assms(1)] assms(2) by (auto simp: same_counts_def)

lemma consumer_turn_ok:
  assumes "consumer_at f g c0 sent got P pc c"
  shows "\<exists>P' pc' c' got'. consumer_turn f g stop P pc c = Some (P', pc', c') \<and> consumer_at f g c0 sent got' P' pc' c' \<and> same_counts P' P \<and>
    (stop \<longrightarrow> pc \<noteq> Joined \<longrightarrow> turns_left pc' (length (waiting P')) < turns_left pc (length (waiting P)))"
proof -
  from assms have I: "pub_inv P" "sent = got @ waiting P" "consumed f g c0 (pc \<in> {Draining, Joined}) got c" by (simp_all add: consumer_at_def)
  have loop: ?thesis if pc: "pc \<in> {Polling, Draining}"
  proof (cases "waiting P")
    case Nil
    with poll_empty [OF I(1)] obtain Q where Q: "poll P = Some (None, Q)" "pub_inv Q" "waiting Q = []" "same_counts Q P" by blast
    then have "consumer_turn f g stop P pc c = Some (Q, loop_exit pc, c)" using pc by (auto simp: consumer_turn_def)
    moreover have "consumer_at f g c0 sent got Q (loop_exit pc) c" using Q I Nil pc by (auto simp: consumer_at_def)
    moreover have "turns_left (loop_exit pc) (length (waiting Q)) < turns_left pc (length (waiting P))" using Q(3) pc by auto
    ultimately show ?thesis using Q(4) by blast
  next
    case (Cons s rest)
    with poll_next [OF I(1)] obtain Q where Q: "poll P = Some (Some s, Q)" "pub_inv Q" "waiting Q = rest" "same_counts Q P" by blast
    let ?c = "if pc = Polling then f s c else g s c"
    have "consumer_turn f g stop P pc c = Some (Q, pc, ?c)" using Q(1) pc by (auto simp: consumer_turn_def)
    moreover have "consumer_at f g c0 sent (got @ [s]) Q pc ?c" using Q I Cons pc consumed_more [of f g c0 got c s] by (auto simp: consumer_at_def)
    moreover have "turns_left pc (length (waiting Q)) < turns_left pc (length (waiting P))" using Q(3) Cons pc by auto
    ultimately show ?thesis using Q(4) by blast
  qed
  show ?thesis
  proof (cases pc)
    case Checking
    with I consumed_draining [of f g c0 got c]
    have "consumer_turn f g stop P pc c = Some (P, if stop then Draining else Polling, c)" "consumer_at f g c0 sent got P (if stop then Draining else Polling) c"
      by (auto simp: consumer_turn_def consumer_at_def)
    with Checking show ?thesis by (intro exI [of _ P] exI [of _ "if stop then Draining else Polling"] exI [of _ c] exI [of _ got]) auto
  next
    case Joined
    with assms show ?thesis by (auto simp: consumer_turn_def)
  qed (use loop in auto)
qed

lemma consumer_turns_ok:
  assumes "consumer_at f g c0 sent got P pc c"
  shows "\<exists>P' pc' c' got'. consumer_turns f g n P pc c = Some (P', pc', c') \<and> consumer_at f g c0 sent got' P' pc' c' \<and> same_counts P' P"
  using assms
proof (induction n arbitrary: got P pc c)
  case (Suc n)
  from consumer_turn_ok [OF Suc.prems, of False] obtain Q pc' c' got' where
    Q: "consumer_turn f g False P pc c = Some (Q, pc', c')" "consumer_at f g c0 sent got' Q pc' c'" "same_counts Q P" by blast
  from Suc.IH [OF Q(2)] Q(1,3) show ?case by (auto intro: same_counts_trans)
qed auto

lemma turns_running:
  assumes "consumer_turns f g n P pc c = Some (P', pc', c')" "pc \<in> {Polling, Checking}"
  shows "pc' \<in> {Polling, Checking}"
  using assms
proof (induction n arbitrary: P pc c)
  case (Suc n)
  then obtain Q pc1 c1 where Q: "consumer_turn f g False P pc c = Some (Q, pc1, c1)" "consumer_turns f g n Q pc1 c1 = Some (P', pc', c')"
    by (auto simp: bind_eq_Some_iff)
  moreover have "pc1 \<in> {Polling, Checking}" using Q(1) Suc.prems(2) by (auto simp: consumer_turn_def bind_eq_Some_iff split: option.splits)
  ultimately show ?case using Suc.IH by blast
qed simp

lemma consumer_finish_ok:
  assumes "consumer_at f g c0 sent got P pc c"
  shows "\<exists>P' c'. consumer_finish f g P pc c = Some (P', c') \<and> consumer_at f g c0 sent sent P' Joined c' \<and> same_counts P' P"
  using assms
proof (induction "turns_left pc (length (waiting P))" arbitrary: got P pc c rule: less_induct)
  case less
  show ?case
  proof (cases "pc = Joined")
    case True
    with less.prems show ?thesis by (subst consumer_finish.simps) (auto simp: consumer_at_def)
  next
    case False
    from consumer_turn_ok [OF less.prems, of True] False obtain Q pc' c' got' where
      Q: "consumer_turn f g True P pc c = Some (Q, pc', c')" "consumer_at f g c0 sent got' Q pc' c'" "same_counts Q P"
        "turns_left pc' (length (waiting Q)) < turns_left pc (length (waiting P))" by blast
    from less.hyps [OF Q(4,2)] Q(1,3) False show ?thesis by (subst consumer_finish.simps) (auto intro: same_counts_trans)
  qed
qed

section \<open>Interleaved calls are runs\<close>

lemma stop_is_run:
  assumes "at_call n T" "seen_as T P pc c"
  shows "\<exists>U. producer_step\<^sup>*\<^sup>* T U \<and> at_call n U \<and> seen_as U P pc c \<and> t_stop U"
proof (cases "t_stop T")
  case False
  then have "producer_step T (T\<lparr>t_stop := True\<rparr>)" using assms(1) by (intro producer_step.stop) (simp_all add: at_call_def)
  with assms show ?thesis by (intro exI [of _ "T\<lparr>t_stop := True\<rparr>"]) (auto simp: at_call_def seen_as_def)
qed (use assms in blast)

lemma md_exec_is_run:
  assumes "threads_reachable f g x n c0 T" "at_call n T" "seen_as T P pc c" "t_stop T = stop" "stop \<longrightarrow> todo = []"
    and "consumer_at f g c0 sent got P pc c"
  shows "\<exists>stop' P' pc' c' U. md_exec f g sched todo stop P pc c = Some (stop', P', pc', c') \<and> threads_reachable f g x n c0 U \<and>
    at_call n U \<and> seen_as U P' pc' c' \<and> t_stop U = stop'"
  using assms
proof (induction f g sched todo stop P pc c arbitrary: T sent got rule: md_exec.induct)
  case (2 f g sched stop P pc c)
  from stop_is_run [OF 2(3,4)] obtain U where U: "producer_step\<^sup>*\<^sup>* T U" "at_call n U" "seen_as U P pc c" "t_stop U" by blast
  from 2(1) [OF producer_steps_reachable [OF U(1) 2(2)] U(2,3)] U(4) 2(7) show ?case by simp
next
  case (3 f g sched s todo stop P pc c)
  then have ns: "\<not> t_stop T" "\<not> stop" by simp_all
  from 3(7) have "pub_inv P" by (simp add: consumer_at_def)
  from publish_ok [OF this, of s] obtain ok Q where Q: "publish s P = Some (ok, Q)" "pub_inv Q" "waiting Q = waiting P @ (if ok then [s] else [])" by blast
  from publish_is_run [OF 3(3,4) ns(1) Q(1)] obtain U where U: "producer_step\<^sup>*\<^sup>* T U" "at_call n U" "seen_as U Q pc c" "\<not> t_stop U" by blast
  note R = producer_steps_reachable [OF U(1) 3(2)]
  have "is_pow2 n" using U(2) by (simp add: at_call_def spsc_inv_def Let_def)
  from threads_reachable_inv [OF R this] U(3,4) have "pc \<noteq> Joined" by (auto simp: threads_inv_def seen_as_def)
  with 3(7) Q(2,3) have "consumer_at f g c0 (sent @ (if ok then [s] else [])) got Q pc c" by (auto simp: consumer_at_def)
  from 3(1) [OF Q(1) refl R U(2,3) _ _ this] U(4) ns(2) Q(1) show ?case by simp
next
  case (4 f g sched todo stop P pc c)
  from consumer_turn_ok [OF 4(7), of stop] obtain Q pc' c' got' where
    Q: "consumer_turn f g stop P pc c = Some (Q, pc', c')" "consumer_at f g c0 sent got' Q pc' c'" by blast
  have "stop \<longrightarrow> t_stop T" using 4(5) by simp
  from turn_is_run [OF 4(3,4) this Q(1)] obtain U where
    U: "(consumer_step f g)\<^sup>*\<^sup>* T U" "at_call n U" "t_stop U = t_stop T" "seen_as U Q pc' c'" by blast
  from 4(1) [OF Q(1) refl refl consumer_steps_reachable [OF U(1) 4(2)] U(2,4) _ 4(6) Q(2)] U(3) 4(5) Q(1) show ?case by simp
qed auto

lemma at_call_new:
  assumes "is_pow2 n"
  shows "at_call n (new_threads new_signals n c)" "seen_as (new_threads new_signals n c) (new_publisher n) Polling c" "\<not> t_stop (new_threads new_signals n c)"
  using spsc_inv_new [OF assms, of new_signals]
  by (simp_all add: at_call_def seen_as_def new_threads_def new_publisher_def snapshot_def new_ring_def) (simp_all add: new_spsc_def)

text \<open>
  The two threads interleaved call by call are a run of their steps: for every list of snapshots and every
  schedule the calls return, and the publisher, the flag, the consumer's place and its state are those of a reachable state.
\<close>

theorem calls_are_runs:
  assumes "is_pow2 n"
  shows "\<exists>stop P pc r T. md_exec f g sched todo False (new_publisher n) Polling c = Some (stop, P, pc, r) \<and>
    threads_reachable f g new_signals n c T \<and> t_stop T = stop \<and> seen_as T P pc r"
proof -
  have "consumer_at f g c [] [] (new_publisher n) Polling c"
    using pub_inv_new [OF assms] by (simp add: consumer_at_def consumed_def) (simp add: new_publisher_def)
  from md_exec_is_run [OF threads_reachable.init at_call_new(1,2) [OF assms] _ _ this, of False todo sched] at_call_new(3) [OF assms]
  show ?thesis by fastforce
qed

section \<open>Properties\<close>

text \<open>
  C18.  Nothing is lost at shutdown: in every interleaving of the two threads, however stale the
  values they load, a consumer thread that has returned has seen the stop flag and has taken every snapshot that
  the producer ever put into the ring, in order, each exactly once: those up to some point in its loop, the
  others in the draining loop.  Their number is the producer's count of the published ones.
\<close>

theorem stop_loses_nothing:
  assumes "is_pow2 n" "threads_reachable f g x n c T" "t_pc T = Joined"
  shows "t_stop T \<and> popped (t_ring T) = pushed (t_ring T) \<and> t_published T = of_nat (length (pushed (t_ring T))) \<and>
    (\<exists>xs ys. pushed (t_ring T) = xs @ ys \<and> t_state T = fold g ys (fold f xs c))"
proof -
  from threads_reachable_inv [OF assms(2,1)] assms(3) have "consumed f g c True (pushed (t_ring T)) (t_state T)" by (auto simp: threads_inv_def)
  then show ?thesis using threads_reachable_inv [OF assms(2,1)] assms(3) by (simp add: threads_inv_def consumed_def)
qed

text \<open>
  C19.  The thread can be joined: once the flag is set, the consumer can return by its own steps from
  every state, with the producer gone; and when it has seen the flag, it returns whatever values its loads give,
  since it can always take a step and each one leaves fewer of them.
\<close>

theorem consumer_returns:
  assumes "is_pow2 n" "threads_reachable f g x n c T" "t_stop T"
  shows "(\<exists>U. (consumer_step f g)\<^sup>*\<^sup>* T U \<and> t_pc U = Joined) \<and>
    (t_pc T = Draining \<longrightarrow> (\<exists>U. consumer_step f g T U) \<and> (\<forall>U. consumer_step f g T U \<longrightarrow> drain_left U < drain_left T))"
proof -
  note inv = threads_reachable_inv [OF assms(2,1)]
  have "\<exists>U. consumer_step f g T U" if "t_pc T = Draining" using loop_step_possible [OF inv] that by blast
  with stopped_joins [OF inv assms(3)] drain_step_left [OF _ inv] show ?thesis by blast
qed

text \<open>A run for the witnesses: a snapshot is published, then the flag is set.\<close>

lemma stopped_run: "\<exists>T. threads_reachable f g new_signals 4 c T \<and> t_stop T \<and> pushed (t_ring T) \<noteq> []"
proof -
  let ?T = "new_threads new_signals 4 c" and ?P = "new_publisher 4"
  have p: "is_pow2 4" using is_pow2_power [of 2] by simp
  note T = at_call_new [OF p, of c]
  from publish_ok [OF pub_inv_new [OF p], of new_signals] obtain Q where
    Q: "publish new_signals ?P = Some (True, Q)" "published Q = 1" by (auto simp: new_publisher_def)
  from publish_is_run [OF T Q(1)] obtain U where U: "producer_step\<^sup>*\<^sup>* ?T U" "at_call 4 U" "seen_as U Q Polling c" "\<not> t_stop U" by blast
  have R: "threads_reachable f g new_signals 4 c U" by (rule producer_steps_reachable [OF U(1) threads_reachable.init])
  have "producer_step U (U\<lparr>t_stop := True\<rparr>)" using U(2,4) by (intro producer_step.stop) (simp_all add: at_call_def)
  with R have "threads_reachable f g new_signals 4 c (U\<lparr>t_stop := True\<rparr>)" by (rule threads_reachable.producer)
  moreover have "pushed (t_ring U) \<noteq> []" using threads_reachable_inv [OF R p] U(3) Q(2) by (auto simp: threads_inv_def seen_as_def)
  ultimately show ?thesis by (intro exI [of _ "U\<lparr>t_stop := True\<rparr>"]) simp
qed

theorem stop_loses_nothing_witness:
  "\<exists>T :: (book_signals, nat) md_threads. t_pc T = Joined \<and> pushed (t_ring T) \<noteq> [] \<and> popped (t_ring T) = pushed (t_ring T) \<and>
    t_state T = fold (\<lambda>s n. n + 1) (pushed (t_ring T)) (0 :: nat)"
proof -
  let ?f = "\<lambda>(s :: book_signals) n. n + (1 :: nat)"
  have p: "is_pow2 4" using is_pow2_power [of 2] by simp
  from stopped_run [of ?f ?f 0] obtain T where T: "threads_reachable ?f ?f new_signals 4 0 T" "t_stop T" "pushed (t_ring T) \<noteq> []" by blast
  from stopped_joins [OF threads_reachable_inv [OF T(1) p] T(2)] obtain U where U: "(consumer_step ?f ?f)\<^sup>*\<^sup>* T U" "t_pc U = Joined" by blast
  have "pushed (t_ring U) = pushed (t_ring T)" using consumer_steps_pushed [OF U(1)] .
  then have "t_pc U = Joined \<and> pushed (t_ring U) \<noteq> [] \<and> popped (t_ring U) = pushed (t_ring U) \<and> t_state U = fold ?f (pushed (t_ring U)) 0"
    using stop_loses_nothing [OF p consumer_steps_reachable [OF U(1) T(1)] U(2)] T(3) U(2) by auto
  then show ?thesis by blast
qed

theorem consumer_returns_witness:
  "\<exists>T U. t_stop T \<and> pushed (t_ring T) \<noteq> [] \<and> (consumer_step (\<lambda>s n. n + 1) (\<lambda>s n. n))\<^sup>*\<^sup>* (T :: (book_signals, nat) md_threads) U \<and> t_pc U = Joined"
proof -
  have p: "is_pow2 4" using is_pow2_power [of 2] by simp
  from stopped_run [of "\<lambda>s n. n + 1" "\<lambda>s n. n" "0 :: nat"] obtain T where
    T: "threads_reachable (\<lambda>s n. n + 1) (\<lambda>s n. n) new_signals 4 (0 :: nat) T" "t_stop T" "pushed (t_ring T) \<noteq> []" by blast
  from consumer_returns [OF p T(1,2)] T(2,3) show ?thesis by blast
qed

end
