(* ===== verification/Md_Pipeline.thy ===== *)
theory Md_Pipeline
  imports Feed_Range Md_Threads
begin

text \<open>
  The path of one message through the engine, as the listener and the benchmark use it: apply it
  to the book, compute the signals, publish the snapshot; and the consumer thread at the other end
  of the ring.  The two threads are interleaved call by call, which are runs of the steps in the theory of the
  threads.  What the consumer does with a snapshot is a parameter.

  The code is a template over the book: a \<open>book_type\<close> holds the operations that it uses of one.  What they
  have to promise is the locale \<open>market_book\<close>, with the ladder book and the map book as instances.
\<close>

section \<open>Operations\<close>

record ('r, 'b) book_type =
  bt_new :: 'b
  bt_add :: "('r, 'b) add_fn"
  bt_cancel :: "'b cancel_fn"
  bt_top :: "side \<Rightarrow> nat \<Rightarrow> 'b \<Rightarrow> level_qty list"
  bt_log :: "'b \<Rightarrow> fill list"

record ('b, 'c) pipeline =
  p_book :: 'b
  p_sig :: book_signals
  p_pub :: publisher
  c_pc :: md_pc
  c_state :: 'c

definition kDefaultLadderWindow :: nat where
  "kDefaultLadderWindow = 1024"

abbreviation fresh_book :: order_book where
  "fresh_book \<equiv> new_book True (2 ^ 16) kDefaultLadderWindow"

definition ladder_type :: "(bool, order_book) book_type" where
  "ladder_type = \<lparr>bt_new = fresh_book, bt_add = add_order, bt_cancel = cancel_order, bt_top = top_levels, bt_log = fill_log\<rparr>"

definition map_type :: "(unit, map_book) book_type" where
  "map_type = \<lparr>bt_new = new_map_book True (2 ^ 16), bt_add = map_add, bt_cancel = map_cancel_order, bt_top = map_top_levels, bt_log = mb_log\<rparr>"

lemma book_type_sel [simp]:
  "bt_new ladder_type = fresh_book" "bt_add ladder_type = add_order" "bt_cancel ladder_type = cancel_order" "bt_top ladder_type = top_levels"
  "bt_log ladder_type = fill_log"
  "bt_new map_type = new_map_book True (2 ^ 16)" "bt_add map_type = map_add" "bt_cancel map_type = map_cancel_order" "bt_top map_type = map_top_levels"
  "bt_log map_type = mb_log"
  by (simp_all add: ladder_type_def map_type_def)

definition new_pipeline :: "('r, 'b) book_type \<Rightarrow> nat \<Rightarrow> 'c \<Rightarrow> ('b, 'c) pipeline" where
  "new_pipeline T ring c = \<lparr>p_book = bt_new T, p_sig = new_signals, p_pub = new_publisher ring, c_pc = Polling, c_state = c\<rparr>"

definition process_message :: "('r, 'b) book_type \<Rightarrow> feed_message \<Rightarrow> ('b, 'c) pipeline \<Rightarrow> ('b, 'c) pipeline option" where
  "process_message T msg p = do {
     b \<leftarrow> apply_message (bt_add T) (bt_cancel T) msg (p_book p);
     sig \<leftarrow> compute_signals (\<lambda>s n. bt_top T s n b) (p_sig p);
     (ok, P) \<leftarrow> publish sig (p_pub p);
     Some (p\<lparr>p_book := b, p_sig := sig, p_pub := P\<rparr>) }"

text \<open>
  The consumer thread makes \<open>n\<close> turns of its loop; and it is joined: the stop flag has been set, but for \<open>n\<close> turns the
  consumer does not see it.
\<close>

definition consume_n :: "(book_signals \<Rightarrow> 'c \<Rightarrow> 'c) \<Rightarrow> (book_signals \<Rightarrow> 'c \<Rightarrow> 'c) \<Rightarrow> nat \<Rightarrow> ('b, 'c) pipeline \<Rightarrow> ('b, 'c) pipeline option" where
  "consume_n f g n p = do {
     (P, pc, c) \<leftarrow> consumer_turns f g n (p_pub p) (c_pc p) (c_state p);
     Some (p\<lparr>p_pub := P, c_pc := pc, c_state := c\<rparr>) }"

definition consumer_join :: "(book_signals \<Rightarrow> 'c \<Rightarrow> 'c) \<Rightarrow> (book_signals \<Rightarrow> 'c \<Rightarrow> 'c) \<Rightarrow> nat \<Rightarrow> ('b, 'c) pipeline \<Rightarrow> ('b, 'c) pipeline option" where
  "consumer_join f g n p = do {
     p \<leftarrow> consume_n f g n p;
     (P, c) \<leftarrow> consumer_finish f g (p_pub p) (c_pc p) (c_state p);
     Some (p\<lparr>p_pub := P, c_pc := Joined, c_state := c\<rparr>) }"

section \<open>Invariant\<close>

lemma window_pow2: "is_pow2 kDefaultLadderWindow" "64 \<le> kDefaultLadderWindow" "kDefaultLadderWindow \<le> 2 ^ 62"
  using is_pow2_power [of 10] by (simp_all add: kDefaultLadderWindow_def)

text \<open>
  After \<open>k\<close> messages of earlier passes, \<open>msgs\<close> have been processed into a fresh book, the snapshots
  \<open>sent\<close> have entered the ring and the consumer has taken \<open>got\<close> of them.
\<close>

definition pipe_core :: "('r, 'b) book_type \<Rightarrow> nat \<Rightarrow> (book_signals \<Rightarrow> 'c \<Rightarrow> 'c) \<Rightarrow> (book_signals \<Rightarrow> 'c \<Rightarrow> 'c) \<Rightarrow> 'c \<Rightarrow> nat \<Rightarrow> feed_message list \<Rightarrow> book_signals list \<Rightarrow> book_signals list \<Rightarrow> ('b, 'c) pipeline \<Rightarrow> bool" where
  "pipe_core T ring f g c k msgs sent got p \<longleftrightarrow>
     replay (bt_add T) (bt_cancel T) msgs (bt_new T) = Some (p_book p) \<and> length (imbalance (p_sig p)) = 3 \<and>
     (msgs \<noteq> [] \<longrightarrow> compute_signals (\<lambda>s n. bt_top T s n (p_book p)) new_signals = Some (p_sig p)) \<and>
     consumer_at f g c sent got (p_pub p) (c_pc p) (c_state p) \<and> usable (pub_ring (p_pub p)) = ring - 1 \<and>
     published (p_pub p) = of_nat (length sent) \<and> length sent \<le> k + length msgs \<and>
     dropped (p_pub p) = of_nat (k + length msgs - length sent) \<and>
     (length sent = k + length msgs \<longrightarrow> msgs \<noteq> [] \<longrightarrow> last sent = p_sig p)"

text \<open>While messages are processed, the consumer has not seen the flag.\<close>

definition pipe_inv :: "('r, 'b) book_type \<Rightarrow> nat \<Rightarrow> (book_signals \<Rightarrow> 'c \<Rightarrow> 'c) \<Rightarrow> (book_signals \<Rightarrow> 'c \<Rightarrow> 'c) \<Rightarrow> 'c \<Rightarrow> nat \<Rightarrow> feed_message list \<Rightarrow> book_signals list \<Rightarrow> ('b, 'c) pipeline \<Rightarrow> bool" where
  "pipe_inv T ring f g c k msgs sent p \<longleftrightarrow> (\<exists>got. pipe_core T ring f g c k msgs sent got p) \<and> c_pc p \<in> {Polling, Checking}"

lemma pipe_inv_new: "is_pow2 ring \<Longrightarrow> pipe_inv T ring f g c 0 [] [] (new_pipeline T ring c)"
  by (simp add: pipe_inv_def pipe_core_def consumer_at_def consumed_def new_pipeline_def pub_inv_new replay_def new_signals_def kImbalanceDepths_def)
    (simp add: new_publisher_def)

lemma replay_snoc: "replay add cancel (ms @ [m]) b = Option.bind (replay add cancel ms b) (apply_message add cancel m)"
  by (simp add: replay_def foldM_snoc)

text \<open>What the pipeline needs of a book.\<close>

locale market_book = matching_book rel cap log admits "bt_add T" "bt_cancel T"
  for rel :: "'b \<Rightarrow> spec_book \<Rightarrow> bool" and cap log admits and T :: "('r, 'b) book_type" +
  assumes top_law: "rel b B \<Longrightarrow> bt_top T s n b = take n (depth (side_of s B))"
    and new_law: "rel (bt_new T) \<lparr>s_bids = [], s_asks = []\<rparr>" "log (bt_new T) = []" "cap (bt_new T) = 2 ^ 16"
    and log_law: "bt_log T = log"
begin

text \<open>A feed that keeps every value of the pipeline in range and that the book admits.\<close>

definition feasible :: "feed_message list \<Rightarrow> bool" where
  "feasible msgs \<longleftrightarrow> feed_fits msgs \<and> admitted admits (2 ^ 16) msgs \<lparr>s_bids = [], s_asks = []\<rparr>"

lemma feasible_prefix: "feasible (xs @ ys) \<Longrightarrow> feasible xs"
  using feed_fits_prefix by (auto simp: feasible_def admitted_append)

lemma feed_replayable:
  assumes "feasible msgs" "spec_replay (2 ^ 16) msgs \<lparr>s_bids = [], s_asks = []\<rparr> = (B, fs)"
  shows "\<exists>b. replay (bt_add T) (bt_cancel T) msgs (bt_new T) = Some b \<and> rel b B \<and> bt_log T b = fs"
  using replay_law [OF new_law(1), of msgs B fs] assms new_law feed_fits_totals [of msgs "2 ^ 16"]
  by (auto simp: feasible_def feed_fits_def log_law)

lemma book_signals_of_feed:
  assumes "feasible msgs" "replay (bt_add T) (bt_cancel T) msgs (bt_new T) = Some b" "length (imbalance out) = 3"
  shows "\<exists>sig. compute_signals (\<lambda>s n. bt_top T s n b) out = Some sig \<and>
    compute_signals (\<lambda>s n. bt_top T s n b) new_signals = Some sig \<and> length (imbalance sig) = 3"
proof -
  obtain B fs where S: "spec_replay (2 ^ 16) msgs \<lparr>s_bids = [], s_asks = []\<rparr> = (B, fs)" by fastforce
  from feed_replayable [OF assms(1) S] assms(2) have "rel b B" by simp
  moreover have "feed_fits msgs" using assms(1) by (simp add: feasible_def)
  note feed_fits_range(1,2) [OF this S]
  ultimately show ?thesis
    using assms(3) by (simp add: spec_signals_ok top_law new_signals_def kImbalanceDepths_def signals_of_def)
qed

lemma process_message_ok:
  assumes inv: "pipe_inv T ring f g c k msgs sent p" and fits: "feasible (msgs @ [m])"
  shows "\<exists>p' sent'. process_message T m p = Some p' \<and> pipe_inv T ring f g c k (msgs @ [m]) sent' p'"
proof -
  from inv obtain got where I: "replay (bt_add T) (bt_cancel T) msgs (bt_new T) = Some (p_book p)" "length (imbalance (p_sig p)) = 3"
    "consumer_at f g c sent got (p_pub p) (c_pc p) (c_state p)" "usable (pub_ring (p_pub p)) = ring - 1" "published (p_pub p) = of_nat (length sent)"
    "length sent \<le> k + length msgs" "dropped (p_pub p) = of_nat (k + length msgs - length sent)" "c_pc p \<in> {Polling, Checking}"
    by (auto simp: pipe_inv_def pipe_core_def)
  from feed_replayable [OF fits surjective_pairing] I(1) obtain b where
    b: "replay (bt_add T) (bt_cancel T) (msgs @ [m]) (bt_new T) = Some b" "apply_message (bt_add T) (bt_cancel T) m (p_book p) = Some b"
    by (auto simp: replay_snoc)
  from book_signals_of_feed [OF fits b(1) I(2)] obtain sig where
    sig: "compute_signals (\<lambda>s n. bt_top T s n b) (p_sig p) = Some sig" "compute_signals (\<lambda>s n. bt_top T s n b) new_signals = Some sig"
      "length (imbalance sig) = 3" by blast
  from publish_ok [of "p_pub p" sig] I(3) obtain ok P where
    P: "publish sig (p_pub p) = Some (ok, P)" "pub_inv P" "usable (pub_ring P) = usable (pub_ring (p_pub p))"
      "waiting P = waiting (p_pub p) @ (if ok then [sig] else [])" "published P = published (p_pub p) + (if ok then 1 else 0)"
      "dropped P = dropped (p_pub p) + (if ok then 0 else 1)" by (auto simp: consumer_at_def)
  let ?sent = "sent @ (if ok then [sig] else [])" and ?p = "p\<lparr>p_book := b, p_sig := sig, p_pub := P\<rparr>"
  have "process_message T m p = Some ?p" using b(2) sig(1) P(1) by (simp add: process_message_def)
  moreover have "consumer_at f g c ?sent got P (c_pc p) (c_state p)" using I(3,8) P(2,4) by (auto simp: consumer_at_def)
  moreover have "dropped P = of_nat (Suc (k + length msgs) - length ?sent)" using I(6,7) P(6) by (simp add: Suc_diff_le)
  ultimately have "pipe_core T ring f g c k (msgs @ [m]) ?sent got ?p" using b(1) sig I(4-6) P(3,5) by (auto simp: pipe_core_def)
  with \<open>process_message T m p = Some ?p\<close> I(8) show ?thesis by (auto simp: pipe_inv_def)
qed

end

interpretation ladder_market: market_book book_is "\<lambda>b. p_capacity (book_pool b)" fill_log any_id ladder_type
proof -
  have "matching_book book_is (\<lambda>b. p_capacity (book_pool b)) fill_log any_id add_order cancel_order" by unfold_locales
  then show "market_book book_is (\<lambda>b. p_capacity (book_pool b)) fill_log any_id ladder_type"
    unfolding market_book_def market_book_axioms_def using book_is_new [OF window_pow2, of "2 ^ 16"]
    by (auto simp: ladder_type_def book_is_def consistent_def top_levels_ok)
qed

interpretation map_market: market_book map_book_is "\<lambda>b. p_capacity (mb_pool b)" mb_log new_id map_type
proof -
  have "matching_book map_book_is (\<lambda>b. p_capacity (mb_pool b)) mb_log new_id map_add map_cancel_order" by unfold_locales
  then show "market_book map_book_is (\<lambda>b. p_capacity (mb_pool b)) mb_log new_id map_type"
    unfolding market_book_def market_book_axioms_def using map_refines_new [of True "2 ^ 16"]
    by (auto simp: map_type_def map_book_is_def map_top_levels_ok)
qed

lemma ladder_feasible [simp]: "ladder_market.feasible msgs = feed_fits msgs"
  by (simp add: ladder_market.feasible_def)

section \<open>The consumer\<close>

lemma consume_n_core:
  assumes "pipe_core T ring f g c k msgs sent got p"
  shows "\<exists>p' got'. consume_n f g n p = Some p' \<and> pipe_core T ring f g c k msgs sent got' p' \<and> (c_pc p \<in> {Polling, Checking} \<longrightarrow> c_pc p' \<in> {Polling, Checking})"
proof -
  from assms have "consumer_at f g c sent got (p_pub p) (c_pc p) (c_state p)" by (simp add: pipe_core_def)
  from consumer_turns_ok [OF this, of n] obtain P pc c' got' where
    P: "consumer_turns f g n (p_pub p) (c_pc p) (c_state p) = Some (P, pc, c')" "consumer_at f g c sent got' P pc c'" "same_counts P (p_pub p)" by blast
  then have "consume_n f g n p = Some (p\<lparr>p_pub := P, c_pc := pc, c_state := c'\<rparr>)" by (simp add: consume_n_def)
  moreover have "pipe_core T ring f g c k msgs sent got' (p\<lparr>p_pub := P, c_pc := pc, c_state := c'\<rparr>)"
    using assms P(2,3) by (simp add: pipe_core_def same_counts_def)
  ultimately show ?thesis using turns_running [OF P(1)] by (intro exI [of _ "p\<lparr>p_pub := P, c_pc := pc, c_state := c'\<rparr>"]) auto
qed

lemma consume_n_ok:
  assumes "pipe_inv T ring f g c k msgs sent p"
  shows "\<exists>p'. consume_n f g n p = Some p' \<and> pipe_inv T ring f g c k msgs sent p'"
proof -
  from assms obtain got where "pipe_core T ring f g c k msgs sent got p" "c_pc p \<in> {Polling, Checking}" by (auto simp: pipe_inv_def)
  from consume_n_core [OF this(1), of n] this(2) show ?thesis unfolding pipe_inv_def by blast
qed

lemma consumer_join_ok:
  assumes "pipe_inv T ring f g c k msgs sent p"
  shows "\<exists>p'. consumer_join f g n p = Some p' \<and> pipe_core T ring f g c k msgs sent sent p'"
proof -
  from consume_n_ok [OF assms, of n] obtain q got where
    q: "consume_n f g n p = Some q" "pipe_core T ring f g c k msgs sent got q" by (auto simp: pipe_inv_def)
  then have "consumer_at f g c sent got (p_pub q) (c_pc q) (c_state q)" by (simp add: pipe_core_def)
  from consumer_finish_ok [OF this] obtain P c' where
    P: "consumer_finish f g (p_pub q) (c_pc q) (c_state q) = Some (P, c')" "consumer_at f g c sent sent P Joined c'" "same_counts P (p_pub q)" by blast
  then have "consumer_join f g n p = Some (q\<lparr>p_pub := P, c_pc := Joined, c_state := c'\<rparr>)" using q(1) by (simp add: consumer_join_def)
  moreover have "pipe_core T ring f g c k msgs sent sent (q\<lparr>p_pub := P, c_pc := Joined, c_state := c'\<rparr>)"
    using q(2) P(2,3) by (simp add: pipe_core_def same_counts_def)
  ultimately show ?thesis by blast
qed

text \<open>What the joined consumer has made of the snapshots.\<close>

lemma joined_state:
  assumes "pipe_core T ring f g c k msgs sent sent p"
  obtains xs ys where "sent = xs @ ys" "c_state p = fold g ys (fold f xs c)"
  using assms by (auto simp: pipe_core_def consumer_at_def consumed_def)

lemma pipe_inv_restart:
  "pipe_inv T ring f g c k msgs sent p \<Longrightarrow>
    pipe_inv T ring f g c (k + length msgs) [] sent (p\<lparr>p_book := bt_new T, p_sig := new_signals\<rparr>)"
  by (auto simp: pipe_inv_def pipe_core_def replay_def new_signals_def kImbalanceDepths_def)

end
