(* ===== verification/Main_Program.thy ===== *)
theory Main_Program
  imports Feed_Generator Feed_File Md_Pipeline
begin

text \<open>
  The command line program of \<^verbatim>\<open>src/main.cpp\<close>: generating a feed file, replaying one and printing
  the report, and the choice of the command.  What is outside the program (byte order, random
  engine, file device, padding bytes, memory limit) is one record.  An execution ends with an
  exit status and what was written to the two output streams, or with an uncaught exception;
  undefined behaviour is \<^const>\<open>None\<close>.
\<close>

section \<open>Environment and outcome\<close>

record 'g env =
  big_endian :: bool
  engine :: "u64 \<Rightarrow> 'g"
  draw :: "'g uniform"
  device :: disk
  padding :: "nat \<Rightarrow> byte list"
  alloc_limit :: nat

datatype outcome = Exit int string string | Terminated

definition show_int :: "int \<Rightarrow> string" where
  "show_int v = (if v < 0 then ''-'' @ digits (nat (- v)) else digits (nat v))"

definition newline :: string where
  "newline = [CHR 0x0A]"

section \<open>Commands\<close>

text \<open>The two global counters; the sum of the traded quantities is signed.\<close>

definition report_fill :: "fill \<Rightarrow> u64 \<times> quantity \<Rightarrow> (u64 \<times> quantity) option" where
  "report_fill f = (\<lambda>(fill_count, traded_qty). do {
     traded_qty \<leftarrow> checked64 (traded_qty + f_qty f);
     Some (fill_count + 1, traded_qty) })"

text \<open>Reserving the vector of messages throws when it exceeds what can be allocated.\<close>

definition run_generate :: "'g env \<Rightarrow> string \<Rightarrow> nat \<Rightarrow> u64 \<Rightarrow> bool \<Rightarrow> files \<Rightarrow> (outcome \<times> files) option" where
  "run_generate E out_path num seed wide fs = (if alloc_limit E < num then Some (Terminated, fs) else do {
     msgs \<leftarrow> (if wide then generate_wide_feed (draw E) (engine E seed) num 300 else generate_feed (draw E) (engine E seed) num);
     (ok, fs) \<leftarrow> Some (save_feed_file (big_endian E) (device E) (padding E) out_path msgs fs);
     if \<not> ok then Some (Exit 1 [] (''failed to write feed file: '' @ out_path @ newline), fs)
     else Some (Exit 0 (''generated '' @ digits (length msgs) @ '' messages (seed='' @ digits (unat seed) @ '', profile='' @
       (if wide then ''wide'' else ''narrow'') @ '') -> '' @ out_path @ newline) [], fs) })"

text \<open>The part of the report that is read from the book.\<close>

definition show_best :: "string \<Rightarrow> price option \<Rightarrow> string" where
  "show_best which p = ''best '' @ which @ '': '' @ (case p of None \<Rightarrow> ''(none)'' | Some p \<Rightarrow> show_int p) @ newline"

definition book_report :: "order_book \<Rightarrow> string option" where
  "book_report b = do {
     bb \<leftarrow> best_bid b;
     ba \<leftarrow> best_ask b;
     resting \<leftarrow> total_resting_qty b;
     signals \<leftarrow> compute_signals (\<lambda>s n. top_levels s n b) new_signals;
     tail_text \<leftarrow> print_signals signals;
     Some (show_best ''bid'' bb @ show_best ''ask'' ba @ ''resting qty: '' @ show_int resting @ newline @
       ''rejected: pool_exhausted='' @ digits (unat (pool_exhausted (stats b))) @ '' duplicate_id='' @
       digits (unat (duplicate_id (stats b))) @ newline @ tail_text) }"

definition run_replay :: "'g env \<Rightarrow> string \<Rightarrow> files \<Rightarrow> outcome option" where
  "run_replay E in_path fs =
     (case load_feed_file (big_endian E) (alloc_limit E) in_path [] fs of
        Inl e \<Rightarrow> Some Terminated
      | Inr (ok, msgs) \<Rightarrow>
          if \<not> ok then Some (Exit 1 [] (''failed to read feed file: '' @ in_path @ newline))
          else do {
            b \<leftarrow> replay add_order cancel_order msgs (new_book True (2 ^ 16) kDefaultLadderWindow);
            (fill_count, traded_qty) \<leftarrow> foldM report_fill (fill_log b) (0, 0);
            tail_text \<leftarrow> book_report b;
            Some (Exit 0 (''replayed '' @ digits (length msgs) @ '' messages from '' @ in_path @ newline @
              ''fills: '' @ digits (unat fill_count) @ '', traded qty: '' @ show_int traded_qty @ newline @ tail_text) []) })"

definition run_record_size :: outcome where
  "run_record_size = Exit 0 (digits sizeof_message @ '' '' @ digits sizeof_header @ newline) []"

section \<open>The command line\<close>

text \<open>\<^verbatim>\<open>strtoull\<close> in base 10: blanks, a sign, digits; saturating, and 0 when there is no digit.\<close>

definition is_space :: "char \<Rightarrow> bool" where
  "is_space c \<longleftrightarrow> of_char c = (32 :: nat) \<or> 9 \<le> (of_char c :: nat) \<and> of_char c \<le> (13 :: nat)"

definition is_digit :: "char \<Rightarrow> bool" where
  "is_digit c \<longleftrightarrow> 48 \<le> (of_char c :: nat) \<and> of_char c \<le> (57 :: nat)"

definition strtoull :: "string \<Rightarrow> u64" where
  "strtoull s =
     (let t = dropWhile is_space s;
          neg = (t \<noteq> [] \<and> hd t = CHR ''-'');
          t = (if t \<noteq> [] \<and> (hd t = CHR ''-'' \<or> hd t = CHR ''+'') then tl t else t);
          v = numeral_value (takeWhile is_digit t)
      in if 2 ^ 64 \<le> v then - 1 else if neg then - word_of_nat v else word_of_nat v)"

definition print_usage :: "bool \<Rightarrow> string \<Rightarrow> string" where
  "print_usage have_xdp prog =
     ''usage:'' @ newline @ ''  '' @ prog @ '' generate <output.feed> <num_messages> [seed] [narrow|wide]'' @ newline @
     ''  '' @ prog @ '' replay <input.feed>'' @ newline @ ''  '' @ prog @ '' record-size'' @ newline @
     (if have_xdp then ''  '' @ prog @ '' xdp-listen <ifname> <queue_id> [bpf_obj_path]'' @ newline else [])"

text \<open>
  \<open>listen\<close> is the listener command when the program was built with AF_XDP support.  Without even a
  program name, printing the usage would read a null pointer.
\<close>

definition main :: "'g env \<Rightarrow> (string list \<Rightarrow> outcome option) option \<Rightarrow> string list \<Rightarrow> files \<Rightarrow> (outcome \<times> files) option" where
  "main E listen argv fs =
     (let argc = length argv; usage = Exit 1 [] (print_usage (listen \<noteq> None) (argv ! 0)) in
      if argc = 0 then None
      else if argc < 2 then Some (usage, fs)
      else
        let cmd = argv ! 1 in
        if cmd = ''generate'' \<and> argc \<ge> 4
        then
          let count = unat (strtoull (argv ! 3)); seed = (if argc \<ge> 5 then strtoull (argv ! 4) else 42);
              wide = (argc \<ge> 6 \<and> argv ! 5 = ''wide'')
          in if argc \<ge> 6 \<and> \<not> wide \<and> argv ! 5 \<noteq> ''narrow'' then Some (usage, fs)
             else run_generate E (argv ! 2) count seed wide fs
        else if cmd = ''replay'' \<and> argc \<ge> 3 then map_option (\<lambda>r. (r, fs)) (run_replay E (argv ! 2) fs)
        else if cmd = ''record-size'' then Some (run_record_size, fs)
        else if cmd = ''xdp-listen'' \<and> listen \<noteq> None then map_option (\<lambda>r. (r, fs)) (the listen argv)
        else Some (usage, fs))"

section \<open>The report of a book\<close>

lemma fills_counted:
  assumes "\<forall>f \<in> set fs. 0 < f_qty f" "0 \<le> q" "q + fills_qty fs < 2 ^ 63"
  shows "foldM report_fill fs (n, q) = Some (n + word_of_nat (length fs), q + fills_qty fs)"
  using assms
proof (induction fs arbitrary: n q)
  case (Cons f fs)
  have "0 \<le> fills_qty fs" using Cons.prems(1) by (intro fills_nonneg) simp
  then have "fits_int64 (q + f_qty f)" using Cons.prems by (simp add: fits_int64_def)
  then have "report_fill f (n, q) = Some (n + 1, q + f_qty f)" by (simp add: report_fill_def checked64_def)
  moreover from this Cons.prems have "foldM report_fill fs (n + 1, q + f_qty f) =
      Some (n + 1 + word_of_nat (length fs), q + f_qty f + fills_qty fs)"
    by (intro Cons.IH) auto
  ultimately show ?case by (simp add: algebra_simps)
qed simp

text \<open>The same text from the represented state.\<close>

definition spec_report :: "spec_book \<Rightarrow> book_stats \<Rightarrow> string option" where
  "spec_report B st = do {
     tail_text \<leftarrow> print_signals (signals_of (depth (s_bids B)) (depth (s_asks B)));
     Some (show_best ''bid'' (map_option fst (first_opt (s_bids B))) @ show_best ''ask'' (map_option fst (first_opt (s_asks B))) @
       ''resting qty: '' @ show_int (book_qty B) @ newline @ ''rejected: pool_exhausted='' @ digits (unat (pool_exhausted st)) @
       '' duplicate_id='' @ digits (unat (duplicate_id st)) @ newline @ tail_text) }"

lemma signals_printable:
  assumes "spec_inv B" "signal_range B"
  shows "\<exists>tail_text. print_signals (signals_of (depth (s_bids B)) (depth (s_asks B))) = Some tail_text"
proof -
  let ?s = "signals_of (depth (s_bids B)) (depth (s_asks B))"
  have "\<exists>m. mid_scaled ?s = Some m" if two: "two_sided ?s"
  proof -
    from two signals_two_sided [OF spec_levels_fit [OF assms]] obtain l ls m ms where
      s: "s_bids B = l # ls" "s_asks B = m # ms" by (auto simp: depth_cases neq_Nil_conv)
    then have p: "sig_best_bid ?s = fst l" "sig_best_ask ?s = fst m" by (simp_all add: signals_of_def depth_def case_prod_beta)
    have "fst l < fst m" using assms(1) s by (simp add: spec_inv_def uncrossed_def)
    moreover have "scalable (fst l)" "scalable (fst m)" using assms(2) s by (simp_all add: signal_range_def)
    ultimately show ?thesis using mid_ok [of ?s] two p by auto
  qed
  then show ?thesis by (cases "two_sided ?s") (auto simp: print_signals_def)
qed

lemma book_report_ok:
  assumes "consistent b B" "signal_range B"
  shows "book_report b = spec_report B (stats b) \<and> book_report b \<noteq> None"
proof -
  from assms have "spec_inv B" "refines b B" by (simp_all add: consistent_def)
  moreover from signals_printable [OF this(1) assms(2)] obtain tail_text where
    "print_signals (signals_of (depth (s_bids B)) (depth (s_asks B))) = Some tail_text" ..
  moreover have "compute_signals (\<lambda>s n. top_levels s n b) new_signals = Some (signals_of (depth (s_bids B)) (depth (s_asks B)))"
    by (rule book_signals_ok [OF assms]) (simp add: new_signals_def kImbalanceDepths_def)
  moreover have "checked64 (book_qty B) = Some (book_qty B)" using assms(2) by (simp add: signal_range_def checked64_def)
  ultimately show ?thesis
    by (simp add: book_report_def spec_report_def best_bid_ok best_ask_ok total_resting_qty_ok)
qed

lemma run_replay_ok:
  assumes load: "load_feed_file (big_endian E) (alloc_limit E) path [] fs = Inr (True, msgs)" and fits: "feed_fits msgs"
    and spec: "spec_replay (2 ^ 16) msgs \<lparr>s_bids = [], s_asks = []\<rparr> = (B, fills)"
  shows "\<exists>b tail_text. replay add_order cancel_order msgs (new_book True (2 ^ 16) kDefaultLadderWindow) = Some b \<and> consistent b B \<and>
    spec_report B (stats b) = Some tail_text \<and>
    run_replay E path fs = Some (Exit 0 (''replayed '' @ digits (length msgs) @ '' messages from '' @ path @ newline @
      ''fills: '' @ digits (unat (word_of_nat (length fills) :: u64)) @ '', traded qty: '' @ show_int (fills_qty fills) @ newline @ tail_text) [])"
proof -
  have "prices_ok msgs" using fits by (simp add: feed_fits_def)
  from replay_new [OF window_pow2 this feed_fits_totals [OF fits] spec] obtain b where
    b: "replay add_order cancel_order msgs (new_book True (2 ^ 16) kDefaultLadderWindow) = Some b" "consistent b B" "fill_log b = fills"
    by (auto simp: book_is_def)
  note r = feed_fits_range [OF fits spec]
  from book_report_ok [OF b(2) r(1)] obtain tail_text where t: "book_report b = Some tail_text" "spec_report B (stats b) = Some tail_text" by (metis not_None_eq)
  have "foldM report_fill (fill_log b) (0, 0) = Some (word_of_nat (length fills), fills_qty fills)"
    using fills_counted [OF r(3), of 0 0] r(4) b(3) by simp
  with load b t show ?thesis by (intro exI [of _ b] exI [of _ tail_text]) (simp add: run_replay_def)
qed

section \<open>Generated feeds\<close>

lemma message_in_ok: "message_in lo hi m \<Longrightarrow> - (2 ^ 62) \<le> lo \<Longrightarrow> hi \<le> 2 ^ 62 \<Longrightarrow> message_ok m"
  by (auto simp: message_in_def message_ok_def fits_int64_def)

lemma generated_fits:
  assumes "\<forall>m \<in> set msgs. message_in lo hi m" "- (2 ^ 42) \<le> lo" "hi \<le> 2 ^ 42" "length msgs \<le> 2 ^ 40"
  shows "feed_fits msgs"
proof -
  have p: "- (2 ^ 42) \<le> fm_price m \<and> fm_price m \<le> 2 ^ 42 \<and> 0 \<le> fm_qty m \<and> fm_qty m \<le> 20"
    if "m \<in> set msgs" "fm_type m = AddOrder" for m
    using assms(1-3) that by (fastforce simp: message_in_def)
  have "add_qty msgs \<le> 20 * int (length msgs)"
    using p by (induction msgs) (fastforce simp: add_qty_def)+
  with assms(4) have "add_qty msgs < 2 ^ 63" by simp
  moreover have "price_ok q \<and> scalable q" if "- (2 ^ 42) \<le> q" "q \<le> 2 ^ 42" for q
    using that by (simp add: price_ok_def scalable_def fits_int64_def kSignalScale_def abs_if)
  ultimately show ?thesis using p by (auto simp: feed_fits_def prices_ok_def quantities_ok_def add_prices_def)
qed

lemma generated_ok:
  assumes "uniform_ok (draw E)" "num \<le> 2 ^ 40"
  shows "\<exists>msgs. (if wide then generate_wide_feed (draw E) (engine E seed) num 300 else generate_feed (draw E) (engine E seed) num) = Some msgs \<and>
    length msgs = num \<and> feed_fits msgs \<and> (\<forall>m \<in> set msgs. message_ok m) \<and> (\<forall>cap. admitted new_id cap msgs \<lparr>s_bids = [], s_asks = []\<rparr>)"
proof (cases wide)
  case True
  from generate_wide_feed_ok [OF assms(1), of 300 num "engine E seed"] assms(2) obtain msgs where
    m: "generate_wide_feed (draw E) (engine E seed) num 300 = Some msgs" "length msgs = num"
      "\<forall>m \<in> set msgs. message_in (100000 - int num - 300) (100001 + int num + 300) m" "ids_ok msgs" by auto
  moreover have b: "- (2 ^ 42) \<le> 100000 - int num - 300" "100001 + int num + 300 \<le> 2 ^ 42"
  proof -
    have "int num \<le> 2 ^ 40" using assms(2) by simp
    then show "- (2 ^ 42) \<le> 100000 - int num - 300" "100001 + int num + 300 \<le> 2 ^ 42" by simp_all
  qed
  ultimately have "feed_fits msgs" using assms(2) generated_fits [OF m(3) b] by simp
  moreover have "\<forall>m \<in> set msgs. message_ok m" using m(3) b by (auto intro!: message_in_ok)
  moreover have "admitted new_id cap msgs \<lparr>s_bids = [], s_asks = []\<rparr>" for cap using m(2,4) assms(2) by (intro ids_ok_admitted) simp_all
  ultimately show ?thesis using m True by auto
next
  case False
  from generate_feed_ok [OF assms(1), of "engine E seed" num] obtain msgs where
    m: "generate_feed (draw E) (engine E seed) num = Some msgs" "length msgs = num" "\<forall>m \<in> set msgs. message_in 95 105 m" "ids_ok msgs" by blast
  then have "feed_fits msgs" "\<forall>m \<in> set msgs. message_ok m"
    using assms(2) generated_fits [OF m(3)] by (auto intro!: message_in_ok)
  moreover have "admitted new_id cap msgs \<lparr>s_bids = [], s_asks = []\<rparr>" for cap using m(2,4) assms(2) by (intro ids_ok_admitted) simp_all
  ultimately show ?thesis using m False by auto
qed

section \<open>Properties\<close>

text \<open>An environment in which \<open>num\<close> messages can be written, flushed and loaded again.\<close>

definition env_ok :: "'g env \<Rightarrow> nat \<Rightarrow> bool" where
  "env_ok E num \<longleftrightarrow> uniform_ok (draw E) \<and> pads_ok (padding E) \<and> can_open (device E) \<and>
     (\<forall>c. sizeof_header + num * sizeof_message \<le> accepts (device E) c) \<and>
     sizeof_header + num * sizeof_message \<le> flushed (device E) \<and> num \<le> alloc_limit E \<and> alloc_limit E < 2 ^ 64"

lemma save_succeeds:
  assumes "pads_ok pads" "can_open D" "\<forall>c. sizeof_header + length msgs * sizeof_message \<le> accepts D c"
  shows "\<exists>fs'. save_feed_file big D pads path msgs fs = (True, fs')"
proof -
  let ?d = "concat (map (\<lambda>i. encode_message big (pads i) (msgs ! i)) [0..<length msgs])"
  have dl: "length ?d = length msgs * sizeof_message" using assms(1) by (rule length_messages)
  have "fst (fwrite D 0 sizeof_header (encode_header big (new_header\<lparr>hdr_count := w\<rparr>))) = 1" for w
    using spec [OF assms(3), of 0] by (simp add: fwrite_def Let_def min_absorb2)
  moreover have "fst (fwrite D 1 sizeof_message ?d) = length msgs"
    using spec [OF assms(3), of 1] dl by (simp add: fwrite_def Let_def min_absorb2)
  ultimately show ?thesis using assms(2) by (simp add: save_feed_file_def case_prod_beta Let_def)
qed

text \<open>
  C38.  From the generator to the report: with any seed and either profile, a feed of up to
  $2^{40}$ messages that was generated and written can be replayed; no step of the two programs
  is undefined, the replayed book is the one that the specification computes for the feed, and
  the printed report shows its fills, best prices, resting quantity and signals.  The map book, replaying
  the same feed, emits the same fills and shows the same levels.
\<close>

theorem generate_then_replay:
  assumes "env_ok E num" "num \<le> 2 ^ 40"
  shows "\<exists>out fs' msgs b c body. run_generate E path num seed wide fs = Some (Exit 0 out [], fs') \<and>
    (if wide then generate_wide_feed (draw E) (engine E seed) num 300 else generate_feed (draw E) (engine E seed) num) = Some msgs \<and>
    replay add_order cancel_order msgs (new_book True (2 ^ 16) kDefaultLadderWindow) = Some b \<and>
    consistent b (fst (spec_replay (2 ^ 16) msgs \<lparr>s_bids = [], s_asks = []\<rparr>)) \<and>
    replay map_add map_cancel_order msgs (new_map_book True (2 ^ 16)) = Some c \<and> mb_log c = fill_log b \<and>
    (\<forall>s n. map_top_levels s n c = top_levels s n b) \<and>
    spec_report (fst (spec_replay (2 ^ 16) msgs \<lparr>s_bids = [], s_asks = []\<rparr>)) (stats b) = Some body \<and>
    run_replay E path fs' = Some (Exit 0 (''replayed '' @ digits num @ '' messages from '' @ path @ newline @
      ''fills: '' @ digits (unat (word_of_nat (length (snd (spec_replay (2 ^ 16) msgs \<lparr>s_bids = [], s_asks = []\<rparr>))) :: u64)) @
      '', traded qty: '' @ show_int (fills_qty (snd (spec_replay (2 ^ 16) msgs \<lparr>s_bids = [], s_asks = []\<rparr>))) @ newline @ body) [])"
proof -
  have U: "uniform_ok (draw E)" and pads: "pads_ok (padding E)" and op: "can_open (device E)"
    and acc: "\<forall>c. sizeof_header + num * sizeof_message \<le> accepts (device E) c"
    and fl: "sizeof_header + num * sizeof_message \<le> flushed (device E)" and lim: "num \<le> alloc_limit E" "alloc_limit E < 2 ^ 64"
    using assms(1) by (simp_all add: env_ok_def)
  from generated_ok [OF U assms(2), where wide = wide and seed = seed] obtain msgs where
    m: "(if wide then generate_wide_feed (draw E) (engine E seed) num 300 else generate_feed (draw E) (engine E seed) num) = Some msgs"
    "length msgs = num" "feed_fits msgs" "\<forall>m \<in> set msgs. message_ok m" "admitted new_id (2 ^ 16) msgs \<lparr>s_bids = [], s_asks = []\<rparr>" by blast
  from save_succeeds [OF pads op, of msgs "big_endian E" path fs] acc m(2) obtain fs' where
    s: "save_feed_file (big_endian E) (device E) (padding E) path msgs fs = (True, fs')" by auto
  have "\<exists>out. run_generate E path num seed wide fs = Some (Exit 0 out [], fs')"
    using m(1) s lim(1) by (simp add: run_generate_def split: if_splits)
  moreover have "load_feed_file (big_endian E) (alloc_limit E) path [] fs' = Inr (True, msgs)"
    using load_image [OF pads, of msgs "alloc_limit E" fs' path "flushed (device E)" "big_endian E"] save_image [OF pads s]
      length_file_image [OF pads, of "big_endian E" msgs] m(2,4) lim fl by simp
  note run_replay_ok [OF this m(3) surjective_pairing]
  moreover have "prices_ok msgs" using m(3) by (simp add: feed_fits_def)
  note ladder_agrees_with_map [OF window_pow2 this feed_fits_totals [OF m(3)] m(5)]
  ultimately show ?thesis using m(1,2) by fastforce
qed

definition demo_env :: "nat env" where
  "demo_env = \<lparr>big_endian = False, engine = unat, draw = counting, device = \<lparr>can_open = True, accepts = (\<lambda>_. 1000), flushed = 1000\<rparr>,
     padding = (\<lambda>_. replicate 6 0), alloc_limit = 100\<rparr>"

theorem generate_then_replay_witness:
  "\<exists>out fs' r. run_generate demo_env ''f'' 10 42 True Map.empty = Some (Exit 0 out [], fs') \<and> run_replay demo_env ''f'' fs' = Some (Exit 0 r [])"
proof -
  have "env_ok demo_env 10"
    by (simp add: env_ok_def demo_env_def counting_ok pads_ok_def sizeof_header_def sizeof_message_def)
  from generate_then_replay [OF this, of "''f''" 42 True Map.empty] show ?thesis by auto
qed

text \<open>
  The command line: without a command, with an unknown one, with too few arguments or an
  unknown profile, the program changes no file and exits with status 1 after printing its usage.
\<close>

theorem main_usage_errors:
  assumes "argv \<noteq> []"
    and "length argv < 2 \<or> argv ! 1 \<notin> {''generate'', ''replay'', ''record-size'', ''xdp-listen''} \<or>
      (argv ! 1 = ''generate'' \<and> (length argv < 4 \<or> 6 \<le> length argv \<and> argv ! 5 \<notin> {''wide'', ''narrow''})) \<or>
      (argv ! 1 = ''replay'' \<and> length argv < 3) \<or> (argv ! 1 = ''xdp-listen'' \<and> listen = None)"
  shows "main E listen argv fs = Some (Exit 1 [] (print_usage (listen \<noteq> None) (argv ! 0)), fs)"
  using assms by (auto simp: main_def Let_def)

theorem main_usage_errors_witness:
  "main demo_env None [''ob'', ''generate'', ''x'', ''10'', ''1'', ''deep''] Map.empty =
    Some (Exit 1 [] (print_usage False ''ob''), Map.empty)"
  using main_usage_errors [of "[''ob'', ''generate'', ''x'', ''10'', ''1'', ''deep'']" None demo_env Map.empty] by simp

end
