(* ===== verification/Xdp_Rings.thy ===== *)
theory Xdp_Rings
  imports Spsc_Ring Feed_Message
begin

text \<open>
  The receive path of \<^verbatim>\<open>XdpSocket\<close> in \<^verbatim>\<open>include/xdp_socket.hpp\<close>: the two rings shared with the
  kernel, \<^verbatim>\<open>poll\<close>, and the priming of the fill ring in \<^verbatim>\<open>src/xdp_socket.cpp\<close>.  Ring positions are
  free-running 32-bit counters that wrap.
\<close>

section \<open>State and operations\<close>

type_synonym u32 = "32 word"

record xdp_desc =
  d_addr :: u64
  d_len :: u32

record 'd xdp_ring =
  xr_producer :: u32
  xr_consumer :: u32
  xr_descs :: "'d list"
  xr_mask :: u32

record xsk =
  umem_area :: "byte list"
  rx :: "xdp_desc xdp_ring"
  fill_ring :: "u64 xdp_ring"

definition kMaxBatch :: u32 where
  "kMaxBatch = 64"

text \<open>
  The first loop: hand each frame to the handler and remember its address.  The handler gets the
  memory from the start of the frame on, and the length; \<open>s\<close> is whatever state it works on.
\<close>

definition drain_step :: "(byte list \<Rightarrow> u32 \<Rightarrow> 's \<Rightarrow> 's option) \<Rightarrow> xsk \<Rightarrow> u32 \<Rightarrow> nat \<Rightarrow> 's \<times> u64 list \<Rightarrow> ('s \<times> u64 list) option" where
  "drain_step on_frame X cons i = (\<lambda>(s, recycle). do {
     d \<leftarrow> vread (xr_descs (rx X)) (unat ((cons + word_of_nat i) AND xr_mask (rx X)));
     if length (umem_area X) < unat (d_addr d) then None
     else do {
       s \<leftarrow> on_frame (drop (unat (d_addr d)) (umem_area X)) (d_len d) s;
       Some (s, recycle @ [d_addr d]) } })"

definition refill_step :: "u64 list \<Rightarrow> u32 \<Rightarrow> u32 \<Rightarrow> nat \<Rightarrow> u64 list \<Rightarrow> u64 list option" where
  "refill_step recycle fprod msk i descs = do {
     a \<leftarrow> vread recycle i;
     vwrite descs (unat ((fprod + word_of_nat i) AND msk)) a }"

definition xsk_poll :: "(byte list \<Rightarrow> u32 \<Rightarrow> 's \<Rightarrow> 's option) \<Rightarrow> xsk \<Rightarrow> 's \<Rightarrow> (nat \<times> xsk \<times> 's) option" where
  "xsk_poll on_frame X s = do {
     cons \<leftarrow> Some (xr_consumer (rx X));
     prod \<leftarrow> Some (xr_producer (rx X));
     available \<leftarrow> Some (prod - cons);
     if available = 0 then Some (0, X, s)
     else do {
       available \<leftarrow> Some (if available > kMaxBatch then kMaxBatch else available);
       (s, recycle) \<leftarrow> foldM (drain_step on_frame X cons) [0..<unat available] (s, []);
       X \<leftarrow> Some (X\<lparr>rx := (rx X)\<lparr>xr_consumer := cons + available\<rparr>\<rparr>);
       fprod \<leftarrow> Some (xr_producer (fill_ring X));
       descs \<leftarrow> foldM (refill_step recycle fprod (xr_mask (fill_ring X))) [0..<unat available] (xr_descs (fill_ring X));
       X \<leftarrow> Some (X\<lparr>fill_ring := (fill_ring X)\<lparr>xr_descs := descs, xr_producer := fprod + available\<rparr>\<rparr>);
       Some (unat available, X, s) } }"

text \<open>Priming: every frame of the area goes into the fill ring.\<close>

definition prime_step :: "nat \<Rightarrow> u32 \<Rightarrow> nat \<Rightarrow> u64 list \<Rightarrow> u64 list option" where
  "prime_step frame_size msk i descs = vwrite descs (i AND unat msk) (word_of_nat (i * frame_size))"

definition prime_fill :: "nat \<Rightarrow> nat \<Rightarrow> u64 xdp_ring \<Rightarrow> u64 xdp_ring option" where
  "prime_fill frame_count frame_size R = do {
     descs \<leftarrow> foldM (prime_step frame_size (xr_mask R)) [0..<frame_count] (xr_descs R);
     Some (R\<lparr>xr_descs := descs, xr_producer := word_of_nat frame_count\<rparr>) }"

section \<open>Rings as queues\<close>

definition xr_inv :: "'d xdp_ring \<Rightarrow> bool" where
  "xr_inv R \<longleftrightarrow> is_pow2 (length (xr_descs R)) \<and> length (xr_descs R) \<le> 2 ^ 31 \<and>
     xr_mask R = word_of_nat (length (xr_descs R) - 1) \<and> unat (xr_producer R - xr_consumer R) \<le> length (xr_descs R)"

definition pending :: "'d xdp_ring \<Rightarrow> 'd list" where
  "pending R = cells_from (xr_descs R) (unat (xr_consumer R)) (unat (xr_consumer R) + unat (xr_producer R - xr_consumer R))"

lemma length_pending [simp]: "length (pending R) = unat (xr_producer R - xr_consumer R)"
  by (simp add: pending_def)

lemma ring_size_dvd: "is_pow2 n \<Longrightarrow> n \<le> 2 ^ 31 \<Longrightarrow> n dvd 2 ^ 32"
proof -
  assume "is_pow2 n" "n \<le> 2 ^ 31"
  then obtain k where k: "n = 2 ^ k" by (auto simp: is_pow2_iff)
  with \<open>n \<le> 2 ^ 31\<close> have "k \<le> 31" using power_le_imp_le_exp [of 2 k 31] by simp
  then show ?thesis unfolding k by (intro le_imp_power_dvd) simp
qed

text \<open>Masking a wrapped 32-bit position is the remainder of the position that does not wrap.\<close>

lemma masked_position:
  assumes "is_pow2 n" "n \<le> 2 ^ 31" "m = word_of_nat (n - 1)"
  shows "unat ((c + word_of_nat i) AND m :: u32) = (unat c + i) mod n"
proof -
  obtain k where k: "n = 2 ^ k" using assms(1) by (auto simp: is_pow2_iff)
  have "m = mask k" using assms(3) k by (simp add: mask_eq_exp_minus_1 of_nat_diff)
  then have "unat ((c + word_of_nat i) AND m) = take_bit k (unat (c + word_of_nat i))"
    by (simp add: take_bit_eq_mask [symmetric] unsigned_take_bit_eq)
  also have "\<dots> = (unat c + i) mod 2 ^ 32 mod 2 ^ k"
    by (simp add: take_bit_eq_mod unat_word_ariths unsigned_of_nat mod_simps)
  also have "\<dots> = (unat c + i) mod n"
    using mod_mod_cancel [OF ring_size_dvd [OF assms(1,2)], of "unat c + i"] unfolding k .
  finally show ?thesis .
qed

lemma pending_nth: "i < length (pending R) \<Longrightarrow> pending R ! i = xr_descs R ! ((unat (xr_consumer R) + i) mod length (xr_descs R))"
  by (simp add: pending_def cells_from_def)

lemma cells_from_cong: "t mod length buf = t' mod length buf \<Longrightarrow> cells_from buf t (t + m) = cells_from buf t' (t' + m)"
  by (rule nth_equalityI) (simp_all add: cells_from_def, metis mod_add_left_eq)

lemma xr_pos:
  assumes "xr_inv R"
  shows "unat ((xr_consumer R + word_of_nat i) AND xr_mask R) = (unat (xr_consumer R) + i) mod length (xr_descs R)"
  using assms by (intro masked_position) (simp_all add: xr_inv_def)

lemma xr_next_pos:
  assumes "xr_inv R"
  shows "unat ((xr_producer R + word_of_nat i) AND xr_mask R) =
    (unat (xr_consumer R) + length (pending R) + i) mod length (xr_descs R)"
proof -
  have "xr_producer R + word_of_nat i = xr_consumer R + word_of_nat (length (pending R) + i)" by simp
  then show ?thesis by (simp only: xr_pos [OF assms] add.assoc)
qed

text \<open>The consumer takes from the front, the producer adds at the end.\<close>

lemma xr_consume:
  assumes inv: "xr_inv R" and k: "k \<le> length (pending R)"
  shows "xr_inv (R\<lparr>xr_consumer := xr_consumer R + word_of_nat k\<rparr>)"
    "pending (R\<lparr>xr_consumer := xr_consumer R + word_of_nat k\<rparr>) = drop k (pending R)"
proof -
  let ?n = "length (xr_descs R)" and ?c = "xr_consumer R"
  let ?R = "R\<lparr>xr_consumer := ?c + word_of_nat k\<rparr>"
  have small: "length (pending R) < 2 ^ 32" using inv by (simp add: xr_inv_def)
  have left: "unat (xr_producer R - (?c + word_of_nat k)) = length (pending R) - k"
  proof -
    have "xr_producer R - (?c + word_of_nat k) = word_of_nat (length (pending R) - k)"
      using k by (simp add: of_nat_diff algebra_simps)
    then show ?thesis using small by (simp add: unsigned_of_nat take_bit_nat_eq_self)
  qed
  with inv show "xr_inv ?R" by (auto simp: xr_inv_def)
  have "unat (?c + word_of_nat k) mod ?n = (unat ?c + k) mod ?n"
  proof -
    have "?n dvd 2 ^ 32" using inv by (intro ring_size_dvd) (simp_all add: xr_inv_def)
    moreover have "unat (?c + word_of_nat k) = (unat ?c + k) mod 2 ^ 32" by (simp add: unat_word_ariths unsigned_of_nat take_bit_eq_mod mod_simps)
    ultimately show ?thesis by (simp only: mod_mod_cancel)
  qed
  from cells_from_cong [OF this, of "length (pending R) - k"] left
  have "pending ?R = cells_from (xr_descs R) (unat ?c + k) (unat ?c + k + (length (pending R) - k))"
    by (simp add: pending_def)
  also have "\<dots> = drop k (pending R)" using k by (simp add: pending_def cells_from_def drop_map)
  finally show "pending ?R = drop k (pending R)" .
qed

lemma xr_size_pos: "xr_inv R \<Longrightarrow> 0 < length (xr_descs R)"
  using is_pow2_pos [of "length (xr_descs R)"] by (simp add: xr_inv_def)

lemma refill_ok:
  assumes inv: "xr_inv R" and room: "length (pending R) + k \<le> length (xr_descs R)" and k: "k \<le> length as"
  shows "\<exists>ds. foldM (refill_step as (xr_producer R) (xr_mask R)) [0..<k] (xr_descs R) = Some ds \<and> length ds = length (xr_descs R) \<and>
    cells_from ds (unat (xr_consumer R)) (unat (xr_consumer R) + length (pending R) + k) = pending R @ take k as"
  using room k
proof (induction k)
  case 0
  then show ?case by (simp add: pending_def)
next
  case (Suc k)
  let ?c = "unat (xr_consumer R)" and ?n = "length (xr_descs R)"
  let ?h = "?c + length (pending R) + k"
  from Suc obtain ds where ds: "foldM (refill_step as (xr_producer R) (xr_mask R)) [0..<k] (xr_descs R) = Some ds" "length ds = ?n"
    "cells_from ds ?c ?h = pending R @ take k as" by auto
  have "0 < ?n" by (rule xr_size_pos [OF inv])
  then have step: "refill_step as (xr_producer R) (xr_mask R) k ds = Some (ds[?h mod ?n := as ! k])"
    using Suc.prems(2) ds(2) xr_next_pos [OF inv, of k] by (simp add: refill_step_def vread_def vwrite_def)
  have "cells_from (ds[?h mod ?n := as ! k]) ?c (Suc ?h) = cells_from ds ?c ?h @ [as ! k]"
    using cells_from_push [of ?c ?h ds "as ! k"] Suc.prems(1) ds(2) by simp
  with ds step Suc.prems(2) show ?case by (simp add: foldM_append take_Suc_conv_app_nth)
qed

lemma xr_produce:
  assumes inv: "xr_inv R" and room: "length (pending R) + length as \<le> length (xr_descs R)"
  shows "\<exists>ds. foldM (refill_step as (xr_producer R) (xr_mask R)) [0..<length as] (xr_descs R) = Some ds \<and>
    xr_inv (R\<lparr>xr_descs := ds, xr_producer := xr_producer R + word_of_nat (length as)\<rparr>) \<and>
    pending (R\<lparr>xr_descs := ds, xr_producer := xr_producer R + word_of_nat (length as)\<rparr>) = pending R @ as \<and>
    length ds = length (xr_descs R)"
proof -
  from refill_ok [OF inv room order_refl] obtain ds where ds: "foldM (refill_step as (xr_producer R) (xr_mask R)) [0..<length as] (xr_descs R) = Some ds"
    "length ds = length (xr_descs R)"
    "cells_from ds (unat (xr_consumer R)) (unat (xr_consumer R) + length (pending R) + length as) = pending R @ as" by auto
  have "xr_producer R + word_of_nat (length as) - xr_consumer R = word_of_nat (length (pending R) + length as)"
    by (simp add: algebra_simps)
  moreover have "length (pending R) + length as < 2 ^ 32" using inv room by (simp add: xr_inv_def)
  ultimately have cnt: "unat (xr_producer R + word_of_nat (length as) - xr_consumer R) = length (pending R) + length as"
    by (simp only: unsigned_of_nat take_bit_nat_eq_self len_of_numeral_defs) (simp add: take_bit_nat_eq_self)
  with ds inv room show ?thesis by (simp add: xr_inv_def pending_def add.assoc)
qed

section \<open>Polling\<close>

text \<open>What the handler sees of one descriptor.\<close>

definition handle :: "(byte list \<Rightarrow> u32 \<Rightarrow> 's \<Rightarrow> 's option) \<Rightarrow> byte list \<Rightarrow> xdp_desc \<Rightarrow> 's \<Rightarrow> 's option" where
  "handle on_frame umem d s = on_frame (drop (unat (d_addr d)) umem) (d_len d) s"

lemma drain_ok:
  assumes inv: "xr_inv (rx X)" and addr: "\<And>d. d \<in> set (pending (rx X)) \<Longrightarrow> unat (d_addr d) \<le> length (umem_area X)"
    and k: "k \<le> length (pending (rx X))"
  shows "foldM (drain_step on_frame X (xr_consumer (rx X))) [0..<k] (s, []) =
    map_option (\<lambda>s'. (s', map d_addr (take k (pending (rx X))))) (foldM (handle on_frame (umem_area X)) (take k (pending (rx X))) s)"
  using k
proof (induction k)
  case (Suc k)
  let ?d = "pending (rx X) ! k"
  have d: "?d \<in> set (pending (rx X))" using Suc.prems by (intro nth_mem) simp
  have "0 < length (xr_descs (rx X))" by (rule xr_size_pos [OF inv])
  then have "drain_step on_frame X (xr_consumer (rx X)) k (s', as) =
      map_option (\<lambda>s. (s, as @ [d_addr ?d])) (handle on_frame (umem_area X) ?d s')" for s' as
    using addr [OF d] pending_nth [of k "rx X"] Suc.prems xr_pos [OF inv, of k]
    by (simp add: drain_step_def vread_def handle_def not_less map_conv_bind_option comp_def)
  with Suc show ?case
    by (auto simp: foldM_append take_Suc_conv_app_nth map_conv_bind_option split: bind_split)
qed simp

definition xsk_inv :: "xsk \<Rightarrow> bool" where
  "xsk_inv X \<longleftrightarrow> xr_inv (rx X) \<and> xr_inv (fill_ring X) \<and>
     length (pending (rx X)) + length (pending (fill_ring X)) \<le> length (xr_descs (fill_ring X)) \<and>
     (\<forall>d \<in> set (pending (rx X)). unat (d_addr d) \<le> length (umem_area X))"

definition batch :: "xsk \<Rightarrow> xdp_desc list" where
  "batch X = take 64 (pending (rx X))"

lemma xsk_poll_ok:
  assumes inv: "xsk_inv X" and run: "foldM (handle on_frame (umem_area X)) (batch X) s = Some s'"
  shows "\<exists>X'. xsk_poll on_frame X s = Some (length (batch X), X', s') \<and> xsk_inv X' \<and> umem_area X' = umem_area X \<and>
    pending (rx X) = batch X @ pending (rx X') \<and> pending (fill_ring X') = pending (fill_ring X) @ map d_addr (batch X)"
proof (cases "xr_producer (rx X) - xr_consumer (rx X) = 0")
  case True
  then have "pending (rx X) = []" by (metis length_0_conv length_pending unat_0)
  with True run inv show ?thesis by (simp add: xsk_poll_def batch_def)
next
  case False
  from inv have I: "xr_inv (rx X)" "xr_inv (fill_ring X)"
    "length (pending (rx X)) + length (pending (fill_ring X)) \<le> length (xr_descs (fill_ring X))"
    "\<And>d. d \<in> set (pending (rx X)) \<Longrightarrow> unat (d_addr d) \<le> length (umem_area X)" by (auto simp: xsk_inv_def)
  let ?av = "xr_producer (rx X) - xr_consumer (rx X)"
  define av where "av = (if ?av > kMaxBatch then kMaxBatch else ?av)"
  have k: "unat av = length (batch X)" by (simp add: av_def batch_def kMaxBatch_def word_less_nat_alt min_def)
  have kw: "av = word_of_nat (length (batch X))" by (simp flip: k)
  have kl: "length (batch X) \<le> length (pending (rx X))" by (simp add: batch_def)
  have b: "take (length (batch X)) (pending (rx X)) = batch X" by (simp add: batch_def min_def)
  let ?X = "X\<lparr>rx := (rx X)\<lparr>xr_consumer := xr_consumer (rx X) + av\<rparr>\<rparr>"
  have drain: "foldM (drain_step on_frame X (xr_consumer (rx X))) [0..<unat av] (s, []) = Some (s', map d_addr (batch X))"
    using drain_ok [OF I(1,4) kl, of on_frame s] run unfolding k b by simp
  note c = xr_consume [OF I(1) kl, folded kw]
  have "length (pending (fill_ring X)) + length (map d_addr (batch X)) \<le> length (xr_descs (fill_ring X))" using I(3) kl by simp
  note p = xr_produce [OF I(2) this, unfolded length_map, folded kw, folded k]
  from p obtain ds where
    ds: "foldM (refill_step (map d_addr (batch X)) (xr_producer (fill_ring X)) (xr_mask (fill_ring X))) [0..<unat av] (xr_descs (fill_ring X)) = Some ds"
    "xr_inv ((fill_ring X)\<lparr>xr_descs := ds, xr_producer := xr_producer (fill_ring X) + av\<rparr>)"
    "pending ((fill_ring X)\<lparr>xr_descs := ds, xr_producer := xr_producer (fill_ring X) + av\<rparr>) = pending (fill_ring X) @ map d_addr (batch X)"
    "length ds = length (xr_descs (fill_ring X))"
    by blast
  let ?Y = "?X\<lparr>fill_ring := (fill_ring X)\<lparr>xr_descs := ds, xr_producer := xr_producer (fill_ring X) + av\<rparr>\<rparr>"
  have "xsk_poll on_frame X s = Some (length (batch X), ?Y, s')"
    using False drain ds(1) k by (simp add: xsk_poll_def av_def [symmetric])
  moreover have "pending (rx X) = batch X @ pending (rx ?Y)" using c(2) b by (simp) (metis append_take_drop_id)
  moreover from this have "xsk_inv ?Y" using I c(1) ds by (auto simp: xsk_inv_def)
  ultimately show ?thesis using ds(3) by auto
qed

text \<open>The effect on the rings does not depend on the handler.\<close>

lemma xsk_poll_handler_independent:
  assumes inv: "xsk_inv X" and h: "foldM (handle h (umem_area X)) (batch X) s = Some s'"
    and g: "foldM (handle g (umem_area X)) (batch X) t = Some t'" and run: "xsk_poll g X t = Some (n, X', u)"
  shows "xsk_poll h X s = Some (n, X', s') \<and> u = t'"
proof (cases "xr_producer (rx X) - xr_consumer (rx X) = 0")
  case True
  then have "pending (rx X) = []" by (metis length_0_conv length_pending unat_0)
  with True assms show ?thesis by (simp add: xsk_poll_def batch_def)
next
  case False
  from inv have I: "xr_inv (rx X)" "\<And>d. d \<in> set (pending (rx X)) \<Longrightarrow> unat (d_addr d) \<le> length (umem_area X)" by (auto simp: xsk_inv_def)
  let ?av = "xr_producer (rx X) - xr_consumer (rx X)"
  define av where "av = (if ?av > kMaxBatch then kMaxBatch else ?av)"
  have k: "unat av = length (batch X)" by (simp add: av_def batch_def kMaxBatch_def word_less_nat_alt min_def)
  have kl: "length (batch X) \<le> length (pending (rx X))" by (simp add: batch_def)
  have b: "take (length (batch X)) (pending (rx X)) = batch X" by (simp add: batch_def min_def)
  have "foldM (drain_step h X (xr_consumer (rx X))) [0..<unat av] (s, []) = Some (s', map d_addr (batch X))"
    "foldM (drain_step g X (xr_consumer (rx X))) [0..<unat av] (t, []) = Some (t', map d_addr (batch X))"
    using drain_ok [OF I kl, of h s] drain_ok [OF I kl, of g t] h g unfolding k b by simp_all
  with False run show ?thesis by (auto simp: xsk_poll_def av_def [symmetric] bind_eq_Some_iff)
qed

section \<open>Priming\<close>

lemma foldM_cong: "(\<And>x s. x \<in> set xs \<Longrightarrow> f x s = g x s) \<Longrightarrow> foldM f xs s = foldM g xs s"
  by (induction xs arbitrary: s) (auto split: bind_split)

definition fresh_ring :: "'d \<Rightarrow> nat \<Rightarrow> 'd xdp_ring" where
  "fresh_ring d n = \<lparr>xr_producer = 0, xr_consumer = 0, xr_descs = replicate n d, xr_mask = word_of_nat (n - 1)\<rparr>"

lemma fresh_ring_ok: "is_pow2 n \<Longrightarrow> n \<le> 2 ^ 31 \<Longrightarrow> xr_inv (fresh_ring d n) \<and> pending (fresh_ring d n) = []"
  by (simp add: xr_inv_def fresh_ring_def pending_def)

lemma prime_fill_ok:
  assumes n: "is_pow2 n" "n \<le> 2 ^ 31"
  shows "\<exists>R. prime_fill n frame_size (fresh_ring d n) = Some R \<and> xr_inv R \<and> pending R = map (\<lambda>i. word_of_nat (i * frame_size)) [0..<n]"
proof -
  let ?R = "fresh_ring d n" and ?as = "map (\<lambda>i. word_of_nat (i * frame_size) :: u64) [0..<n]"
  note f = fresh_ring_ok [OF n, of d]
  have "prime_step frame_size (xr_mask ?R) i ds = refill_step ?as (xr_producer ?R) (xr_mask ?R) i ds" if "i \<in> set [0..<n]" for i ds
  proof -
    have "unat ((0 + word_of_nat i) AND xr_mask ?R) = i mod n"
      using masked_position [OF n, of "xr_mask ?R" 0 i] by (simp add: fresh_ring_def)
    moreover have "unat (xr_mask ?R) = n - 1" using n(2) by (simp add: fresh_ring_def unsigned_of_nat take_bit_nat_eq_self)
    ultimately show ?thesis using that and_pred_mod(1) [OF n(1), of i]
      by (simp add: prime_step_def refill_step_def vread_def) (simp add: fresh_ring_def)
  qed
  then have eq: "foldM (prime_step frame_size (xr_mask ?R)) [0..<n] ds = foldM (refill_step ?as (xr_producer ?R) (xr_mask ?R)) [0..<n] ds" for ds
    by (rule foldM_cong)
  have "length (pending ?R) + length ?as \<le> length (xr_descs ?R)" using f by (simp add: fresh_ring_def)
  from xr_produce [OF conjunct1 [OF f] this] f eq show ?thesis by (auto simp: prime_fill_def fresh_ring_def)
qed

section \<open>Properties\<close>

text \<open>
  C39.  A poll delivers and recycles: it hands the oldest waiting frames, at most 64, to the
  handler in the order of their arrival, each exactly once; it then returns exactly their
  addresses to the fill ring, behind those already there, so that no frame is lost or
  duplicated; and it works across the wrap-around of the 32-bit positions.
\<close>

theorem poll_delivers_and_recycles:
  assumes "xsk_inv X" "foldM (handle on_frame (umem_area X)) (batch X) s = Some s'"
  shows "\<exists>X'. xsk_poll on_frame X s = Some (length (batch X), X', s') \<and> xsk_inv X' \<and>
    pending (rx X) = batch X @ pending (rx X') \<and> pending (fill_ring X') = pending (fill_ring X) @ map d_addr (batch X) \<and>
    mset (map d_addr (pending (rx X'))) + mset (pending (fill_ring X')) = mset (map d_addr (pending (rx X))) + mset (pending (fill_ring X))"
proof -
  from xsk_poll_ok [OF assms] obtain X' where "xsk_poll on_frame X s = Some (length (batch X), X', s')" "xsk_inv X'"
    "pending (rx X) = batch X @ pending (rx X')" "pending (fill_ring X') = pending (fill_ring X) @ map d_addr (batch X)" by blast
  then show ?thesis by (intro exI [of _ X']) (simp add: ac_simps)
qed

text \<open>A socket whose receive positions wrap during the poll.\<close>

definition wrapping :: xsk where
  "wrapping = \<lparr>umem_area = replicate 8 0,
     rx = \<lparr>xr_producer = 1, xr_consumer = 4294967295, xr_descs = [\<lparr>d_addr = 4, d_len = 2\<rparr>, \<lparr>d_addr = 0, d_len = 3\<rparr>], xr_mask = 1\<rparr>,
     fill_ring = \<lparr>xr_producer = 0, xr_consumer = 0, xr_descs = [0, 0], xr_mask = 1\<rparr>\<rparr>"

theorem poll_delivers_and_recycles_witness:
  "\<exists>X'. xsk_poll (\<lambda>bs n log. Some (log @ [unat n])) wrapping [] = Some (2, X', [3, 2]) \<and> pending (fill_ring X') = [0, 4]"
proof -
  have p: "pending (rx wrapping) = [\<lparr>d_addr = 0, d_len = 3\<rparr>, \<lparr>d_addr = 4, d_len = 2\<rparr>]" "pending (fill_ring wrapping) = []"
    by (simp_all add: wrapping_def pending_def cells_from_def upt_rec numeral_2_eq_2 [symmetric])
  have "is_pow2 2" using is_pow2_power [of 1] by simp
  then have "is_pow2 (Suc (Suc 0))" by (simp add: numeral_2_eq_2)
  then have "xsk_inv wrapping" by (simp add: xsk_inv_def p) (simp add: wrapping_def xr_inv_def)
  from poll_delivers_and_recycles [OF this, of "\<lambda>bs n log. Some (log @ [unat n])" "[]" "[3, 2]"] show ?thesis
    by (simp add: batch_def p handle_def) (auto simp: p)
qed

text \<open>
  Priming gives the kernel every frame of the area exactly once, in order.
\<close>

theorem prime_fill_complete:
  assumes "is_pow2 n" "n \<le> 2 ^ 31"
  shows "\<exists>R. prime_fill n frame_size (fresh_ring d n) = Some R \<and> xr_inv R \<and> pending R = map (\<lambda>i. word_of_nat (i * frame_size)) [0..<n]"
  using assms by (rule prime_fill_ok)

theorem prime_fill_complete_witness:
  "\<exists>R. prime_fill 2 2048 (fresh_ring 0 2) = Some R \<and> pending R = [0, 2048]"
  using prime_fill_complete [of 2 2048 0] is_pow2_power [of 1] by (auto simp: upt_rec)

end
