(* ===== verification/Xdp_Socket.thy ===== *)
theory Xdp_Socket
  imports Xdp_Rings
begin

text \<open>
  Set-up and tear-down of the AF_XDP socket, \<^verbatim>\<open>src/xdp_socket.cpp\<close>.  The kernel and libbpf are one
  record of the results of their calls.  What the program acquires and releases is written to a
  log, in the order of the calls, so that leaks can be stated.  Pointers are 64-bit numbers with
  0 as the null pointer; the messages on the error stream are the constructors of a datatype.
\<close>

section \<open>Kernel calls\<close>

record ring_offsets =
  off_producer :: u64
  off_consumer :: u64
  off_desc :: u64

datatype sockopt =
    XDP_UMEM_REG u64 u64 u32
  | XDP_UMEM_FILL_RING int
  | XDP_RX_RING int
  | XDP_UMEM_COMPLETION_RING int
  | XDP_TX_RING int

datatype bind_mode = XDP_ZEROCOPY | XDP_COPY

datatype ring_page = XDP_UMEM_PGOFF_FILL_RING | XDP_PGOFF_RX_RING

text \<open>
  The results of the calls as functions of their arguments.  A failed \<^verbatim>\<open>mmap\<close> is \<^const>\<open>None\<close>; the
  memory of the two rings is what the kernel has put there when it is mapped.
\<close>

record sys =
  if_nametoindex :: "string \<Rightarrow> u32"
  object_open :: "string \<Rightarrow> u64"
  get_error :: "u64 \<Rightarrow> int"
  object_load :: "u64 \<Rightarrow> int"
  find_program :: "u64 \<Rightarrow> string \<Rightarrow> u64"
  program_fd :: "u64 \<Rightarrow> int"
  xdp_attach :: "u32 \<Rightarrow> int \<Rightarrow> u32 \<Rightarrow> int"
  mmap_anonymous :: "u64 \<Rightarrow> u64 option"
  socket_call :: int
  setsockopt :: "int \<Rightarrow> sockopt \<Rightarrow> int"
  mmap_offsets :: "int \<Rightarrow> (ring_offsets \<times> ring_offsets) option"
  mmap_ring :: "int \<Rightarrow> ring_page \<Rightarrow> u64 \<Rightarrow> u64 option"
  fill_memory :: "u64 xdp_ring"
  rx_memory :: "xdp_desc xdp_ring"
  stat_call :: "string \<Rightarrow> int"
  bind_call :: "int \<Rightarrow> u32 \<Rightarrow> u32 \<Rightarrow> bind_mode \<Rightarrow> int"
  find_map :: "u64 \<Rightarrow> string \<Rightarrow> u64"
  map_fd :: "u64 \<Rightarrow> int"
  map_update_elem :: "int \<Rightarrow> u32 \<Rightarrow> int \<Rightarrow> int"
  xdp_statistics :: "int \<Rightarrow> int"

datatype event =
    Mapped u64 u64 | Unmapped u64 u64
  | Opened_socket int | Closed_fd int
  | Attached u32 u32 | Detached u32 u32
  | Opened_object u64 | Closed_object u64

definition XDP_FLAGS_SKB_MODE :: u32 where
  "XDP_FLAGS_SKB_MODE = 2"

section \<open>The socket\<close>

record mapped_ring =
  map_base :: u64
  map_len :: u64
  producer_ptr :: u64
  consumer_ptr :: u64
  descs_ptr :: u64
  ring_mask_field :: u32

definition no_ring :: mapped_ring where
  "no_ring = \<lparr>map_base = 0, map_len = 0, producer_ptr = 0, consumer_ptr = 0, descs_ptr = 0, ring_mask_field = 0\<rparr>"

text \<open>
  The members of the class, the log of the calls, and the memory behind the pointers, which is
  what \<^verbatim>\<open>poll\<close> works on.
\<close>

record xdp_socket =
  s_ifname :: string
  s_queue_id :: u32
  s_bpf_obj_path :: string
  s_frame_count :: u64
  s_frame_size :: u64
  s_ifindex :: u32
  s_fd :: int
  s_umem :: u64
  s_umem_size :: u64
  s_rx :: mapped_ring
  s_fill :: mapped_ring
  s_bpf_obj :: u64
  s_attached :: bool
  s_log :: "event list"
  s_memory :: xsk

definition no_memory :: xsk where
  "no_memory = \<lparr>umem_area = [], rx = \<lparr>xr_producer = 0, xr_consumer = 0, xr_descs = [], xr_mask = 0\<rparr>,
     fill_ring = \<lparr>xr_producer = 0, xr_consumer = 0, xr_descs = [], xr_mask = 0\<rparr>\<rparr>"

definition new_socket :: "string \<Rightarrow> u32 \<Rightarrow> string \<Rightarrow> u64 \<Rightarrow> u64 \<Rightarrow> xdp_socket" where
  "new_socket ifname queue_id bpf_obj_path frame_count frame_size =
     \<lparr>s_ifname = ifname, s_queue_id = queue_id, s_bpf_obj_path = bpf_obj_path, s_frame_count = frame_count, s_frame_size = frame_size,
      s_ifindex = 0, s_fd = -1, s_umem = 0, s_umem_size = 0, s_rx = no_ring, s_fill = no_ring, s_bpf_obj = 0, s_attached = False,
      s_log = [], s_memory = no_memory\<rparr>"

definition log_call :: "event \<Rightarrow> xdp_socket \<Rightarrow> xdp_socket" where
  "log_call e S = S\<lparr>s_log := s_log S @ [e]\<rparr>"

definition is_power_of_two :: "u64 \<Rightarrow> bool" where
  "is_power_of_two n \<longleftrightarrow> n \<noteq> 0 \<and> n AND (n - 1) = 0"

datatype xdp_error =
    Frame_count_not_power_of_two | Invalid_interface | Open_object_failed | Load_object_failed | Program_not_found
  | No_program_fd | Attach_failed | Umem_mmap_failed | Socket_failed | Umem_reg_failed | Fill_ring_failed | Rx_ring_failed
  | Completion_ring_failed | Tx_ring_failed | Offsets_failed | Fill_mmap_failed | Rx_mmap_failed | No_such_queue
  | Bind_failed | Map_not_found | No_map_fd | Register_failed

text \<open>
  A part of the set-up either goes on (no error) or returns false after its message.  Undefined
  behaviour is the outer \<^const>\<open>None\<close>.
\<close>

type_synonym xdp_step = "xdp_socket \<Rightarrow> (xdp_error option \<times> xdp_socket) option"

definition and_then :: "xdp_step \<Rightarrow> xdp_step \<Rightarrow> xdp_step" where
  "and_then f g S = do { (e, S) \<leftarrow> f S; if e = None then g S else Some (e, S) }"

definition load_and_attach_bpf :: "sys \<Rightarrow> xdp_step" where
  "load_and_attach_bpf K S = Some
     (let S = S\<lparr>s_ifindex := if_nametoindex K (s_ifname S)\<rparr> in
      if s_ifindex S = 0 then (Some Invalid_interface, S)
      else
        let S = S\<lparr>s_bpf_obj := object_open K (s_bpf_obj_path S)\<rparr> in
        if s_bpf_obj S = 0 \<or> get_error K (s_bpf_obj S) \<noteq> 0 then (Some Open_object_failed, S\<lparr>s_bpf_obj := 0\<rparr>)
        else
          let S = log_call (Opened_object (s_bpf_obj S)) S in
          if object_load K (s_bpf_obj S) \<noteq> 0 then (Some Load_object_failed, S)
          else
            let prog = find_program K (s_bpf_obj S) ''xdp_redirect_feed'' in
            if prog = 0 then (Some Program_not_found, S)
            else
              let prog_fd = program_fd K prog in
              if prog_fd < 0 then (Some No_program_fd, S)
              else if xdp_attach K (s_ifindex S) prog_fd XDP_FLAGS_SKB_MODE < 0 then (Some Attach_failed, S)
              else (None, (log_call (Attached (s_ifindex S) XDP_FLAGS_SKB_MODE) S)\<lparr>s_attached := True\<rparr>))"

text \<open>The parts of \<^verbatim>\<open>setup_umem_and_rings\<close>, in their order.\<close>

definition create_umem :: "sys \<Rightarrow> xdp_step" where
  "create_umem K S = Some
     (let S = S\<lparr>s_umem_size := s_frame_count S * s_frame_size S\<rparr> in
      case mmap_anonymous K (s_umem_size S) of
        None \<Rightarrow> (Some Umem_mmap_failed, S\<lparr>s_umem := 0\<rparr>)
      | Some a \<Rightarrow> (None, (log_call (Mapped a (s_umem_size S)) S)\<lparr>s_umem := a,
          s_memory := (s_memory S)\<lparr>umem_area := replicate (unat (s_umem_size S)) 0\<rparr>\<rparr>))"

definition create_fd :: "sys \<Rightarrow> xdp_step" where
  "create_fd K S = Some
     (let S = S\<lparr>s_fd := socket_call K\<rparr> in
      if s_fd S < 0 then (Some Socket_failed, S) else (None, log_call (Opened_socket (s_fd S)) S))"

definition register_rings :: "sys \<Rightarrow> xdp_step" where
  "register_rings K S = Some
     (let opt = setsockopt K (s_fd S); ring_size = sint (ucast (s_frame_count S) :: u32) in
      if opt (XDP_UMEM_REG (s_umem S) (s_umem_size S) (ucast (s_frame_size S))) \<noteq> 0 then (Some Umem_reg_failed, S)
      else if opt (XDP_UMEM_FILL_RING ring_size) \<noteq> 0 then (Some Fill_ring_failed, S)
      else if opt (XDP_RX_RING ring_size) \<noteq> 0 then (Some Rx_ring_failed, S)
      else if opt (XDP_UMEM_COMPLETION_RING ring_size) \<noteq> 0 then (Some Completion_ring_failed, S)
      else if opt (XDP_TX_RING ring_size) \<noteq> 0 then (Some Tx_ring_failed, S)
      else (None, S))"

definition ring_at :: "u64 \<Rightarrow> u64 \<Rightarrow> ring_offsets \<Rightarrow> u64 \<Rightarrow> mapped_ring" where
  "ring_at a len off n = \<lparr>map_base = a, map_len = len, producer_ptr = a + off_producer off, consumer_ptr = a + off_consumer off,
     descs_ptr = a + off_desc off, ring_mask_field = ucast (n - 1)\<rparr>"

definition map_fill :: "sys \<Rightarrow> ring_offsets \<Rightarrow> xdp_step" where
  "map_fill K off S = Some
     (let len = off_desc off + s_frame_count S * 8 in
      case mmap_ring K (s_fd S) XDP_UMEM_PGOFF_FILL_RING len of
        None \<Rightarrow> (Some Fill_mmap_failed, S\<lparr>s_fill := (s_fill S)\<lparr>map_len := len, map_base := 0\<rparr>\<rparr>)
      | Some a \<Rightarrow> (None, (log_call (Mapped a len) S)\<lparr>s_fill := ring_at a len off (s_frame_count S),
          s_memory := (s_memory S)\<lparr>fill_ring := (fill_memory K)\<lparr>xr_mask := ucast (s_frame_count S - 1)\<rparr>\<rparr>\<rparr>))"

definition map_rx :: "sys \<Rightarrow> ring_offsets \<Rightarrow> xdp_step" where
  "map_rx K off S = Some
     (let len = off_desc off + s_frame_count S * 16 in
      case mmap_ring K (s_fd S) XDP_PGOFF_RX_RING len of
        None \<Rightarrow> (Some Rx_mmap_failed, S\<lparr>s_rx := (s_rx S)\<lparr>map_len := len, map_base := 0\<rparr>\<rparr>)
      | Some a \<Rightarrow> (None, (log_call (Mapped a len) S)\<lparr>s_rx := ring_at a len off (s_frame_count S),
          s_memory := (s_memory S)\<lparr>rx := (rx_memory K)\<lparr>xr_mask := ucast (s_frame_count S - 1)\<rparr>\<rparr>\<rparr>))"

definition map_rings :: "sys \<Rightarrow> xdp_step" where
  "map_rings K S = (case mmap_offsets K (s_fd S) of
       None \<Rightarrow> Some (Some Offsets_failed, S)
     | Some (fr, rx_off) \<Rightarrow> and_then (map_fill K fr) (map_rx K rx_off) S)"

definition bind_queue :: "sys \<Rightarrow> xdp_step" where
  "bind_queue K S = Some
     (let queue_path = ''/sys/class/net/'' @ s_ifname S @ ''/queues/rx-'' @ digits (unat (s_queue_id S)) in
      if stat_call K queue_path \<noteq> 0 then (Some No_such_queue, S)
      else if bind_call K (s_fd S) (s_ifindex S) (s_queue_id S) XDP_ZEROCOPY \<noteq> 0 \<and>
        bind_call K (s_fd S) (s_ifindex S) (s_queue_id S) XDP_COPY \<noteq> 0 then (Some Bind_failed, S)
      else (None, S))"

definition register_socket :: "sys \<Rightarrow> xdp_step" where
  "register_socket K S = Some
     (let mp = find_map K (s_bpf_obj S) ''xsks_map'' in
      if mp = 0 then (Some Map_not_found, S)
      else let mfd = map_fd K mp in
        if mfd < 0 then (Some No_map_fd, S)
        else if map_update_elem K mfd (s_queue_id S) (s_fd S) \<noteq> 0 then (Some Register_failed, S)
        else (None, S))"

definition prime :: xdp_step where
  "prime S = do {
     R \<leftarrow> prime_fill (unat (s_frame_count S)) (unat (s_frame_size S)) (fill_ring (s_memory S));
     Some (None, S\<lparr>s_memory := (s_memory S)\<lparr>fill_ring := R\<rparr>\<rparr>) }"

definition setup_umem_and_rings :: "sys \<Rightarrow> xdp_step" where
  "setup_umem_and_rings K = and_then (create_umem K) (and_then (create_fd K) (and_then (register_rings K)
     (and_then (map_rings K) (and_then (bind_queue K) (and_then (register_socket K) prime)))))"

definition xdp_open :: "sys \<Rightarrow> xdp_step" where
  "xdp_open K S = (if \<not> is_power_of_two (s_frame_count S) then Some (Some Frame_count_not_power_of_two, S)
     else and_then (load_and_attach_bpf K) (setup_umem_and_rings K) S)"

definition get_stats :: "sys \<Rightarrow> xdp_socket \<Rightarrow> bool" where
  "get_stats K S \<longleftrightarrow> \<not> s_fd S < 0 \<and> xdp_statistics K (s_fd S) = 0"

text \<open>\<^verbatim>\<open>unmap_ring\<close>: the ring that is left, and the call it makes.\<close>

definition unmap_ring :: "mapped_ring \<Rightarrow> mapped_ring \<times> event list" where
  "unmap_ring R = (if map_base R \<noteq> 0 then (no_ring, [Unmapped (map_base R) (map_len R)]) else (R, []))"

definition unmap_rx :: "xdp_socket \<Rightarrow> xdp_socket" where
  "unmap_rx S = (let (R, es) = unmap_ring (s_rx S) in S\<lparr>s_rx := R, s_log := s_log S @ es\<rparr>)"

definition unmap_fill :: "xdp_socket \<Rightarrow> xdp_socket" where
  "unmap_fill S = (let (R, es) = unmap_ring (s_fill S) in S\<lparr>s_fill := R, s_log := s_log S @ es\<rparr>)"

definition close_fd :: "xdp_socket \<Rightarrow> xdp_socket" where
  "close_fd S = (if s_fd S \<ge> 0 then (log_call (Closed_fd (s_fd S)) S)\<lparr>s_fd := -1\<rparr> else S)"

definition unmap_umem :: "xdp_socket \<Rightarrow> xdp_socket" where
  "unmap_umem S = (if s_umem S \<noteq> 0 then (log_call (Unmapped (s_umem S) (s_umem_size S)) S)\<lparr>s_umem := 0\<rparr> else S)"

definition detach_program :: "xdp_socket \<Rightarrow> xdp_socket" where
  "detach_program S = (if s_attached S then (log_call (Detached (s_ifindex S) 0) S)\<lparr>s_attached := False\<rparr> else S)"

definition close_object :: "xdp_socket \<Rightarrow> xdp_socket" where
  "close_object S = (if s_bpf_obj S \<noteq> 0 then (log_call (Closed_object (s_bpf_obj S)) S)\<lparr>s_bpf_obj := 0\<rparr> else S)"

definition xdp_close :: "xdp_socket \<Rightarrow> xdp_socket" where
  "xdp_close S = close_object (detach_program (unmap_umem (close_fd (unmap_fill (unmap_rx S)))))"

section \<open>Resources\<close>

text \<open>
  What is held after a sequence of calls.  Releasing something that is not held is an error
  (\<^const>\<open>None\<close>).  Whether detaching with flags \<open>f\<close> removes a program that was attached with flags
  \<open>g\<close> is the kernel's choice, \<open>removes g f\<close>.
\<close>

datatype resource = Mapping u64 u64 | Descriptor int | Program u32 u32 | Object u64

type_synonym resources = "resource multiset"

definition give_back :: "resource \<Rightarrow> resources \<Rightarrow> resources option" where
  "give_back r M = (if r \<in># M then Some (M - {#r#}) else None)"

fun apply_event :: "(u32 \<Rightarrow> u32 \<Rightarrow> bool) \<Rightarrow> event \<Rightarrow> resources \<Rightarrow> resources option" where
  "apply_event removes (Mapped a n) M = Some (add_mset (Mapping a n) M)"
| "apply_event removes (Unmapped a n) M = give_back (Mapping a n) M"
| "apply_event removes (Opened_socket d) M = Some (add_mset (Descriptor d) M)"
| "apply_event removes (Closed_fd d) M = give_back (Descriptor d) M"
| "apply_event removes (Attached i g) M = Some (add_mset (Program i g) M)"
| "apply_event removes (Detached i f) M = (if \<exists>r \<in># M. \<exists>g. r = Program i g
     then Some (filter_mset (\<lambda>r. \<forall>g. r = Program i g \<longrightarrow> \<not> removes g f) M) else None)"
| "apply_event removes (Opened_object x) M = Some (add_mset (Object x) M)"
| "apply_event removes (Closed_object x) M = give_back (Object x) M"

definition held :: "(u32 \<Rightarrow> u32 \<Rightarrow> bool) \<Rightarrow> event list \<Rightarrow> resources option" where
  "held removes es = foldM (apply_event removes) es {#}"

lemma held_append [simp]: "held removes (es @ fs) = Option.bind (held removes es) (foldM (apply_event removes) fs)"
  by (simp add: held_def foldM_append)

lemma held_Nil [simp]: "held removes [] = Some {#}"
  by (simp add: held_def)

text \<open>What the members of the socket say it holds.\<close>

definition ring_owned :: "mapped_ring \<Rightarrow> resources" where
  "ring_owned R = (if map_base R \<noteq> 0 then {#Mapping (map_base R) (map_len R)#} else {#})"

definition owned :: "xdp_socket \<Rightarrow> resources" where
  "owned S = ring_owned (s_rx S) + ring_owned (s_fill S) + (if s_fd S \<ge> 0 then {#Descriptor (s_fd S)#} else {#}) +
     (if s_umem S \<noteq> 0 then {#Mapping (s_umem S) (s_umem_size S)#} else {#}) +
     (if s_attached S then {#Program (s_ifindex S) XDP_FLAGS_SKB_MODE#} else {#}) +
     (if s_bpf_obj S \<noteq> 0 then {#Object (s_bpf_obj S)#} else {#})"

definition accounted :: "(u32 \<Rightarrow> u32 \<Rightarrow> bool) \<Rightarrow> xdp_socket \<Rightarrow> bool" where
  "accounted removes S \<longleftrightarrow> held removes (s_log S) = Some (owned S)"

lemma ring_owned_none [simp]: "map_base R = 0 \<Longrightarrow> ring_owned R = {#}" "ring_owned no_ring = {#}"
  by (simp_all add: ring_owned_def no_ring_def)

lemma log_call_simps [simp]:
  "s_log (log_call e S) = s_log S @ [e]" "s_rx (log_call e S) = s_rx S" "s_fill (log_call e S) = s_fill S"
  "s_fd (log_call e S) = s_fd S" "s_umem (log_call e S) = s_umem S" "s_umem_size (log_call e S) = s_umem_size S"
  "s_attached (log_call e S) = s_attached S" "s_bpf_obj (log_call e S) = s_bpf_obj S" "s_ifindex (log_call e S) = s_ifindex S"
  "s_frame_count (log_call e S) = s_frame_count S" "s_frame_size (log_call e S) = s_frame_size S" "s_memory (log_call e S) = s_memory S"
  by (simp_all add: log_call_def)

section \<open>Set-up\<close>

text \<open>
  A part of the set-up returns, keeps the account, and establishes \<open>Q\<close> from \<open>P\<close> when it reports no
  error.
\<close>

definition keeps :: "(u32 \<Rightarrow> u32 \<Rightarrow> bool) \<Rightarrow> (xdp_socket \<Rightarrow> bool) \<Rightarrow> xdp_step \<Rightarrow> (xdp_socket \<Rightarrow> bool) \<Rightarrow> bool" where
  "keeps removes P f Q \<longleftrightarrow> (\<forall>S. accounted removes S \<longrightarrow> P S \<longrightarrow>
     (\<exists>e S'. f S = Some (e, S') \<and> accounted removes S' \<and> (e = None \<longrightarrow> Q S')))"

lemma keepsI:
  assumes "\<And>S. accounted removes S \<Longrightarrow> P S \<Longrightarrow> \<exists>e S'. f S = Some (e, S') \<and> accounted removes S' \<and> (e = None \<longrightarrow> Q S')"
  shows "keeps removes P f Q"
  using assms by (simp add: keeps_def)

lemma keeps_total:
  assumes "\<And>S. f S = Some (g S)"
    and "\<And>S. accounted removes S \<Longrightarrow> P S \<Longrightarrow> accounted removes (snd (g S)) \<and> (fst (g S) = None \<longrightarrow> Q (snd (g S)))"
  shows "keeps removes P f Q"
  by (rule keepsI) (metis assms prod.collapse)

lemma keepsD:
  assumes "keeps removes P f Q" "accounted removes S" "P S"
  shows "\<exists>e S'. f S = Some (e, S') \<and> accounted removes S' \<and> (e = None \<longrightarrow> Q S')"
  using assms by (simp add: keeps_def)

lemma keeps_and_then:
  assumes "keeps removes P f Q" "keeps removes Q g R"
  shows "keeps removes P (and_then f g) R"
proof (rule keepsI)
  fix S
  assume "accounted removes S" "P S"
  from keepsD [OF assms(1) this] obtain e T where T: "f S = Some (e, T)" "accounted removes T" "e = None \<longrightarrow> Q T" by blast
  show "\<exists>e S'. and_then f g S = Some (e, S') \<and> accounted removes S' \<and> (e = None \<longrightarrow> R S')"
  proof (cases e)
    case None
    with T keepsD [OF assms(2), of T] show ?thesis by (simp add: and_then_def)
  qed (use T in \<open>simp add: and_then_def\<close>)
qed

text \<open>What is documented of the kernel: no mapping is at the null address, and the mapped rings start empty.\<close>

definition sys_ok :: "sys \<Rightarrow> nat \<Rightarrow> bool" where
  "sys_ok K n \<longleftrightarrow> (\<forall>len. mmap_anonymous K len \<noteq> Some 0) \<and> (\<forall>d pg len. mmap_ring K d pg len \<noteq> Some 0) \<and>
     (\<exists>a d. fill_memory K = fresh_ring a n \<and> rx_memory K = fresh_ring d n)"

text \<open>How far the set-up has come.\<close>

definition sized :: "u64 \<Rightarrow> u64 \<Rightarrow> xdp_socket \<Rightarrow> bool" where
  "sized n m S \<longleftrightarrow> s_frame_count S = n \<and> s_frame_size S = m"

definition no_rings :: "xdp_socket \<Rightarrow> bool" where
  "no_rings S \<longleftrightarrow> map_base (s_rx S) = 0 \<and> map_base (s_fill S) = 0"

definition has_area :: "u64 \<Rightarrow> u64 \<Rightarrow> xdp_socket \<Rightarrow> bool" where
  "has_area n m S \<longleftrightarrow> length (umem_area (s_memory S)) = unat (n * m)"

definition rings_mapped :: "nat \<Rightarrow> xdp_socket \<Rightarrow> bool" where
  "rings_mapped n S \<longleftrightarrow> (\<exists>a d. fill_ring (s_memory S) = fresh_ring a n \<and> rx (s_memory S) = fresh_ring d n)"

lemmas stage_defs = sized_def no_rings_def has_area_def rings_mapped_def

lemma keeps_load:
  "keeps removes (\<lambda>S. sized n m S \<and> no_rings S \<and> s_fd S < 0 \<and> s_umem S = 0 \<and> s_bpf_obj S = 0 \<and> \<not> s_attached S) (load_and_attach_bpf K)
    (\<lambda>S. sized n m S \<and> no_rings S \<and> s_fd S < 0 \<and> s_umem S = 0)"
  by (rule keeps_total [OF load_and_attach_bpf_def]) (auto simp: accounted_def owned_def Let_def stage_defs)

lemma keeps_umem:
  "sys_ok K k \<Longrightarrow> keeps removes (\<lambda>S. sized n m S \<and> no_rings S \<and> s_fd S < 0 \<and> s_umem S = 0) (create_umem K)
    (\<lambda>S. sized n m S \<and> no_rings S \<and> s_fd S < 0 \<and> has_area n m S)"
  by (rule keeps_total [OF create_umem_def]) (auto simp: accounted_def owned_def Let_def stage_defs sys_ok_def split: option.split)

lemma keeps_fd:
  "keeps removes (\<lambda>S. sized n m S \<and> no_rings S \<and> s_fd S < 0 \<and> has_area n m S) (create_fd K) (\<lambda>S. sized n m S \<and> no_rings S \<and> has_area n m S)"
  by (rule keeps_total [OF create_fd_def]) (auto simp: accounted_def owned_def Let_def stage_defs)

lemma keeps_register: "keeps removes P (register_rings K) P"
  by (rule keeps_total [OF register_rings_def]) (simp add: Let_def)

lemma keeps_bind: "keeps removes P (bind_queue K) P"
  by (rule keeps_total [OF bind_queue_def]) (simp add: Let_def)

lemma keeps_socket: "keeps removes P (register_socket K) P"
  by (rule keeps_total [OF register_socket_def]) (simp add: Let_def)

lemma mask_fresh:
  assumes "n \<noteq> 0"
  shows "(fresh_ring d (unat n))\<lparr>xr_mask := ucast (n - 1 :: u64)\<rparr> = fresh_ring d (unat n)"
proof -
  have "unat (n - 1) = unat n - 1" using assms by (simp add: unat_minus_one)
  then have "(ucast (n - 1) :: u32) = word_of_nat (unat n - 1)" by (metis of_nat_unat)
  then show ?thesis by (simp add: fresh_ring_def)
qed

lemma keeps_map_fill:
  assumes "sys_ok K (unat n)" "n \<noteq> 0"
  shows "keeps removes (\<lambda>S. sized n m S \<and> no_rings S \<and> has_area n m S) (map_fill K off)
    (\<lambda>S. sized n m S \<and> map_base (s_rx S) = 0 \<and> has_area n m S \<and> (\<exists>a. fill_ring (s_memory S) = fresh_ring a (unat n)))"
  using assms by (intro keeps_total [OF map_fill_def])
    (auto simp: accounted_def owned_def Let_def stage_defs sys_ok_def ring_owned_def ring_at_def mask_fresh split: option.split)

lemma keeps_map_rx:
  assumes "sys_ok K (unat n)" "n \<noteq> 0"
  shows "keeps removes (\<lambda>S. sized n m S \<and> map_base (s_rx S) = 0 \<and> has_area n m S \<and> (\<exists>a. fill_ring (s_memory S) = fresh_ring a (unat n)))
    (map_rx K off) (\<lambda>S. sized n m S \<and> has_area n m S \<and> rings_mapped (unat n) S)"
  using assms by (intro keeps_total [OF map_rx_def])
    (auto simp: accounted_def owned_def Let_def stage_defs sys_ok_def ring_owned_def ring_at_def mask_fresh split: option.split)

lemma keeps_map_rings:
  assumes "sys_ok K (unat n)" "n \<noteq> 0"
  shows "keeps removes (\<lambda>S. sized n m S \<and> no_rings S \<and> has_area n m S) (map_rings K) (\<lambda>S. sized n m S \<and> has_area n m S \<and> rings_mapped (unat n) S)"
proof (rule keepsI)
  fix S
  assume S: "accounted removes S" "sized n m S \<and> no_rings S \<and> has_area n m S"
  show "\<exists>e S'. map_rings K S = Some (e, S') \<and> accounted removes S' \<and> (e = None \<longrightarrow> sized n m S' \<and> has_area n m S' \<and> rings_mapped (unat n) S')"
  proof (cases "mmap_offsets K (s_fd S)")
    case (Some offs)
    obtain f r where "offs = (f, r)" by fastforce
    with Some keepsD [OF keeps_and_then [OF keeps_map_fill [OF assms] keeps_map_rx [OF assms]] S] show ?thesis
      by (simp add: map_rings_def)
  qed (use S in \<open>simp add: map_rings_def\<close>)
qed

text \<open>A socket that is ready to be polled: nothing received yet, and the kernel has every frame.\<close>

definition ready :: "nat \<Rightarrow> nat \<Rightarrow> xsk \<Rightarrow> bool" where
  "ready n m X \<longleftrightarrow> xsk_inv X \<and> pending (rx X) = [] \<and> pending (fill_ring X) = map (\<lambda>i. word_of_nat (i * m)) [0..<n]"

lemma keeps_prime:
  assumes "is_pow2 (unat n)" "unat n \<le> 2 ^ 31"
  shows "keeps removes (\<lambda>S. sized n m S \<and> has_area n m S \<and> rings_mapped (unat n) S) prime (\<lambda>S. has_area n m S \<and> ready (unat n) (unat m) (s_memory S))"
proof (rule keepsI)
  fix S
  assume S: "accounted removes S" "sized n m S \<and> has_area n m S \<and> rings_mapped (unat n) S"
  then obtain a d where m: "fill_ring (s_memory S) = fresh_ring a (unat n)" "rx (s_memory S) = fresh_ring d (unat n)"
    by (auto simp: rings_mapped_def)
  from prime_fill_ok [OF assms, of "unat m" a] obtain R where
    R: "prime_fill (unat n) (unat m) (fresh_ring a (unat n)) = Some R" "xr_inv R" "pending R = map (\<lambda>i. word_of_nat (i * unat m)) [0..<unat n]" by blast
  let ?S = "S\<lparr>s_memory := (s_memory S)\<lparr>fill_ring := R\<rparr>\<rparr>"
  have "prime S = Some (None, ?S)" using S R(1) m by (simp add: prime_def sized_def)
  moreover have "accounted removes ?S" using S(1) by (simp add: accounted_def owned_def)
  moreover have "length (pending R) \<le> length (xr_descs R)" using R(2) by (simp add: xr_inv_def)
  then have "ready (unat n) (unat m) (s_memory ?S)"
    using R(2,3) m fresh_ring_ok [OF assms, of d] by (simp add: ready_def xsk_inv_def)
  ultimately show "\<exists>e S'. prime S = Some (e, S') \<and> accounted removes S' \<and> (e = None \<longrightarrow> has_area n m S' \<and> ready (unat n) (unat m) (s_memory S'))"
    using S(2) by (simp add: has_area_def)
qed

lemma is_power_of_two_iff: "is_power_of_two n \<longleftrightarrow> is_pow2 (unat n)"
proof (cases "n = 0")
  case False
  then have "unat (n - 1) = unat n - 1" by (simp add: unat_minus_one)
  moreover have "n AND (n - 1) = 0 \<longleftrightarrow> unat (n AND (n - 1)) = 0" by (simp add: unat_eq_zero)
  ultimately show ?thesis using False by (simp add: is_power_of_two_def is_pow2_def unsigned_and_eq unat_eq_zero)
qed (simp add: is_power_of_two_def is_pow2_def)

lemma keeps_open:
  assumes "sys_ok K (unat n)" "unat n \<le> 2 ^ 31"
  shows "keeps removes (\<lambda>S. sized n m S \<and> no_rings S \<and> s_fd S < 0 \<and> s_umem S = 0 \<and> s_bpf_obj S = 0 \<and> \<not> s_attached S) (xdp_open K)
    (\<lambda>S. is_pow2 (unat n) \<and> has_area n m S \<and> ready (unat n) (unat m) (s_memory S))"
proof (cases "is_pow2 (unat n)")
  case True
  then have "n \<noteq> 0" by (auto simp: is_pow2_def)
  note steps = keeps_and_then [OF keeps_load [of removes n m K] keeps_and_then [OF keeps_umem [OF assms(1)] keeps_and_then [OF keeps_fd
    keeps_and_then [OF keeps_register keeps_and_then [OF keeps_map_rings [OF assms(1) this] keeps_and_then [OF keeps_bind
    keeps_and_then [OF keeps_socket keeps_prime [OF True assms(2)]]]]]]]]
  show ?thesis
    using keepsD [OF steps] True by (intro keepsI) (auto simp: xdp_open_def setup_umem_and_rings_def is_power_of_two_iff sized_def)
next
  case False
  then show ?thesis by (intro keepsI) (simp add: xdp_open_def is_power_of_two_iff sized_def)
qed

lemma open_new_ok:
  assumes "sys_ok K (unat n)" "unat n \<le> 2 ^ 31"
  shows "\<exists>e S. xdp_open K (new_socket ifname queue_id path n m) = Some (e, S) \<and> accounted removes S \<and>
    (e = None \<longrightarrow> is_pow2 (unat n) \<and> has_area n m S \<and> ready (unat n) (unat m) (s_memory S))"
proof -
  let ?S = "new_socket ifname queue_id path n m"
  have "accounted removes ?S" "sized n m ?S \<and> no_rings ?S \<and> s_fd ?S < 0 \<and> s_umem ?S = 0 \<and> s_bpf_obj ?S = 0 \<and> \<not> s_attached ?S"
    by (simp_all add: new_socket_def accounted_def owned_def stage_defs no_ring_def ring_owned_def)
  from keepsD [OF keeps_open [OF assms] this] show ?thesis by blast
qed

section \<open>Tear-down\<close>

text \<open>After closing, only a program that the kernel does not remove can be left, and a second call does nothing.\<close>

definition left_over :: "(u32 \<Rightarrow> u32 \<Rightarrow> bool) \<Rightarrow> xdp_socket \<Rightarrow> resources" where
  "left_over removes S = (if s_attached S \<and> \<not> removes XDP_FLAGS_SKB_MODE 0 then {#Program (s_ifindex S) XDP_FLAGS_SKB_MODE#} else {#})"

text \<open>Each part of the tear-down keeps the account, up to what has been left over before.\<close>

definition accounted_but :: "(u32 \<Rightarrow> u32 \<Rightarrow> bool) \<Rightarrow> resources \<Rightarrow> xdp_socket \<Rightarrow> bool" where
  "accounted_but removes X S \<longleftrightarrow> held removes (s_log S) = Some (owned S + X)"

lemma accounted_but_none: "accounted removes S \<longleftrightarrow> accounted_but removes {#} S"
  by (simp add: accounted_def accounted_but_def)

lemma closed_parts [simp]:
  "map_base (s_rx (unmap_rx S)) = 0" "map_base (s_fill (unmap_fill S)) = 0" "s_fd (close_fd S) < 0" "\<not> 0 \<le> s_fd (close_fd S)" "s_umem (unmap_umem S) = 0"
  "\<not> s_attached (detach_program S)" "s_bpf_obj (close_object S) = 0"
  by (simp_all add: unmap_rx_def unmap_fill_def unmap_ring_def no_ring_def close_fd_def unmap_umem_def detach_program_def close_object_def)

lemma closed_stays [simp]:
  "s_rx (unmap_fill S) = s_rx S" "s_rx (close_fd S) = s_rx S" "s_rx (unmap_umem S) = s_rx S" "s_rx (detach_program S) = s_rx S"
  "s_rx (close_object S) = s_rx S" "s_fill (close_fd S) = s_fill S" "s_fill (unmap_umem S) = s_fill S"
  "s_fill (detach_program S) = s_fill S" "s_fill (close_object S) = s_fill S" "s_fd (unmap_umem S) = s_fd S"
  "s_fd (detach_program S) = s_fd S" "s_fd (close_object S) = s_fd S" "s_umem (detach_program S) = s_umem S"
  "s_umem (close_object S) = s_umem S" "s_attached (close_object S) = s_attached S"
  by (simp_all add: unmap_rx_def unmap_fill_def unmap_ring_def close_fd_def unmap_umem_def detach_program_def close_object_def)

lemma attached_stays [simp]:
  "s_attached (unmap_rx S) = s_attached S" "s_attached (unmap_fill S) = s_attached S" "s_attached (close_fd S) = s_attached S"
  "s_attached (unmap_umem S) = s_attached S" "s_ifindex (unmap_rx S) = s_ifindex S" "s_ifindex (unmap_fill S) = s_ifindex S"
  "s_ifindex (close_fd S) = s_ifindex S" "s_ifindex (unmap_umem S) = s_ifindex S"
  by (simp_all add: unmap_rx_def unmap_fill_def unmap_ring_def close_fd_def unmap_umem_def)

lemma unmap_rx_ok: "accounted_but removes X S \<Longrightarrow> accounted_but removes X (unmap_rx S)"
  by (simp add: accounted_but_def owned_def ring_owned_def unmap_rx_def unmap_ring_def give_back_def no_ring_def)

lemma unmap_fill_ok: "accounted_but removes X S \<Longrightarrow> accounted_but removes X (unmap_fill S)"
  by (simp add: accounted_but_def owned_def ring_owned_def unmap_fill_def unmap_ring_def give_back_def no_ring_def)

lemma close_fd_ok: "accounted_but removes X S \<Longrightarrow> accounted_but removes X (close_fd S)"
  by (simp add: accounted_but_def owned_def close_fd_def give_back_def)

lemma unmap_umem_ok: "accounted_but removes X S \<Longrightarrow> accounted_but removes X (unmap_umem S)"
  by (simp add: accounted_but_def owned_def unmap_umem_def give_back_def)

lemma close_object_ok: "accounted_but removes X S \<Longrightarrow> accounted_but removes X (close_object S)"
  by (simp add: accounted_but_def owned_def close_object_def give_back_def)

lemma detach_program_ok:
  assumes "accounted removes S"
  shows "accounted_but removes (left_over removes S) (detach_program S)"
  using assms by (simp add: accounted_but_def accounted_def owned_def ring_owned_def detach_program_def left_over_def)

lemma close_releases:
  assumes "accounted removes S"
  shows "held removes (s_log (xdp_close S)) = Some (left_over removes S)"
proof -
  have "accounted removes (unmap_umem (close_fd (unmap_fill (unmap_rx S))))"
    using assms by (simp add: accounted_but_none unmap_umem_ok close_fd_ok unmap_fill_ok unmap_rx_ok)
  from close_object_ok [OF detach_program_ok [OF this]] show ?thesis
    by (simp add: accounted_but_def owned_def xdp_close_def [symmetric] left_over_def) (simp add: xdp_close_def)
qed

lemma close_idempotent: "xdp_close (xdp_close S) = xdp_close S"
proof -
  have "xdp_close T = T" if "map_base (s_rx T) = 0" "map_base (s_fill T) = 0" "s_fd T < 0" "s_umem T = 0" "\<not> s_attached T" "s_bpf_obj T = 0" for T
    using that by (simp add: xdp_close_def unmap_rx_def unmap_fill_def unmap_ring_def close_fd_def unmap_umem_def detach_program_def close_object_def)
  then show ?thesis by (simp add: xdp_close_def)
qed

section \<open>Properties\<close>

text \<open>
  C22.  Opening and closing the socket, whichever of the kernel calls fail: \<open>open\<close> returns; when it
  reports success, the rings are in order, nothing has been received and the kernel has been given
  every frame of the area exactly once.  Closing afterwards, after a success or after any failure,
  releases everything that was acquired, nothing twice, with one exception, and a second call does nothing.  The
  exception is the attached program: it is attached in generic mode and detached without a mode, so it is
  released exactly when the kernel removes a program of generic mode on such a call (\<open>removes\<close>), and stays attached otherwise.
\<close>

theorem open_close_releases:
  assumes "sys_ok K (unat n)" "unat n \<le> 2 ^ 31"
  shows "\<exists>e S. xdp_open K (new_socket ifname queue_id path n m) = Some (e, S) \<and>
    (e = None \<longrightarrow> is_pow2 (unat n) \<and> length (umem_area (s_memory S)) = unat (n * m) \<and> xsk_inv (s_memory S) \<and> pending (rx (s_memory S)) = [] \<and>
      pending (fill_ring (s_memory S)) = map (\<lambda>i. word_of_nat (i * unat m)) [0..<unat n]) \<and>
    held removes (s_log (xdp_close S)) = Some (if s_attached S \<and> \<not> removes XDP_FLAGS_SKB_MODE 0
      then {#Program (s_ifindex S) XDP_FLAGS_SKB_MODE#} else {#}) \<and>
    xdp_close (xdp_close S) = xdp_close S"
proof -
  from open_new_ok [OF assms, of ifname queue_id path m removes] obtain e S where
    "xdp_open K (new_socket ifname queue_id path n m) = Some (e, S)" "accounted removes S"
    "e = None \<longrightarrow> is_pow2 (unat n) \<and> has_area n m S \<and> ready (unat n) (unat m) (s_memory S)" by blast
  then show ?thesis
    using close_releases [of removes S] close_idempotent [of S] by (simp add: ready_def has_area_def left_over_def)
qed

text \<open>A kernel where everything succeeds, and one where the socket cannot be bound.\<close>

definition demo_sys :: "bool \<Rightarrow> nat \<Rightarrow> sys" where
  "demo_sys binds n = \<lparr>if_nametoindex = (\<lambda>_. 3), object_open = (\<lambda>_. 16), get_error = (\<lambda>_. 0), object_load = (\<lambda>_. 0),
     find_program = (\<lambda>_ _. 17), program_fd = (\<lambda>_. 5), xdp_attach = (\<lambda>_ _ _. 0), mmap_anonymous = (\<lambda>_. Some 4096),
     socket_call = 6, setsockopt = (\<lambda>_ _. 0),
     mmap_offsets = (\<lambda>_. Some (\<lparr>off_producer = 0, off_consumer = 64, off_desc = 128\<rparr>, \<lparr>off_producer = 0, off_consumer = 64, off_desc = 128\<rparr>)),
     mmap_ring = (\<lambda>_ pg _. Some (if pg = XDP_PGOFF_RX_RING then 8192 else 12288)),
     fill_memory = fresh_ring 0 n, rx_memory = fresh_ring \<lparr>d_addr = 0, d_len = 0\<rparr> n,
     stat_call = (\<lambda>_. 0), bind_call = (\<lambda>_ _ _ mode. if binds \<and> mode = XDP_COPY then 0 else - 1),
     find_map = (\<lambda>_ _. 18), map_fd = (\<lambda>_. 7), map_update_elem = (\<lambda>_ _ _. 0), xdp_statistics = (\<lambda>_. 0)\<rparr>"

lemma demo_sys_ok: "sys_ok (demo_sys binds k) k"
  by (auto simp: sys_ok_def demo_sys_def)

lemma demo_open_result:
  assumes "xdp_open (demo_sys binds k) (new_socket ifname q path n m) = Some (e, S)" "is_power_of_two n"
  shows "(e = None) = binds"
  using assms by (auto simp: xdp_open_def and_then_def setup_umem_and_rings_def load_and_attach_bpf_def create_umem_def create_fd_def
    register_rings_def map_rings_def map_fill_def map_rx_def bind_queue_def register_socket_def prime_def demo_sys_def new_socket_def Let_def
    log_call_def bind_eq_Some_iff split: if_splits)

theorem open_close_releases_witness:
  "(\<exists>S. xdp_open (demo_sys True 2) (new_socket ''veth0'' 0 ''f.o'' 2 2048) = Some (None, S) \<and> held (\<lambda>_ _. True) (s_log (xdp_close S)) = Some {#}) \<and>
   (\<exists>e S. xdp_open (demo_sys False 2) (new_socket ''veth0'' 0 ''f.o'' 2 2048) = Some (Some e, S) \<and> held (\<lambda>_ _. True) (s_log (xdp_close S)) = Some {#})"
proof -
  have D: "\<exists>e S. xdp_open (demo_sys binds 2) (new_socket ''veth0'' 0 ''f.o'' 2 2048) = Some (e, S) \<and> (e = None) = binds \<and>
      held (\<lambda>_ _. True) (s_log (xdp_close S)) = Some {#}" for binds
  proof -
    from open_close_releases [of "demo_sys binds 2" 2 "''veth0''" 0 "''f.o''" 2048 "\<lambda>_ _. True"] demo_sys_ok [of binds 2] obtain e S where
      S: "xdp_open (demo_sys binds 2) (new_socket ''veth0'' 0 ''f.o'' 2 2048) = Some (e, S)" "held (\<lambda>_ _. True) (s_log (xdp_close S)) = Some {#}" by auto
    with demo_open_result [OF S(1)] show ?thesis by (auto simp: is_power_of_two_def)
  qed
  from D [of False] obtain x S where "xdp_open (demo_sys False 2) (new_socket ''veth0'' 0 ''f.o'' 2 2048) = Some (x, S)" "x \<noteq> None"
    "held (\<lambda>_ _. True) (s_log (xdp_close S)) = Some {#}" by auto
  with D [of True] show ?thesis by (cases x) simp_all
qed

end
