(* ===== verification/Xdp_Filter.thy ===== *)
theory Xdp_Filter
  imports Feed_Message
begin

text \<open>
  The frame filter \<^verbatim>\<open>ebpf/xdp_redirect.c\<close> that the kernel runs on every received frame.  A frame is
  the list of bytes between \<^verbatim>\<open>ctx->data\<close> and \<^verbatim>\<open>ctx->data_end\<close>; a load outside of it is
  \<^const>\<open>None\<close>.  The byte order of the host is a parameter, and so is the kernel's
  \<^verbatim>\<open>bpf_redirect_map\<close> on the socket map, a function of the queue and of the fall-back action.
\<close>

section \<open>The filter\<close>

datatype xdp_action = XDP_ABORTED | XDP_DROP | XDP_PASS | XDP_TX | XDP_REDIRECT

type_synonym u16 = "16 word"

definition FEED_UDP_PORT :: u16 where
  "FEED_UDP_PORT = 9999"

definition ETH_P_IP :: u16 where
  "ETH_P_IP = 0x800"

definition IPPROTO_UDP :: byte where
  "IPPROTO_UDP = 17"

text \<open>Loads of a 16-bit field in host order, and the conversions from and to network order.\<close>

definition load16 :: "bool \<Rightarrow> byte list \<Rightarrow> nat \<Rightarrow> u16 option" where
  "load16 big data i = do {
     x \<leftarrow> vread data i;
     y \<leftarrow> vread data (i + 1);
     Some (word_of_nat (host_value big [x, y])) }"

definition swap16 :: "u16 \<Rightarrow> u16" where
  "swap16 x = push_bit 8 x OR drop_bit 8 x"

definition bpf_htons :: "bool \<Rightarrow> u16 \<Rightarrow> u16" where
  "bpf_htons big x = (if big then x else swap16 x)"

definition bpf_ntohs :: "bool \<Rightarrow> u16 \<Rightarrow> u16" where
  "bpf_ntohs big x = (if big then x else swap16 x)"

text \<open>
  The headers: 14 bytes of Ethernet with the type at offset 12; 20 bytes of IPv4 with the header
  length in the low half of the first byte and the protocol at offset 9; 8 bytes of UDP with the
  destination port at offset 2.
\<close>

definition xdp_redirect_feed :: "bool \<Rightarrow> ('q \<Rightarrow> xdp_action \<Rightarrow> xdp_action) \<Rightarrow> 'q \<Rightarrow> byte list \<Rightarrow> xdp_action option" where
  "xdp_redirect_feed big bpf_redirect_map rx_queue_index data =
     (let eth = 0; data_end = length data in
      if eth + 14 > data_end then Some XDP_PASS
      else do {
        h_proto \<leftarrow> load16 big data (eth + 12);
        if h_proto \<noteq> bpf_htons big ETH_P_IP then Some XDP_PASS
        else
          let iph = eth + 14 in
          if iph + 20 > data_end then Some XDP_PASS
          else do {
            protocol \<leftarrow> vread data (iph + 9);
            if protocol \<noteq> IPPROTO_UDP then Some XDP_PASS
            else do {
              version_ihl \<leftarrow> vread data iph;
              if version_ihl AND 15 \<noteq> 5 then Some XDP_PASS
              else
                let udph = iph + 20 in
                if udph + 8 > data_end then Some XDP_PASS
                else do {
                  dest \<leftarrow> load16 big data (udph + 2);
                  if bpf_ntohs big dest \<noteq> FEED_UDP_PORT then Some XDP_PASS
                  else Some (bpf_redirect_map rx_queue_index XDP_PASS) } } } })"

section \<open>Network order\<close>

lemma swap16_swap16 [simp]: "swap16 (swap16 x) = x"
  by (rule bit_word_eqI) (auto simp: swap16_def bit_simps)

lemma unat_pair: "unat (word_of_nat (unat (x :: byte) + 256 * unat (y :: byte)) :: u16) = unat x + 256 * unat y"
proof -
  have "unat x < 256" "unat y < 256" using unsigned_less [of x] unsigned_less [of y] by simp_all
  then show ?thesis by (subst unsigned_of_nat) (simp add: take_bit_nat_eq_self)
qed

lemma base256_unique:
  assumes "x < 256" "a < (256 :: nat)"
  shows "x + 256 * y = a + 256 * b \<longleftrightarrow> x = a \<and> y = b"
proof
  assume eq: "x + 256 * y = a + 256 * b"
  have "x = (x + 256 * y) mod 256" using assms(1) by simp
  also have "\<dots> = a" using assms(2) by (simp add: eq)
  finally show "x = a \<and> y = b" using eq by simp
qed simp

lemma pair_eq_iff:
  assumes "a < 256" "b < 256"
  shows "(word_of_nat (unat (x :: byte) + 256 * unat (y :: byte)) :: u16) = word_of_nat (a + 256 * b) \<longleftrightarrow>
    x = word_of_nat a \<and> y = word_of_nat b"
proof -
  have l: "unat x < 256" "unat y < 256" using unsigned_less [of x] unsigned_less [of y] by simp_all
  have "unat (word_of_nat (a + 256 * b) :: u16) = a + 256 * b"
    using assms by (subst unsigned_of_nat) (simp add: take_bit_nat_eq_self)
  then have "(word_of_nat (unat x + 256 * unat y) :: u16) = word_of_nat (a + 256 * b) \<longleftrightarrow> unat x + 256 * unat y = a + 256 * b"
    using unat_pair [of x y] by (metis word_unat_eq_iff)
  also have "\<dots> \<longleftrightarrow> unat x = a \<and> unat y = b" using l assms by (intro base256_unique)
  also have "\<dots> \<longleftrightarrow> x = word_of_nat a \<and> y = word_of_nat b"
    using assms by (auto simp: word_unat_eq_iff unsigned_of_nat take_bit_nat_eq_self)
  finally show ?thesis .
qed

text \<open>A field in network order is compared with a constant byte by byte, on either kind of host.\<close>

lemma load16_network:
  assumes "a < 256" "b < 256" "i + 1 < length data" "swap16 (word_of_nat (256 * a + b)) = word_of_nat (a + 256 * b)"
  shows "\<exists>v. load16 big data i = Some v \<and> (v = bpf_htons big (word_of_nat (256 * a + b))) = (take 2 (drop i data) = [word_of_nat a, word_of_nat b]) \<and>
    (bpf_ntohs big v = word_of_nat (256 * a + b)) = (take 2 (drop i data) = [word_of_nat a, word_of_nat b])"
proof -
  let ?x = "data ! i" and ?y = "data ! (i + 1)"
  have two: "take 2 (drop i data) = [?x, ?y]"
    using assms(3) by (simp add: numeral_2_eq_2 Cons_nth_drop_Suc [symmetric])
  have l: "load16 big data i = Some (word_of_nat (host_value big [?x, ?y]))"
    using assms(3) by (simp add: load16_def vread_def)
  show ?thesis
  proof (cases big)
    case True
    with l two pair_eq_iff [OF assms(2,1), of ?y ?x] show ?thesis
      by (simp add: host_value_def bpf_htons_def bpf_ntohs_def add.commute conj_commute)
  next
    case False
    have "(swap16 v = word_of_nat (256 * a + b)) = (v = word_of_nat (a + 256 * b))" for v
      using assms(4) by (metis swap16_swap16)
    with False l two pair_eq_iff [OF assms(1,2), of ?x ?y] assms(4) show ?thesis
      by (simp add: host_value_def bpf_htons_def bpf_ntohs_def)
  qed
qed

section \<open>The decision\<close>

text \<open>What the program means by a frame of its feed, in terms of the bytes on the wire.\<close>

definition feed_frame :: "byte list \<Rightarrow> bool" where
  "feed_frame data \<longleftrightarrow> 42 \<le> length data \<and> take 2 (drop 12 data) = [0x08, 0x00] \<and> data ! 14 AND 15 = 5 \<and>
     data ! 23 = 17 \<and> take 2 (drop 36 data) = [0x27, 0x0F]"

lemma filter_decision:
  "xdp_redirect_feed big redirect q data = Some (if feed_frame data then redirect q XDP_PASS else XDP_PASS)"
proof -
  have sw: "swap16 (word_of_nat (256 * 8 + 0)) = word_of_nat (8 + 256 * 0)" "swap16 (word_of_nat (256 * 39 + 15)) = word_of_nat (39 + 256 * 15)"
    by (simp_all add: swap16_def)
  have c: "ETH_P_IP = word_of_nat (256 * 8 + 0)" "FEED_UDP_PORT = word_of_nat (256 * 39 + 15)"
    by (simp_all add: ETH_P_IP_def FEED_UDP_PORT_def)
  have E: "\<exists>v. load16 big data 12 = Some v \<and> (v = bpf_htons big ETH_P_IP) = (take 2 (drop 12 data) = [0x08, 0x00])" if "14 \<le> length data"
    using load16_network [OF _ _ _ sw(1), of 12 data big] that unfolding c by auto
  have U: "\<exists>v. load16 big data 36 = Some v \<and> (bpf_ntohs big v = FEED_UDP_PORT) = (take 2 (drop 36 data) = [0x27, 0x0F])" if "42 \<le> length data"
    using load16_network [OF _ _ _ sw(2), of 36 data big] that unfolding c by auto
  show ?thesis
  proof (cases "42 \<le> length data")
    case True
    with E U obtain v w where "load16 big data 12 = Some v" "(v = bpf_htons big ETH_P_IP) = (take 2 (drop 12 data) = [0x08, 0x00])"
      "load16 big data 36 = Some w" "(bpf_ntohs big w = FEED_UDP_PORT) = (take 2 (drop 36 data) = [0x27, 0x0F])" by fastforce
    with True show ?thesis by (simp add: xdp_redirect_feed_def feed_frame_def vread_def IPPROTO_UDP_def Let_def)
  next
    case False
    then have no: "\<not> feed_frame data" by (simp add: feed_frame_def)
    show ?thesis
    proof (cases "14 \<le> length data")
      case True
      with E obtain v where "load16 big data 12 = Some v" by blast
      with True False no show ?thesis by (simp add: xdp_redirect_feed_def vread_def Let_def)
    qed (simp add: xdp_redirect_feed_def no)
  qed
qed

section \<open>Properties\<close>

text \<open>
  C35.  The filter decides every frame without reading outside of it, the same way on hosts of
  either byte order: exactly the UDP datagrams to the feed port over IPv4 without options are
  handed to the socket map, with passing on as the fall-back; everything else is passed on.
\<close>

theorem filter_spec:
  "xdp_redirect_feed big redirect q data = Some (if feed_frame data then redirect q XDP_PASS else XDP_PASS)"
  by (rule filter_decision)

end
