(* ===== verification/Latency_Histogram.thy ===== *)
theory Latency_Histogram
  imports Bitmap Machine_Int
begin

text \<open>
  \<^verbatim>\<open>include/latency_histogram.hpp\<close>: the log-linear histogram.  Values and counters are 64-bit
  words.  The bucket function is related to its mathematical description on natural numbers,
  the state to the list of the recorded values, and the reported quantile to the true one.
\<close>

section \<open>Definitions\<close>

definition kExactBits :: nat where "kExactBits = 8"
definition kExact :: u64 where "kExact = push_bit kExactBits 1"
definition kSubBuckets :: u64 where "kSubBuckets = kExact div 2"
definition kMaxBits :: nat where "kMaxBits = 40"
definition kMaxValue :: u64 where "kMaxValue = push_bit kMaxBits 1 - 1"
definition kNumBuckets :: nat where
  "kNumBuckets = unat (kExact + word_of_nat (kMaxBits - kExactBits) * kSubBuckets)"

definition bucket_of :: "u64 \<Rightarrow> nat" where
  "bucket_of v =
     (if v < kExact then unat v
      else let msb = 63 - countl_zero v; shift = msb - (kExactBits - 1); sub = drop_bit shift v in
        unat (kExact + (word_of_nat shift - 1) * kSubBuckets + (sub - kSubBuckets)))"

definition bucket_upper :: "nat \<Rightarrow> u64" where
  "bucket_upper i =
     (if i < unat kExact then word_of_nat i
      else let k = word_of_nat i - kExact; shift = unat (k div kSubBuckets) + 1; sub = kSubBuckets + k mod kSubBuckets in
        push_bit shift sub + (push_bit shift 1 - 1))"

record histogram =
  h_counts :: "u64 list"
  h_total :: u64
  h_overflow :: u64
  h_min :: u64
  h_max :: u64

definition new_histogram :: histogram where
  "new_histogram = \<lparr>h_counts = replicate kNumBuckets 0, h_total = 0, h_overflow = 0, h_min = NOT 0, h_max = 0\<rparr>"

definition record_value :: "u64 \<Rightarrow> histogram \<Rightarrow> histogram option" where
  "record_value v h = do {
     (h, v) \<leftarrow> Some (if v > kMaxValue then (h\<lparr>h_overflow := h_overflow h + 1\<rparr>, kMaxValue) else (h, v));
     c \<leftarrow> vread (h_counts h) (bucket_of v);
     cs \<leftarrow> vwrite (h_counts h) (bucket_of v) (c + 1);
     h \<leftarrow> Some (h\<lparr>h_counts := cs, h_total := h_total h + 1\<rparr>);
     h \<leftarrow> Some (if v < h_min h then h\<lparr>h_min := v\<rparr> else h);
     Some (if v > h_max h then h\<lparr>h_max := v\<rparr> else h) }"

definition hist_count :: "histogram \<Rightarrow> u64" where "hist_count h = h_total h"
definition overflow_count :: "histogram \<Rightarrow> u64" where "overflow_count h = h_overflow h"
definition hist_min :: "histogram \<Rightarrow> u64" where "hist_min h = (if h_total h \<noteq> 0 then h_min h else 0)"
definition hist_max :: "histogram \<Rightarrow> u64" where "hist_max h = h_max h"

text \<open>The loop over the buckets from index \<open>i\<close> on, with the number of samples seen before.\<close>

fun quantile_loop :: "u64 list \<Rightarrow> nat \<Rightarrow> u64 \<Rightarrow> u64 \<Rightarrow> u64 \<Rightarrow> u64" where
  "quantile_loop [] i seen rank mx = mx"
| "quantile_loop (c # cs) i seen rank mx =
     (if seen + c \<ge> rank then (let hi = bucket_upper i in if hi < mx then hi else mx)
      else quantile_loop cs (Suc i) (seen + c) rank mx)"

text \<open>The 128-bit numerator never wraps, so it is a natural number.\<close>

definition quantile_ppm :: "u64 \<Rightarrow> histogram \<Rightarrow> u64" where
  "quantile_ppm ppm h =
     (if h_total h = 0 then 0
      else let num = unat (h_total h) * unat ppm;
               rank = word_of_nat ((num + 999999) div 1000000);
               rank = (if rank = 0 then 1 else rank)
           in quantile_loop (h_counts h) 0 0 rank (h_max h))"

section \<open>Buckets as intervals\<close>

text \<open>
  Bucket \<open>128 * s + u\<close> with \<open>u\<close> in [128, 256) holds the numbers whose leading eight bits are \<open>u\<close> and
  which have \<open>s\<close> bits more; below 128 every number has a bucket of its own.
\<close>

definition upper :: "nat \<Rightarrow> nat" where
  "upper i = (if i < 256 then i else (i mod 128 + 129) * 2 ^ (i div 128 - 1) - 1)"

lemma num_simps [simp]:
  "kExact = 256" "kSubBuckets = 128" "unat kExact = 256" "kNumBuckets = 4352" "unat kMaxValue = 2 ^ 40 - 1"
  by (simp_all add: kExact_def kExactBits_def kSubBuckets_def kNumBuckets_def kMaxBits_def kMaxValue_def push_bit_eq_mult)

lemma msb_range:
  fixes v :: u64
  assumes "v \<noteq> 0"
  shows "2 ^ (63 - countl_zero v) \<le> unat v \<and> unat v < 2 ^ Suc (63 - countl_zero v)"
proof -
  let ?m = "63 - countl_zero v"
  note c = countl_zero_spec [OF assms]
  have "bit (unat v) ?m" using c by (simp add: bit_unsigned_iff)
  then have "2 ^ ?m \<le> unat v" by (simp add: bit_iff_odd) (metis div_less even_zero linorder_not_less)
  moreover have "n \<le> ?m" if "bit v n" for n using c that by (meson linorder_not_less)
  then have "take_bit (Suc ?m) (unat v) = unat v"
    by (intro bit_eqI) (auto simp: bit_take_bit_iff bit_unsigned_iff less_Suc_eq_le)
  then have "unat v < 2 ^ Suc ?m" by (metis take_bit_nat_less_exp)
  ultimately show ?thesis by blast
qed

lemma bucket_of_cases:
  obtains "unat v < 128" "bucket_of v = unat v"
  | s u where "128 \<le> u" "u < 256" "unat v div 2 ^ s = u" "bucket_of v = 128 * s + u" "s \<le> 56" "s = 0 \<or> 256 \<le> unat v"
proof (cases "unat v < 256")
  case True
  then have "bucket_of v = unat v" by (simp add: bucket_of_def word_less_nat_alt)
  with that(1) that(2) [of "unat v" 0] True show ?thesis by (cases "unat v < 128") simp_all
next
  case False
  then have "v \<noteq> 0" by auto
  let ?m = "63 - countl_zero v"
  let ?s = "?m - 7" and ?u = "unat v div 2 ^ (?m - 7)"
  from msb_range [OF \<open>v \<noteq> 0\<close>] have r: "2 ^ ?m \<le> unat v" "unat v < 2 ^ Suc ?m" by blast+
  have m: "8 \<le> ?m"
  proof (rule ccontr)
    assume "\<not> 8 \<le> ?m"
    then have "(2::nat) ^ Suc ?m \<le> 2 ^ 8" by (intro power_increasing) auto
    with r(2) False show False by simp
  qed
  then have e: "(2::nat) ^ ?m = 128 * 2 ^ ?s" "(2::nat) ^ Suc ?m = 256 * 2 ^ ?s"
    using power_add [of "2::nat" ?s 7] power_add [of "2::nat" ?s 8] by simp_all
  have u: "128 \<le> ?u" "?u < 256"
    using r unfolding e by (simp_all add: less_eq_div_iff_mult_less_eq div_less_iff_less_mult)
  define s where "s = ?m - 7"
  define w where "w = ?u"
  have sub: "drop_bit s v = word_of_nat w"
  proof -
    have "unat (drop_bit s v) = w" unfolding unat_drop_bit_eq w_def s_def by (rule drop_bit_eq_div)
    moreover have "word_of_nat (unat x) = x" for x :: u64 by simp
    ultimately show ?thesis by metis
  qed
  have "bucket_of v = unat (256 + (word_of_nat s - 1) * 128 + (drop_bit s v - 128))"
    using False by (simp add: bucket_of_def word_less_nat_alt kExactBits_def Let_def s_def)
  also have "256 + (word_of_nat s - 1) * 128 + (drop_bit s v - 128) = (word_of_nat (128 * s + w) :: u64)"
    by (simp add: sub algebra_simps)
  also have "unat (word_of_nat (128 * s + w) :: u64) = 128 * s + w"
    using u(2) by (intro unat_small) (simp add: s_def w_def)
  finally show ?thesis using that(2) [of w s] u False by (simp add: s_def w_def)
qed

lemma upper_split:
  assumes "128 \<le> u" "u < 256"
  shows "upper (128 * s + u) = (u + 1) * 2 ^ s - 1"
proof (cases "s = 0")
  case False
  have "(128 * s + u) div 128 = Suc s" "(128 * s + u) mod 128 = u - 128"
    using assms div_mult_self4 [of 128 s u] by (simp_all add: div_nat_eqI mod_nat_eqI le_mod_geq)
  with False assms show ?thesis by (simp add: upper_def)
qed (use assms in \<open>simp add: upper_def\<close>)

lemma bucket_index_split: "128 \<le> i \<Longrightarrow> \<exists>s u. i = 128 * s + u \<and> 128 \<le> u \<and> u < (256 :: nat)"
proof -
  assume "128 \<le> i"
  then have "0 < i div 128" by simp
  then have "i = 128 * (i div 128 - 1) + (i mod 128 + 128)"
    using div_mult_mod_eq [of i 128] by (cases "i div 128") simp_all
  then show ?thesis by (metis add.commute le_add2 mod_less_divisor nat_add_left_cancel_less numeral_Bit0 zero_less_numeral)
qed

text \<open>Values with a seven-bit mantissa are ordered by exponent and mantissa.\<close>

lemma mantissa_order:
  fixes n u w s t :: nat
  assumes u: "128 \<le> u" "u < 256" and w: "128 \<le> w" "w < 256" and n: "u * 2 ^ s \<le> n" "n < (u + 1) * 2 ^ s"
  shows "128 * s + u \<le> 128 * t + w \<longleftrightarrow> n < (w + 1) * 2 ^ t"
proof -
  have gap: "(x + 1) * 2 ^ a \<le> y * 2 ^ c" if "x < 256" "128 \<le> y" "a < c" for x y a c :: nat
  proof -
    have "(x + 1) * 2 ^ a \<le> 256 * 2 ^ a" using that by (intro mult_le_mono) auto
    also have "\<dots> = 128 * 2 ^ Suc a" by simp
    also have "\<dots> \<le> y * 2 ^ c" using that by (intro mult_le_mono power_increasing) auto
    finally show ?thesis .
  qed
  consider "s = t" | "s < t" | "t < s" by linarith
  then show ?thesis
  proof cases
    case 1
    have "u < w + 1 \<longleftrightarrow> n < (w + 1) * 2 ^ s"
    proof
      assume "u < w + 1"
      then have "(u + 1) * 2 ^ s \<le> (w + 1) * 2 ^ s" by (intro mult_le_mono) auto
      with n(2) show "n < (w + 1) * 2 ^ s" by linarith
    next
      assume "n < (w + 1) * 2 ^ s"
      with n(1) have "u * 2 ^ s < (w + 1) * 2 ^ s" by linarith
      then show "u < w + 1" by (simp only: mult_less_cancel2)
    qed
    with 1 show ?thesis by auto
  next
    case 2
    have "(w :: nat) * 2 ^ t \<le> (w + 1) * 2 ^ t" by simp
    with gap [OF u(2) w(1) 2] n(2) have "n < (w + 1) * 2 ^ t" by linarith
    with 2 u w show ?thesis by auto
  next
    case 3
    with gap [OF w(2) u(1) 3] n(1) have "\<not> n < (w + 1) * 2 ^ t" by linarith
    with 3 u w show ?thesis by auto
  qed
qed

text \<open>The one fact about buckets: bucket \<open>i\<close> and those before it hold exactly the values up to its bound.\<close>

lemma bucket_le_iff: "bucket_of v \<le> i \<longleftrightarrow> unat v \<le> upper i"
proof (cases v rule: bucket_of_cases)
  case 1
  show ?thesis
  proof (cases "i < 128")
    case True
    then show ?thesis using 1 by (simp add: upper_def)
  next
    case False
    then obtain s u where i: "i = 128 * s + u" "128 \<le> u" "u < 256" using bucket_index_split [of i] by auto
    have "128 * 1 \<le> (u + 1) * 2 ^ s" using i by (intro mult_le_mono) auto
    then have "unat v \<le> upper i" using 1 upper_split [OF i(2,3), of s] unfolding i(1) by linarith
    with False 1 show ?thesis by simp
  qed
next
  case (2 s u)
  have n: "u * 2 ^ s \<le> unat v" "unat v < (u + 1) * 2 ^ s"
    using 2(3) div_times_less_eq_dividend [of "unat v" "2 ^ s"] dividend_less_div_times [of "2 ^ s" "unat v"] by simp_all
  show ?thesis
  proof (cases "i < 128")
    case True
    have "128 * 1 \<le> u * 2 ^ s" using 2 by (intro mult_le_mono) auto
    with True n 2 show ?thesis by (simp add: upper_def)
  next
    case False
    then obtain t w where i: "i = 128 * t + w" "128 \<le> w" "w < 256" using bucket_index_split [of i] by auto
    have "0 < (w + 1) * 2 ^ t" by simp
    then have "unat v \<le> upper i \<longleftrightarrow> unat v < (w + 1) * 2 ^ t" unfolding i(1) upper_split [OF i(2,3)] by linarith
    with mantissa_order [OF 2(1,2) i(2,3) n, of t] 2(4) i(1) show ?thesis by simp
  qed
qed

lemma bucket_small: "v \<le> kMaxValue \<Longrightarrow> bucket_of v < kNumBuckets"
proof -
  assume "v \<le> kMaxValue"
  then have "unat v \<le> 2 ^ 40 - 1" by (metis num_simps(5) word_le_nat_alt)
  moreover have "upper 4351 = 2 ^ 40 - 1" by (simp add: upper_def)
  ultimately show ?thesis using bucket_le_iff [of v 4351] by simp
qed

lemma upper_less: "i < kNumBuckets \<Longrightarrow> upper i < 2 ^ 40"
proof (cases "i < 128")
  case False
  moreover assume "i < kNumBuckets"
  ultimately obtain s u where i: "i = 128 * s + u" "128 \<le> u" "u < 256" "s \<le> 32" using bucket_index_split [of i] by auto
  have "(u + 1) * 2 ^ s \<le> 256 * 2 ^ 32" using i by (intro mult_le_mono power_increasing) auto
  then show ?thesis unfolding i(1) upper_split [OF i(2,3)] by simp
qed (simp add: upper_def)

lemma bucket_upper_ok: "i < kNumBuckets \<Longrightarrow> unat (bucket_upper i) = upper i"
proof -
  assume i: "i < kNumBuckets"
  have "bucket_upper i = word_of_nat (upper i)"
  proof (cases "i < 256")
    case True
    then show ?thesis by (simp add: bucket_upper_def upper_def)
  next
    case False
    then obtain s u where s: "i = 128 * s + u" "128 \<le> u" "u < 256" using bucket_index_split [of i] by auto
    with False obtain j where j: "s = Suc j" by (cases s) simp_all
    from s(2) obtain r where r: "u = 128 + r" using le_Suc_ex by blast
    have k: "word_of_nat i - 256 = (word_of_nat (128 * j + r) :: u64)" using s(1) j r by (simp add: algebra_simps)
    have un: "unat (word_of_nat (128 * j + r) :: u64) = 128 * j + r" using s(1) j r i by (intro unat_small) simp
    have d: "unat (word_of_nat (128 * j + r) div (128 :: u64)) = j"
      using s(3) r unfolding unat_div un by simp
    have m: "word_of_nat (128 * j + r) mod (128 :: u64) = word_of_nat r"
      unfolding word_unat_eq_iff unat_mod un using s(3) r by (simp add: unat_small)
    have "bucket_upper i = push_bit s (word_of_nat u) + (push_bit s 1 - 1)"
      using False unfolding bucket_upper_def k num_simps Let_def d m by (simp add: j r)
    also have "\<dots> = word_of_nat ((u + 1) * 2 ^ s) - 1" by (simp add: push_bit_eq_mult algebra_simps)
    also have "\<dots> = word_of_nat ((u + 1) * 2 ^ s - 1)" by (subst of_nat_diff) (simp_all add: Suc_le_eq)
    finally show ?thesis using upper_split [OF s(2,3)] s(1) by simp
  qed
  with upper_less [OF i] show ?thesis by (simp add: unat_small)
qed

lemma upper_bucket: "unat v \<le> upper (bucket_of v)"
  using bucket_le_iff [of v "bucket_of v"] by simp

text \<open>The resolution: the bound of a bucket exceeds each of its values by less than one part in 128.\<close>

lemma upper_close: "128 * (upper (bucket_of v) - unat v) \<le> unat v"
proof (cases v rule: bucket_of_cases)
  case 1
  then show ?thesis by (simp add: upper_def)
next
  case (2 s u)
  have "u * 2 ^ s \<le> unat v" using 2(3) div_times_less_eq_dividend [of "unat v" "2 ^ s"] by simp
  then have "upper (bucket_of v) - unat v \<le> 2 ^ s" unfolding 2(4) upper_split [OF 2(1,2)] by simp
  then have "128 * (upper (bucket_of v) - unat v) \<le> 128 * 2 ^ s" by simp
  also have "\<dots> \<le> u * 2 ^ s" using 2(1) by simp
  finally show ?thesis using \<open>u * 2 ^ s \<le> unat v\<close> by simp
qed

section \<open>The recorded values\<close>

definition clamp :: "u64 \<Rightarrow> u64" where
  "clamp v = (if v > kMaxValue then kMaxValue else v)"

definition hist_of :: "histogram \<Rightarrow> u64 list \<Rightarrow> bool" where
  "hist_of h xs \<longleftrightarrow> length (h_counts h) = kNumBuckets \<and>
     (\<forall>i < kNumBuckets. h_counts h ! i = word_of_nat (length (filter (\<lambda>x. bucket_of (clamp x) = i) xs))) \<and>
     h_total h = word_of_nat (length xs) \<and> h_overflow h = word_of_nat (length (filter (\<lambda>x. kMaxValue < x) xs)) \<and>
     h_min h = foldl (\<lambda>m x. min m (clamp x)) (NOT 0) xs \<and> h_max h = foldl (\<lambda>m x. max m (clamp x)) 0 xs"

lemma clamp_bucket [simp]: "bucket_of (clamp v) < kNumBuckets"
  by (rule bucket_small) (simp add: clamp_def not_less del: num_simps)

lemma hist_of_new: "hist_of new_histogram []"
  by (simp add: hist_of_def new_histogram_def del: num_simps)

lemma record_value_clamp:
  "record_value v h = do {
     c \<leftarrow> vread (h_counts h) (bucket_of (clamp v));
     cs \<leftarrow> vwrite (h_counts h) (bucket_of (clamp v)) (c + 1);
     Some (h\<lparr>h_overflow := h_overflow h + (if kMaxValue < v then 1 else 0), h_counts := cs, h_total := h_total h + 1,
       h_min := min (h_min h) (clamp v), h_max := max (h_max h) (clamp v)\<rparr>) }"
proof -
  have m: "min a b = (if b < a then b else a)" "max a b = (if a < b then b else a)" for a b :: u64
    by (auto simp: min_def max_def)
  show ?thesis by (cases "kMaxValue < v") (simp_all add: record_value_def clamp_def m del: num_simps cong: if_cong)
qed

lemma record_value_ok:
  assumes "hist_of h xs"
  shows "\<exists>h'. record_value v h = Some h' \<and> hist_of h' (xs @ [v])"
proof -
  have len: "length (h_counts h) = kNumBuckets" using assms by (simp add: hist_of_def)
  let ?i = "bucket_of (clamp v)"
  have "(h_counts h)[?i := h_counts h ! ?i + 1] ! i = word_of_nat (length (filter (\<lambda>x. bucket_of (clamp x) = i) (xs @ [v])))"
    if "i < kNumBuckets" for i
    using that assms len by (auto simp: hist_of_def nth_list_update)
  with assms show ?thesis unfolding record_value_clamp
    by (simp add: hist_of_def vread_def vwrite_def del: num_simps)
qed

text \<open>What the users of a histogram rely on: a recorded value is added to those that it stands for, and they are counted.\<close>

locale recorder =
  fixes stands_for :: "'h \<Rightarrow> 'v list \<Rightarrow> bool"
    and fresh :: 'h
    and rec :: "'v \<Rightarrow> 'h \<Rightarrow> 'h option"
    and total :: "'h \<Rightarrow> u64"
  assumes fresh_law: "stands_for fresh []"
    and rec_law: "stands_for h xs \<Longrightarrow> \<exists>h'. rec v h = Some h' \<and> stands_for h' (xs @ [v])"
    and total_law: "stands_for h xs \<Longrightarrow> total h = of_nat (length xs)"
begin

lemma record_all:
  assumes "stands_for h xs"
  shows "\<exists>h'. foldM rec vs h = Some h' \<and> stands_for h' (xs @ vs)"
  using assms
proof (induction vs arbitrary: h xs)
  case (Cons v vs)
  from rec_law [OF Cons.prems] obtain g where g: "rec v h = Some g" "stands_for g (xs @ [v])" by blast
  from Cons.IH [OF g(2)] g(1) show ?case by simp
qed simp

lemma record_fresh: "\<exists>h. foldM rec vs fresh = Some h \<and> stands_for h vs \<and> total h = of_nat (length vs)"
  using record_all [OF fresh_law, of vs] total_law by auto

end

interpretation hist: recorder hist_of new_histogram record_value hist_count
  by unfold_locales (fact hist_of_new, rule record_value_ok, simp_all add: hist_of_def hist_count_def)

section \<open>Quantiles\<close>

text \<open>The number of recorded values in the buckets before \<open>i\<close>.\<close>

definition below :: "u64 list \<Rightarrow> nat \<Rightarrow> nat" where
  "below xs i = length (filter (\<lambda>x. bucket_of (clamp x) < i) xs)"

lemma below_Suc: "below xs (Suc i) = below xs i + length (filter (\<lambda>x. bucket_of (clamp x) = i) xs)"
  by (induction xs) (auto simp: below_def less_Suc_eq)

lemma below_le: "below xs i \<le> length xs"
  by (simp add: below_def)

lemma quantile_loop_finds:
  assumes h: "hist_of h xs" "length xs < 2 ^ 64" and k: "k < kNumBuckets" "rank \<le> word_of_nat (below xs (Suc k))"
    and least: "\<And>i. i < k \<Longrightarrow> \<not> rank \<le> word_of_nat (below xs (Suc i))"
  shows "i \<le> k \<Longrightarrow> quantile_loop (drop i (h_counts h)) i (word_of_nat (below xs i)) rank mx = min (bucket_upper k) mx"
proof (induction "k - i" arbitrary: i)
  case 0
  then have "i = k" by simp
  moreover have "drop k (h_counts h) = h_counts h ! k # drop (Suc k) (h_counts h)"
    using h(1) k(1) by (intro Cons_nth_drop_Suc [symmetric]) (simp add: hist_of_def)
  moreover have "word_of_nat (below xs k) + h_counts h ! k = word_of_nat (below xs (Suc k))"
    using h(1) k(1) by (simp add: hist_of_def below_Suc)
  ultimately show ?case using k(2) by (simp add: min_def not_le Let_def) (auto dest: leD)
next
  case (Suc d)
  then have "i < k" by simp
  then have "i < kNumBuckets" using k(1) by simp
  have "drop i (h_counts h) = h_counts h ! i # drop (Suc i) (h_counts h)"
    using h(1) \<open>i < kNumBuckets\<close> by (intro Cons_nth_drop_Suc [symmetric]) (simp add: hist_of_def)
  moreover have "word_of_nat (below xs i) + h_counts h ! i = word_of_nat (below xs (Suc i))"
    using h(1) \<open>i < kNumBuckets\<close> by (simp add: hist_of_def below_Suc)
  moreover have "quantile_loop (drop (Suc i) (h_counts h)) (Suc i) (word_of_nat (below xs (Suc i))) rank mx = min (bucket_upper k) mx"
    using Suc \<open>i < k\<close> by (intro Suc(1)) simp_all
  ultimately show ?case using least [OF \<open>i < k\<close>] by simp
qed

text \<open>Counting in a sorted list.\<close>

lemma sorted_count:
  assumes "sorted ys" "r < length ys"
  shows "ys ! r \<le> (y :: 'a :: linorder) \<Longrightarrow> r < length (filter (\<lambda>x. x \<le> y) ys)"
    and "y < ys ! r \<Longrightarrow> length (filter (\<lambda>x. x \<le> y) ys) \<le> r"
proof -
  have card: "length (filter (\<lambda>x. x \<le> y) ys) = card {i. i < length ys \<and> ys ! i \<le> y}" by (rule length_filter_conv_card)
  show "r < length (filter (\<lambda>x. x \<le> y) ys)" if "ys ! r \<le> y"
  proof -
    have "{..r} \<subseteq> {i. i < length ys \<and> ys ! i \<le> y}" using assms that by (auto dest: sorted_nth_mono [of ys _ r])
    from card_mono [OF _ this] show ?thesis unfolding card by simp
  qed
  show "length (filter (\<lambda>x. x \<le> y) ys) \<le> r" if "y < ys ! r"
  proof -
    have "{i. i < length ys \<and> ys ! i \<le> y} \<subseteq> {..<r}"
      using assms that by (auto simp: not_less [symmetric] dest: sorted_nth_mono [of ys r])
    from card_mono [OF _ this] show ?thesis unfolding card by simp
  qed
qed

definition samples :: "u64 list \<Rightarrow> nat list" where
  "samples xs = sort (map (\<lambda>x. unat (clamp x)) xs)"

lemma below_samples: "below xs (Suc i) = length (filter (\<lambda>n. n \<le> upper i) (samples xs))"
proof -
  have "below xs (Suc i) = length (filter (\<lambda>x. unat (clamp x) \<le> upper i) xs)"
    by (simp add: below_def less_Suc_eq_le bucket_le_iff)
  also have "\<dots> = length (filter (\<lambda>n. n \<le> upper i) (map (\<lambda>x. unat (clamp x)) xs))" by (simp add: filter_map comp_def)
  finally show ?thesis by (simp add: samples_def filter_sort)
qed

text \<open>The position, from 1, of the sample that a quantile asks for.\<close>

definition rank_of :: "nat \<Rightarrow> nat \<Rightarrow> nat" where
  "rank_of ppm n = max 1 ((n * ppm + 999999) div 1000000)"

lemma rank_of_range: "0 < n \<Longrightarrow> ppm \<le> 1000000 \<Longrightarrow> 1 \<le> rank_of ppm n \<and> rank_of ppm n \<le> n"
proof -
  assume "0 < n" "ppm \<le> 1000000"
  then have "n * ppm + 999999 \<le> n * 1000000 + 999999" by simp
  then have "(n * ppm + 999999) div 1000000 \<le> (n * 1000000 + 999999) div 1000000" by (rule div_le_mono)
  also have "\<dots> = n" by simp
  finally show ?thesis using \<open>0 < n\<close> by (simp add: rank_of_def)
qed

lemma max_sample: "x \<in> set xs \<Longrightarrow> clamp x \<le> foldl (\<lambda>m x. max m (clamp x)) a xs"
proof (induction xs rule: rev_induct)
  case (snoc y ys)
  then show ?case by (auto simp: max_def)
qed simp

lemma quantile_ok:
  assumes h: "hist_of h xs" and n: "xs \<noteq> []" "length xs < 2 ^ 64" and ppm: "unat ppm \<le> 1000000"
  shows "\<exists>v \<in> set xs. unat (clamp v) = samples xs ! (rank_of (unat ppm) (length xs) - 1) \<and>
    quantile_ppm ppm h = min (bucket_upper (bucket_of (clamp v))) (h_max h)"
proof -
  let ?r = "rank_of (unat ppm) (length xs)"
  let ?ys = "samples xs"
  let ?rank = "word_of_nat ?r :: u64"
  from n(1) ppm have r: "1 \<le> ?r" "?r \<le> length xs" using rank_of_range [of "length xs" "unat ppm"] by simp_all
  have ys: "sorted ?ys" "length ?ys = length xs" by (simp_all add: samples_def)
  then have rl: "?r - 1 < length ?ys" using r by simp
  then have "?ys ! (?r - 1) \<in> set ?ys" by simp
  then obtain v where v: "v \<in> set xs" "unat (clamp v) = ?ys ! (?r - 1)" by (auto simp: samples_def)
  let ?k = "bucket_of (clamp v)"
  have cmp: "?rank \<le> word_of_nat (below xs i) \<longleftrightarrow> ?r \<le> below xs i" for i
    using r(2) n(2) below_le [of xs i] by (simp add: word_le_nat_alt unat_small)
  have "?ys ! (?r - 1) \<le> upper ?k" using upper_bucket [of "clamp v"] v(2) by simp
  then have top: "?rank \<le> word_of_nat (below xs (Suc ?k))"
    unfolding cmp unfolding below_samples using sorted_count(1) [OF ys(1) rl, of "upper ?k"] by linarith
  have least: "\<not> ?rank \<le> word_of_nat (below xs (Suc i))" if "i < ?k" for i
  proof -
    have "upper i < ?ys ! (?r - 1)" using that bucket_le_iff [of "clamp v" i] v(2) by simp
    then show ?thesis
      unfolding cmp unfolding below_samples using sorted_count(2) [OF ys(1) rl, of "upper i"] r(1) by linarith
  qed
  have tot: "unat (h_total h) = length xs" "h_total h \<noteq> 0"
    using h n by (simp_all add: hist_of_def unat_small) (simp add: unat_small word_unat_eq_iff)
  have "(if (word_of_nat ((length xs * unat ppm + 999999) div 1000000) :: u64) = 0 then 1
      else word_of_nat ((length xs * unat ppm + 999999) div 1000000)) = ?rank"
    using r(2) n(2) by (auto simp: rank_of_def max_def word_unat_eq_iff unat_small)
  then have "quantile_ppm ppm h = quantile_loop (drop 0 (h_counts h)) 0 (word_of_nat (below xs 0)) ?rank (h_max h)"
    using tot by (simp add: quantile_ppm_def Let_def below_def)
  also have "\<dots> = min (bucket_upper ?k) (h_max h)"
    by (rule quantile_loop_finds [OF h n(2) clamp_bucket top least]) simp_all
  finally show ?thesis using v by auto
qed

section \<open>Properties\<close>

text \<open>
  Recording is total and loses nothing but resolution: after any values have been recorded
  the counters of the buckets, the total, the number of clamped values and the extremes are
  those of the list of values.
\<close>

theorem histogram_records:
  "\<exists>h. foldM record_value vs new_histogram = Some h \<and> hist_of h vs"
  using hist.record_fresh [of vs] by blast

text \<open>
  C31.  Buckets: bucket \<open>i\<close> and the buckets before it hold exactly the values up to
  \<open>bucket_upper i\<close>, every trackable value has a bucket, and the bound reported for a value is
  never below it and exceeds it by at most one part in 128.
\<close>

theorem histogram_buckets:
  assumes "v \<le> kMaxValue" "i < kNumBuckets"
  shows "(bucket_of v \<le> i \<longleftrightarrow> v \<le> bucket_upper i) \<and> bucket_of v < kNumBuckets \<and> v \<le> bucket_upper (bucket_of v) \<and>
    128 * (unat (bucket_upper (bucket_of v)) - unat v) \<le> unat v"
  using bucket_small [OF assms(1)] bucket_le_iff [of v i] upper_bucket [of v] upper_close [of v] assms(2)
  by (simp add: word_le_nat_alt bucket_upper_ok)

theorem histogram_buckets_witness: "300 \<le> bucket_upper (bucket_of 300)"
  using histogram_buckets [of 300 0] by (simp add: word_le_nat_alt)

lemma samples_true: "samples xs = map (min (2 ^ 40 - 1)) (sort (map unat xs))"
proof -
  have c: "unat (clamp x) = min (2 ^ 40 - 1) (unat x)" for x
    by (auto simp: clamp_def kMaxValue_def kMaxBits_def word_less_nat_alt min_def)
  have "sorted (map (min k) ys)" if "sorted ys" for k :: nat and ys
    using that by (auto simp: sorted_iff_nth_mono min_le_iff_disj)
  moreover have "mset (map (min (2 ^ 40 - 1)) (sort (map unat xs))) = mset (map (\<lambda>x. unat (clamp x)) xs)"
    by (simp add: c image_mset.compositionality comp_def)
  ultimately show ?thesis unfolding samples_def by (metis properties_for_sort sorted_sort)
qed

lemma hist_max_bound: "hist_of h xs \<Longrightarrow> h_max h \<le> kMaxValue"
proof -
  have "foldl (\<lambda>m x. max m (clamp x)) a ys \<le> kMaxValue" if "a \<le> kMaxValue" for a ys
    using that
  proof (induction ys rule: rev_induct)
    case (snoc y ys)
    moreover have "clamp y \<le> kMaxValue" by (simp add: clamp_def not_less)
    ultimately show ?case by (simp add: max_def)
  qed simp
  moreover have "(0 :: u64) \<le> kMaxValue" by simp
  ultimately show "hist_of h xs \<Longrightarrow> ?thesis" by (simp add: hist_of_def)
qed

text \<open>
  C30.  Quantiles: let \<open>t\<close> be the true quantile of the recorded values, for any quantile up to one million parts per million.  As long as it is
  at most \<open>kMaxValue\<close>, the largest value that the histogram tracks, the reported value is at least \<open>t\<close> and exceeds it by at most one part in
  128.  A larger \<open>t\<close> is reported as \<open>kMaxValue\<close>, which is less than \<open>t\<close>: values above the limit are recorded as the limit.  The reported
  value never exceeds the reported maximum.
\<close>

theorem quantile_bounds:
  assumes "hist_of h xs" "xs \<noteq> []" "length xs < 2 ^ 64" "unat ppm \<le> 1000000"
  shows "let t = sort (map unat xs) ! (rank_of (unat ppm) (length xs) - 1); q = unat (quantile_ppm ppm h) in
    (t \<le> unat kMaxValue \<longrightarrow> t \<le> q \<and> 128 * (q - t) \<le> t) \<and> (unat kMaxValue < t \<longrightarrow> q = unat kMaxValue) \<and> q \<le> unat (hist_max h)"
proof -
  let ?k = "rank_of (unat ppm) (length xs) - 1" let ?t = "sort (map unat xs) ! ?k"
  have K: "unat kMaxValue = 2 ^ 40 - 1" by (simp add: kMaxValue_def kMaxBits_def)
  have "?k < length xs" using rank_of_range [of "length xs" "unat ppm"] assms(2,4) by (cases "length xs") auto
  then have t: "samples xs ! ?k = min (2 ^ 40 - 1) ?t" by (simp add: samples_true)
  from quantile_ok [OF assms] obtain v where v: "v \<in> set xs" "unat (clamp v) = samples xs ! ?k"
    "quantile_ppm ppm h = min (bucket_upper (bucket_of (clamp v))) (h_max h)" by blast
  have up: "unat (bucket_upper (bucket_of (clamp v))) = upper (bucket_of (clamp v))" by (rule bucket_upper_ok [OF clamp_bucket])
  have "clamp v \<le> h_max h" using assms(1) max_sample [OF v(1)] by (simp add: hist_of_def)
  with v up upper_bucket [of "clamp v"] upper_close [of "clamp v"] have
    q: "samples xs ! ?k \<le> unat (quantile_ppm ppm h)" "128 * (unat (quantile_ppm ppm h) - samples xs ! ?k) \<le> samples xs ! ?k"
      "unat (quantile_ppm ppm h) \<le> unat (hist_max h)"
    by (auto simp: min_def hist_max_def word_le_nat_alt)
  moreover have "unat (hist_max h) \<le> 2 ^ 40 - 1" using hist_max_bound [OF assms(1)] K by (simp add: hist_max_def word_le_nat_alt)
  ultimately show ?thesis using t unfolding Let_def K by (auto simp: min_def split: if_splits)
qed

theorem quantile_bounds_witness:
  "\<exists>h. foldM record_value [5, 300, 7] new_histogram = Some h \<and> 7 \<le> unat (quantile_ppm 500000 h)"
proof -
  from hist.record_fresh [of "[5, 300, 7]"] obtain h where
    h: "foldM record_value [5, 300, 7] new_histogram = Some h" "hist_of h [5, 300, 7]" by auto
  have "sort (map unat [5, 300, 7 :: u64]) ! (rank_of (unat (500000 :: u64)) (length [5, 300, 7 :: u64]) - 1) = 7"
    by (simp add: rank_of_def)
  moreover have "(7 :: nat) \<le> unat kMaxValue" by (simp add: kMaxValue_def kMaxBits_def)
  moreover have "length [5, 300, 7 :: u64] < 2 ^ 64" by simp
  ultimately show ?thesis using h(1) quantile_bounds [OF h(2) list.distinct(2), of 500000]
    by (intro exI [of _ h] conjI) (simp_all add: Let_def del: foldM.simps One_nat_def list.size)
qed

text \<open>
  The bound is one on the clamped values only: a single value above \<open>kMaxValue\<close> is reported,
  at every quantile and as the maximum, as \<open>kMaxValue\<close>, which is below it; only the overflow
  counter tells.
\<close>

theorem quantile_underreports_overflow:
  assumes "kMaxValue < v" "unat ppm \<le> 1000000"
  shows "\<exists>h. record_value v new_histogram = Some h \<and> quantile_ppm ppm h = kMaxValue \<and> hist_max h = kMaxValue \<and> overflow_count h = 1"
proof -
  from hist.rec_law [OF hist.fresh_law, of v] obtain h where h: "record_value v new_histogram = Some h" "hist_of h [v]" by auto
  have c: "clamp v = kMaxValue" using assms(1) by (simp add: clamp_def)
  from quantile_ok [OF h(2) _ _ assms(2)] have q: "quantile_ppm ppm h = min (bucket_upper (bucket_of kMaxValue)) (h_max h)"
    by (simp add: c)
  have "h_max h = kMaxValue" "h_overflow h = 1" using h(2) assms(1) by (simp_all add: hist_of_def c del: num_simps)
  moreover have "kMaxValue \<le> bucket_upper (bucket_of kMaxValue)"
    using upper_bucket [of kMaxValue] bucket_upper_ok [OF bucket_small, of kMaxValue] by (simp add: word_le_nat_alt)
  ultimately show ?thesis using h(1) q by (auto simp: hist_max_def overflow_count_def min_def)
qed

theorem quantile_underreports_overflow_witness:
  "\<exists>h. record_value (2 ^ 40) new_histogram = Some h \<and> quantile_ppm 999000 h = kMaxValue \<and> hist_max h = kMaxValue \<and> overflow_count h = 1"
  using quantile_underreports_overflow [of "2 ^ 40" 999000] by (simp add: word_less_nat_alt)

end
