(* ===== verification/Tsc_Clock.thy ===== *)
theory Tsc_Clock
  imports Machine_Int Latency_Histogram
begin

text \<open>
  \<^verbatim>\<open>include/tsc_clock.hpp\<close> and \<^verbatim>\<open>include/latency_report.hpp\<close>: conversion of clock stamps to
  nanoseconds, the calibration loop, and the rows of the latency report.  The hardware counter
  and the system clock are parameters: \<open>stamps i\<close> and \<open>clock i\<close> are the values of their readings
  in the order in which they are made.  A division by zero is \<^const>\<open>None\<close>.
\<close>

section \<open>Time stamps\<close>

record timespec =
  tv_sec :: int
  tv_nsec :: int

text \<open>Both fields are converted to \<^verbatim>\<open>std::uint64_t\<close>, and the arithmetic wraps.\<close>

definition monotonic_ns :: "timespec \<Rightarrow> u64" where
  "monotonic_ns ts = word_of_int (tv_sec ts) * 1000000000 + word_of_int (tv_nsec ts)"

text \<open>
  The stamps where there is no x86 counter: readings of the same clock.  On x86 they are the
  counter's values.
\<close>

definition stamp_begin :: "timespec \<Rightarrow> u64" where
  "stamp_begin ts = word_of_int (tv_sec ts) * 1000000000 + word_of_int (tv_nsec ts)"

definition stamp_end :: "timespec \<Rightarrow> u64" where
  "stamp_end ts = stamp_begin ts"

record stamp_calibration =
  cal_ticks :: u64
  cal_ns :: u64

definition new_calibration :: stamp_calibration where
  "new_calibration = \<lparr>cal_ticks = 1, cal_ns = 1\<rparr>"

text \<open>The product is formed in 128 bits, so it is exact; the quotient is cut to 64 bits.\<close>

definition to_ns :: "stamp_calibration \<Rightarrow> u64 \<Rightarrow> u64 option" where
  "to_ns cal t = (if cal_ticks cal = 0 then None
     else Some (word_of_nat (unat t * unat (cal_ns cal) div unat (cal_ticks cal))))"

definition mhz :: "stamp_calibration \<Rightarrow> u64 option" where
  "mhz cal = (if cal_ns cal = 0 then None else Some (cal_ticks cal * 1000 div cal_ns cal))"

text \<open>The busy-wait: read the clock until the window has passed.  It returns the last reading.\<close>

partial_function (option) wait_loop :: "(nat \<Rightarrow> timespec) \<Rightarrow> u64 \<Rightarrow> u64 \<Rightarrow> nat \<Rightarrow> u64 option" where
  "wait_loop clock n0 window i =
     (let n1 = monotonic_ns (clock i) in
      if n1 - n0 < window then wait_loop clock n0 window (Suc i) else Some n1)"

definition calibrate_stamps :: "(nat \<Rightarrow> timespec) \<Rightarrow> (nat \<Rightarrow> u64) \<Rightarrow> u64 \<Rightarrow> stamp_calibration option" where
  "calibrate_stamps clock stamps window = do {
     n0 \<leftarrow> Some (monotonic_ns (clock 0));
     t0 \<leftarrow> Some (stamps 0);
     n1 \<leftarrow> wait_loop clock n0 window 1;
     t1 \<leftarrow> Some (stamps 1);
     Some \<lparr>cal_ticks = t1 - t0, cal_ns = n1 - n0\<rparr> }"

section \<open>Report\<close>

definition blanks_left :: "nat \<Rightarrow> u64 \<Rightarrow> string" where
  "blanks_left w n = pad_left (CHR '' '') w (digits (unat n))"

definition print_latency_header :: string where
  "print_latency_header = pad_right 9 ''stage'' @ '' '' @ pad_left (CHR '' '') 10 ''count'' @ '' '' @ pad_left (CHR '' '') 8 ''min'' @ '' '' @
     pad_left (CHR '' '') 8 ''p50'' @ '' '' @ pad_left (CHR '' '') 8 ''p99'' @ '' '' @ pad_left (CHR '' '') 8 ''p99.9'' @ '' '' @
     pad_left (CHR '' '') 8 ''p99.99'' @ '' '' @ pad_left (CHR '' '') 10 ''max'' @ ''   (ns)'' @ [CHR 0x0A]"

definition print_latency_row :: "string \<Rightarrow> histogram \<Rightarrow> stamp_calibration \<Rightarrow> string option" where
  "print_latency_row name h cal = do {
     mn \<leftarrow> to_ns cal (hist_min h);
     p50 \<leftarrow> to_ns cal (quantile_ppm 500000 h);
     p99 \<leftarrow> to_ns cal (quantile_ppm 990000 h);
     p999 \<leftarrow> to_ns cal (quantile_ppm 999000 h);
     p9999 \<leftarrow> to_ns cal (quantile_ppm 999900 h);
     mx \<leftarrow> to_ns cal (hist_max h);
     Some (pad_right 9 name @ '' '' @ blanks_left 10 (hist_count h) @ '' '' @ blanks_left 8 mn @ '' '' @ blanks_left 8 p50 @ '' '' @
       blanks_left 8 p99 @ '' '' @ blanks_left 8 p999 @ '' '' @ blanks_left 8 p9999 @ '' '' @ blanks_left 10 mx @ [CHR 0x0A]) }"

section \<open>Conversion\<close>

lemma to_ns_exact:
  assumes "cal_ticks cal \<noteq> 0" "unat t * unat (cal_ns cal) div unat (cal_ticks cal) < 2 ^ 64"
  shows "\<exists>n. to_ns cal t = Some n \<and> unat n = unat t * unat (cal_ns cal) div unat (cal_ticks cal)"
  using assms by (simp add: to_ns_def unat_small)

lemma wait_loop_ends:
  assumes "i \<le> k" "window \<le> monotonic_ns (clock k) - n0"
  shows "\<exists>j. i \<le> j \<and> j \<le> k \<and> wait_loop clock n0 window i = Some (monotonic_ns (clock j)) \<and>
    window \<le> monotonic_ns (clock j) - n0 \<and> (\<forall>m. i \<le> m \<and> m < j \<longrightarrow> monotonic_ns (clock m) - n0 < window)"
  using assms
proof (induction "k - i" arbitrary: i)
  case 0
  then have "i = k" by simp
  with 0 show ?case by (subst wait_loop.simps) (auto simp: Let_def not_less intro!: exI [of _ k])
next
  case (Suc d)
  show ?case
  proof (cases "monotonic_ns (clock i) - n0 < window")
    case True
    with Suc(1) [of "Suc i"] Suc(2-) obtain j where j: "Suc i \<le> j" "j \<le> k"
      "wait_loop clock n0 window (Suc i) = Some (monotonic_ns (clock j))" "window \<le> monotonic_ns (clock j) - n0"
      "\<forall>m. Suc i \<le> m \<and> m < j \<longrightarrow> monotonic_ns (clock m) - n0 < window" by force
    have "wait_loop clock n0 window i = Some (monotonic_ns (clock j))"
      using True j(3) by (subst wait_loop.simps) (simp add: Let_def)
    moreover have "monotonic_ns (clock m) - n0 < window" if "i \<le> m" "m < j" for m
      using that True j(5) by (cases "m = i") (simp_all add: Suc_le_eq)
    ultimately show ?thesis using j by (intro exI [of _ j]) simp
  next
    case False
    then have "wait_loop clock n0 window i = Some (monotonic_ns (clock i))" by (subst wait_loop.simps) (simp add: Let_def)
    with False Suc(3) show ?thesis by (intro exI [of _ i]) (auto simp: not_less)
  qed
qed

section \<open>Stamps from the system clock\<close>

lemma monotonic_exact:
  assumes "0 \<le> tv_sec ts" "0 \<le> tv_nsec ts" "tv_sec ts * 1000000000 + tv_nsec ts < 2 ^ 64"
  shows "uint (monotonic_ns ts) = tv_sec ts * 1000000000 + tv_nsec ts" "stamp_begin ts = monotonic_ns ts"
proof -
  have "monotonic_ns ts = word_of_int (tv_sec ts * 1000000000 + tv_nsec ts)" by (simp add: monotonic_ns_def)
  then have "uint (monotonic_ns ts) = (tv_sec ts * 1000000000 + tv_nsec ts) mod 2 ^ 64" by (simp only: uint_word_of_int len_num1 len_bit0) simp
  also have "\<dots> = tv_sec ts * 1000000000 + tv_nsec ts" using assms by (intro mod_pos_pos_trivial) simp_all
  finally show "uint (monotonic_ns ts) = tv_sec ts * 1000000000 + tv_nsec ts" .
qed (simp add: monotonic_ns_def stamp_begin_def)

text \<open>
  With these stamps the calibration is the identity when both intervals have the same length; but the four
  readings are made one after the other, so it is not in general.
\<close>

lemma equal_calibration_identity:
  assumes "cal_ticks cal = cal_ns cal" "cal_ns cal \<noteq> 0"
  shows "to_ns cal t = Some t"
proof -
  have "0 < unat (cal_ns cal)" using assms(2) by (simp add: unat_gt_0)
  then have "unat t * unat (cal_ns cal) div unat (cal_ns cal) = unat t" by simp
  with assms show ?thesis by (simp add: to_ns_def)
qed

lemma portable_calibration_differs:
  "\<exists>n0 t0 n1 t1 cal. n0 \<le> t0 \<and> t0 \<le> n1 \<and> n1 \<le> t1 \<and>
    calibrate_stamps (\<lambda>i. \<lparr>tv_sec = 0, tv_nsec = if i = 0 then n0 else n1\<rparr>)
      (\<lambda>i. if i = 0 then stamp_begin \<lparr>tv_sec = 0, tv_nsec = t0\<rparr> else stamp_end \<lparr>tv_sec = 0, tv_nsec = t1\<rparr>) 200000000 = Some cal \<and>
    to_ns cal 100 = Some 99"
proof -
  let ?clock = "\<lambda>i :: nat. \<lparr>tv_sec = 0, tv_nsec = if i = 0 then 0 else 200000000\<rparr>"
  have "wait_loop ?clock 0 200000000 1 = Some 200000000" by (subst wait_loop.simps) (simp add: monotonic_ns_def)
  then have "calibrate_stamps ?clock (\<lambda>i. if i = 0 then stamp_begin \<lparr>tv_sec = 0, tv_nsec = 1\<rparr> else stamp_end \<lparr>tv_sec = 0, tv_nsec = 200000002\<rparr>) 200000000 =
      Some \<lparr>cal_ticks = 200000001, cal_ns = 200000000\<rparr>"
    by (simp add: calibrate_stamps_def monotonic_ns_def stamp_begin_def stamp_end_def)
  moreover have "to_ns \<lparr>cal_ticks = 200000001, cal_ns = 200000000\<rparr> 100 = Some 99" by (simp add: to_ns_def)
  ultimately show ?thesis
    by (intro exI [of _ 0] exI [of _ 1] exI [of _ 200000000] exI [of _ 200000002] exI [of _ "\<lparr>cal_ticks = 200000001, cal_ns = 200000000\<rparr>"]) simp
qed

section \<open>Properties\<close>

text \<open>
  C40.  Calibration ends as soon as the clock has advanced by the window: if some reading shows
  it, the loop returns, the measured time is at least the window, and it is that of the first
  such reading.  With a window that is not empty the frequency can then be computed; and durations can be converted exactly when the
  counter has moved between the two stamps.
\<close>

theorem calibrate_returns:
  assumes "0 < k" "window \<le> monotonic_ns (clock k) - monotonic_ns (clock 0)"
  shows "\<exists>j cal. j \<le> k \<and> calibrate_stamps clock stamps window = Some cal \<and>
    cal = \<lparr>cal_ticks = stamps 1 - stamps 0, cal_ns = monotonic_ns (clock j) - monotonic_ns (clock 0)\<rparr> \<and> window \<le> cal_ns cal \<and>
    (\<forall>m. 1 \<le> m \<and> m < j \<longrightarrow> monotonic_ns (clock m) - monotonic_ns (clock 0) < window) \<and>
    (0 < window \<longrightarrow> (\<exists>f. mhz cal = Some f)) \<and> (stamps 1 \<noteq> stamps 0 \<longleftrightarrow> (\<forall>t. \<exists>n. to_ns cal t = Some n))"
proof -
  let ?cal = "\<lambda>j. \<lparr>cal_ticks = stamps 1 - stamps 0, cal_ns = monotonic_ns (clock j) - monotonic_ns (clock 0)\<rparr>"
  from wait_loop_ends [of 1 k window clock "monotonic_ns (clock 0)"] assms obtain j where
    j: "j \<le> k" "wait_loop clock (monotonic_ns (clock 0)) window 1 = Some (monotonic_ns (clock j))"
    "window \<le> monotonic_ns (clock j) - monotonic_ns (clock 0)"
    "\<forall>m. 1 \<le> m \<and> m < j \<longrightarrow> monotonic_ns (clock m) - monotonic_ns (clock 0) < window" by auto
  then have "calibrate_stamps clock stamps window = Some (?cal j)" by (simp add: calibrate_stamps_def)
  moreover have "\<exists>f. mhz (?cal j) = Some f" if "0 < window"
  proof -
    have "0 < monotonic_ns (clock j) - monotonic_ns (clock 0)" using that j(3) by (rule less_le_trans)
    then have "monotonic_ns (clock j) - monotonic_ns (clock 0) \<noteq> 0" by (simp only: word_gt_0)
    then show ?thesis by (simp add: mhz_def del: right_minus_eq)
  qed
  moreover have "stamps 1 \<noteq> stamps 0 \<longleftrightarrow> (\<forall>t. \<exists>n. to_ns (?cal j) t = Some n)" by (simp add: to_ns_def)
  ultimately show ?thesis using j(1,3,4) by (intro exI [of _ j] exI [of _ "?cal j"]) simp
qed

theorem calibrate_returns_witness:
  "\<exists>j cal. j \<le> 5 \<and> calibrate_stamps (\<lambda>i. \<lparr>tv_sec = 0, tv_nsec = 100 * int i\<rparr>) (\<lambda>i. word_of_nat (300 * i)) 450 = Some cal \<and>
    cal = \<lparr>cal_ticks = 300, cal_ns = monotonic_ns \<lparr>tv_sec = 0, tv_nsec = 100 * int j\<rparr>\<rparr> \<and> (\<exists>f. mhz cal = Some f) \<and> (\<forall>t. \<exists>n. to_ns cal t = Some n)"
proof -
  have c: "(450 :: u64) \<le> monotonic_ns \<lparr>tv_sec = 0, tv_nsec = 100 * int 5\<rparr> - monotonic_ns \<lparr>tv_sec = 0, tv_nsec = 100 * int 0\<rparr>"
    by (simp add: monotonic_ns_def)
  from calibrate_returns [of 5 450 "\<lambda>i. \<lparr>tv_sec = 0, tv_nsec = 100 * int i\<rparr>" "\<lambda>i. word_of_nat (300 * i)", OF _ c] show ?thesis
    by (auto simp: monotonic_ns_def)
qed

text \<open>
  Conversion to nanoseconds: it is the exact quotient rounded down whenever that fits in
  64 bits, it maps the calibration interval to itself, and it is monotone.
\<close>

theorem to_ns_spec:
  assumes "cal_ticks cal \<noteq> 0" "s \<le> t" "unat t * unat (cal_ns cal) div unat (cal_ticks cal) < 2 ^ 64"
  shows "\<exists>m n. to_ns cal s = Some m \<and> to_ns cal t = Some n \<and> m \<le> n \<and>
    unat n = unat t * unat (cal_ns cal) div unat (cal_ticks cal) \<and> to_ns cal (cal_ticks cal) = Some (cal_ns cal)"
proof -
  have "unat s * unat (cal_ns cal) \<le> unat t * unat (cal_ns cal)" using assms(2) by (simp add: word_le_nat_alt)
  then have le: "unat s * unat (cal_ns cal) div unat (cal_ticks cal) \<le> unat t * unat (cal_ns cal) div unat (cal_ticks cal)"
    by (rule div_le_mono)
  with assms(3) have "unat s * unat (cal_ns cal) div unat (cal_ticks cal) < 2 ^ 64" by linarith
  from to_ns_exact [OF assms(1) this] to_ns_exact [OF assms(1,3)] obtain m n where
    mn: "to_ns cal s = Some m" "unat m = unat s * unat (cal_ns cal) div unat (cal_ticks cal)"
      "to_ns cal t = Some n" "unat n = unat t * unat (cal_ns cal) div unat (cal_ticks cal)" by auto
  moreover have "0 < unat (cal_ticks cal)" using assms(1) by (simp add: unat_gt_0)
  then have "unat (cal_ticks cal) * unat (cal_ns cal) div unat (cal_ticks cal) = unat (cal_ns cal)" by simp
  then have "to_ns cal (cal_ticks cal) = Some (cal_ns cal)" using assms(1) by (simp add: to_ns_def)
  ultimately show ?thesis using le by (simp add: word_le_nat_alt)
qed

theorem to_ns_spec_witness:
  "\<exists>m n. to_ns \<lparr>cal_ticks = 3, cal_ns = 2\<rparr> 4 = Some m \<and> to_ns \<lparr>cal_ticks = 3, cal_ns = 2\<rparr> 10 = Some n \<and> m \<le> n \<and> unat n = 6"
  using to_ns_spec [of "\<lparr>cal_ticks = 3, cal_ns = 2\<rparr>" 4 10] by auto

text \<open>A report row can be printed for every histogram once the calibration has counted a tick.\<close>

lemma latency_row_printable: "print_latency_row name h cal \<noteq> None \<longleftrightarrow> cal_ticks cal \<noteq> 0"
  by (simp add: print_latency_row_def to_ns_def)

end
