(* ===== verification/Xdp_Listen.thy ===== *)
theory Xdp_Listen
  imports Main_Program Xdp_Socket Xdp_Filter Tsc_Clock
begin

text \<open>
  The listener command, \<^verbatim>\<open>src/xdp_listen_cmd.cpp\<close>: frames that the socket delivers are decoded and
  sent through the matching pipeline, a second thread consumes the snapshots, and at the end the
  report of the replay command is printed together with counters and latencies.  What the kernel
  does to the shared rings between two polls, the number of polls until the stop signal is seen,
  the readings of the clocks and the progress of the consumer thread are parameters.
\<close>

section \<open>The frame handler\<close>

definition kHeaderBytes :: nat where
  "kHeaderBytes = 14 + 20 + 8"

definition kMdRing :: nat where
  "kMdRing = 2 ^ 12"

definition same_signals :: "book_signals \<Rightarrow> book_signals \<Rightarrow> bool" where
  "same_signals a b =
     (if sig_best_bid a \<noteq> sig_best_bid b \<or> sig_best_ask a \<noteq> sig_best_ask b \<or> sig_bid_qty a \<noteq> sig_bid_qty b \<or>
        sig_ask_qty a \<noteq> sig_ask_qty b \<or> microprice a \<noteq> microprice b then False
      else list_all (\<lambda>d. imbalance a ! d = imbalance b ! d) [0..<length kImbalanceDepths])"

text \<open>The consumer counts a snapshot and keeps it.\<close>

definition md_take :: "book_signals \<Rightarrow> u64 \<times> book_signals \<Rightarrow> u64 \<times> book_signals" where
  "md_take s = (\<lambda>(md_received, md_last). (md_received + 1, s))"

record listener =
  l_pipe :: "(order_book, u64 \<times> book_signals) pipeline"
  l_clock :: nat
  batch_start :: u64
  lat_rx :: histogram
  lat_frame :: histogram

text \<open>The calibration takes the first two stamps.\<close>

definition new_listener :: listener where
  "new_listener = \<lparr>l_pipe = new_pipeline ladder_type kMdRing (0, new_signals), l_clock = 2, batch_start = 0,
     lat_rx = new_histogram, lat_frame = new_histogram\<rparr>"

text \<open>
  The lambda that \<^verbatim>\<open>poll\<close> calls; \<open>frame\<close> is the memory from the start of the frame on.  Before the
  message is processed the consumer thread makes \<open>sched\<close> turns.
\<close>

definition on_frame :: "bool \<Rightarrow> (nat \<Rightarrow> u64) \<Rightarrow> (nat \<Rightarrow> nat) \<Rightarrow> byte list \<Rightarrow> u32 \<Rightarrow> listener \<Rightarrow> listener option" where
  "on_frame big stamps sched frame len L = do {
     t0 \<leftarrow> Some (stamps (l_clock L));
     L \<leftarrow> Some (L\<lparr>l_clock := l_clock L + 1\<rparr>);
     L \<leftarrow> Some (if batch_start L = 0 then L\<lparr>batch_start := t0\<rparr> else L);
     if unat len < kHeaderBytes + sizeof_message then Some L
     else do {
       bytes \<leftarrow> (if kHeaderBytes + sizeof_message \<le> length frame then Some (take sizeof_message (drop kHeaderBytes frame)) else None);
       p \<leftarrow> consume_n md_take md_take (sched (l_clock L)) (l_pipe L);
       p \<leftarrow> process_message ladder_type (decode_message big bytes) p;
       t1 \<leftarrow> Some (stamps (l_clock L));
       hr \<leftarrow> record_value (t1 - batch_start L) (lat_rx L);
       hf \<leftarrow> record_value (t1 - t0) (lat_frame L);
       Some (L\<lparr>l_pipe := p, l_clock := l_clock L + 1, lat_rx := hr, lat_frame := hf\<rparr>) } }"

text \<open>The loop of the command: \<open>kern i\<close> is what the kernel does before poll number \<open>i\<close>.\<close>

fun poll_loop :: "(byte list \<Rightarrow> u32 \<Rightarrow> 's \<Rightarrow> 's option) \<Rightarrow> ('s \<Rightarrow> 's) \<Rightarrow> (nat \<Rightarrow> xsk \<Rightarrow> xsk) \<Rightarrow> nat list \<Rightarrow> xsk \<Rightarrow> 's \<Rightarrow> (xsk \<times> 's) option" where
  "poll_loop h reset kern [] X s = Some (X, s)"
| "poll_loop h reset kern (i # is) X s = do {
     (n, X, s) \<leftarrow> xsk_poll h (kern i X) (reset s);
     poll_loop h reset kern is X s }"

section \<open>The command\<close>

record xdp_stats =
  rx_dropped :: u64
  rx_invalid_descs :: u64
  rx_ring_full :: u64
  rx_fill_ring_empty_descs :: u64
  tx_invalid_descs :: u64
  tx_ring_empty_descs :: u64

record listen_env =
  le_big :: bool
  le_sys :: sys
  le_kernel :: "nat \<Rightarrow> xsk \<Rightarrow> xsk"
  le_polls :: nat
  le_sched :: "nat \<Rightarrow> nat"
  le_stamps :: "nat \<Rightarrow> u64"
  le_monotonic :: "nat \<Rightarrow> timespec"
  le_stats :: xdp_stats
  le_obj_path :: string
  le_message :: "xdp_error \<Rightarrow> string"

definition stats_line :: "xdp_stats \<Rightarrow> string" where
  "stats_line st = ''xdp stats: rx_dropped='' @ digits (unat (rx_dropped st)) @ '' rx_invalid_descs='' @ digits (unat (rx_invalid_descs st)) @
     '' rx_ring_full='' @ digits (unat (rx_ring_full st)) @ '' rx_fill_ring_empty_descs='' @ digits (unat (rx_fill_ring_empty_descs st)) @
     '' tx_invalid_descs='' @ digits (unat (tx_invalid_descs st)) @ '' tx_ring_empty_descs='' @ digits (unat (tx_ring_empty_descs st)) @ newline"

definition md_line :: "(order_book, u64 \<times> book_signals) pipeline \<Rightarrow> book_signals \<Rightarrow> string" where
  "md_line p signals = ''md: published='' @ digits (unat (published (p_pub p))) @ '' dropped='' @ digits (unat (dropped (p_pub p))) @
     '' consumer_received='' @ digits (unat (fst (c_state p))) @ '' last_snapshot_matches_book='' @
     (if published (p_pub p) = 0 then ''n/a'' else if same_signals (snd (c_state p)) signals then ''yes'' else ''no'') @ newline"

text \<open>The fill handler of the command.\<close>

definition listen_fill :: "fill \<Rightarrow> u64 \<times> quantity \<Rightarrow> (u64 \<times> quantity) option" where
  "listen_fill f = (\<lambda>(g_fill_count, g_traded_qty). do {
     q \<leftarrow> checked64 (g_traded_qty + f_qty f);
     Some (g_fill_count + 1, q) })"

lemma listen_fill_eq: "listen_fill = report_fill"
  by (simp add: listen_fill_def report_fill_def fun_eq_iff)

text \<open>The lines about the final book, and its signals, which the command uses once more below.\<close>

definition listen_report :: "order_book \<Rightarrow> (string \<times> book_signals) option" where
  "listen_report ob = do {
     bb \<leftarrow> best_bid ob;
     bid_line \<leftarrow> Some (case bb of Some p \<Rightarrow> ''best bid: '' @ show_int p @ newline | None \<Rightarrow> ''best bid: (none)'' @ newline);
     ba \<leftarrow> best_ask ob;
     ask_line \<leftarrow> Some (case ba of Some p \<Rightarrow> ''best ask: '' @ show_int p @ newline | None \<Rightarrow> ''best ask: (none)'' @ newline);
     resting \<leftarrow> total_resting_qty ob;
     signals \<leftarrow> compute_signals (\<lambda>s n. top_levels s n ob) new_signals;
     tail_text \<leftarrow> print_signals signals;
     Some (bid_line @ ask_line @ ''resting qty: '' @ show_int resting @ newline @
       ''rejected: pool_exhausted='' @ digits (unat (pool_exhausted (stats ob))) @ '' duplicate_id='' @
       digits (unat (duplicate_id (stats ob))) @ newline @ tail_text, signals) }"

text \<open>They are the lines that the replay command prints.\<close>

lemma listen_report_eq:
  assumes "book_report b = Some body" "compute_signals (\<lambda>s n. top_levels s n b) new_signals = Some sig"
  shows "listen_report b = Some (body, sig)"
proof -
  from assms(1) obtain bb ba t tail_text where q: "best_bid b = Some bb" "best_ask b = Some ba" "total_resting_qty b = Some t"
    "print_signals sig = Some tail_text" using assms(2) unfolding book_report_def bind_eq_Some_iff by force
  have "(case p of Some p \<Rightarrow> ''best bid: '' @ show_int p @ newline | None \<Rightarrow> ''best bid: (none)'' @ newline) = show_best ''bid'' p"
    "(case p of Some p \<Rightarrow> ''best ask: '' @ show_int p @ newline | None \<Rightarrow> ''best ask: (none)'' @ newline) = show_best ''ask'' p" for p
    by (cases p; simp add: show_best_def)+
  with assms q show ?thesis by (simp add: listen_report_def book_report_def)
qed

text \<open>
  The whole command, with the socket as it is left behind; its destructor runs on every path.
\<close>

definition run_xdp_listen :: "listen_env \<Rightarrow> string list \<Rightarrow> (outcome \<times> xdp_socket option) option" where
  "run_xdp_listen V argv =
     (let argc = length argv in
      if argc < 4 then Some (Exit 1 [] (''usage: '' @ argv ! 0 @ '' xdp-listen <ifname> <queue_id> [bpf_obj_path]'' @ newline), None)
      else
        let ifname = argv ! 2; queue_id = ucast (strtoull (argv ! 3)) :: u32; path = (if argc \<ge> 5 then argv ! 4 else le_obj_path V) in
        do {
          (e, S) \<leftarrow> xdp_open (le_sys V) (new_socket ifname queue_id path 4096 2048);
          case e of
            Some err \<Rightarrow> Some (Exit 1 [] (le_message V err @ ''xdp-listen: failed to open AF_XDP socket on '' @ ifname @ '' queue '' @
              digits (unat queue_id) @ newline), Some (xdp_close S))
          | None \<Rightarrow> do {
              cal \<leftarrow> calibrate_stamps (le_monotonic V) (le_stamps V) 200000000;
              (X, L) \<leftarrow> poll_loop (on_frame (le_big V) (le_stamps V) (le_sched V)) (\<lambda>L. L\<lparr>batch_start := 0\<rparr>) (le_kernel V) [0..<le_polls V]
                (s_memory S) new_listener;
              S \<leftarrow> Some (S\<lparr>s_memory := X\<rparr>);
              p \<leftarrow> consumer_join md_take md_take (le_sched V (l_clock L)) (l_pipe L);
              (fill_count, traded_qty) \<leftarrow> foldM listen_fill (fill_log (p_book p)) (0, 0);
              (body, signals) \<leftarrow> listen_report (p_book p);
              mz \<leftarrow> mhz cal;
              row_rx \<leftarrow> print_latency_row ''rx->pub'' (lat_rx L) cal;
              row_frame \<leftarrow> print_latency_row ''frame'' (lat_frame L) cal;
              Some (Exit 0 (''xdp-listen: bound to '' @ ifname @ '' queue '' @ digits (unat queue_id) @ '' (bpf obj: '' @ path @
                  ''), ctrl+C to stop'' @ newline @
                ''fills: '' @ digits (unat fill_count) @ '', traded qty: '' @ show_int traded_qty @ newline @ body @
                (if get_stats (le_sys V) S then stats_line (le_stats V) else []) @ md_line p signals @
                ''latency on this machine (stamp clock '' @ digits (unat mz) @ '' MHz):'' @ newline @
                print_latency_header @ row_rx @ row_frame) [], Some (xdp_close S)) } })"

section \<open>What the socket delivers\<close>

text \<open>The frames of each poll, as a handler that only records them sees them.\<close>

fun arrivals :: "(nat \<Rightarrow> xsk \<Rightarrow> xsk) \<Rightarrow> nat list \<Rightarrow> xsk \<Rightarrow> (byte list \<times> u32) list list" where
  "arrivals kern [] X = []"
| "arrivals kern (i # is) X = (case xsk_poll (\<lambda>frame len fs. Some (fs @ [(frame, len)])) (kern i X) [] of
      None \<Rightarrow> []
    | Some (n, X', fs) \<Rightarrow> fs # arrivals kern is X')"

text \<open>
  The messages in a list of frames, which the statements on batches of frames refer to: frames that are too short are skipped.  That
  \<open>on_frame\<close> applies just these is \<open>on_frame_ok\<close>.
\<close>

definition message_in_frame :: "bool \<Rightarrow> byte list \<times> u32 \<Rightarrow> feed_message list" where
  "message_in_frame big = (\<lambda>(frame, len). if unat len < kHeaderBytes + sizeof_message then []
     else [decode_message big (take sizeof_message (drop kHeaderBytes frame))])"

definition messages_of :: "bool \<Rightarrow> (byte list \<times> u32) list list \<Rightarrow> feed_message list" where
  "messages_of big fss = concat (map (message_in_frame big) (concat fss))"

text \<open>What is documented of the kernel: it keeps the rings in order and delivers only frames inside the area.\<close>

definition frames_inside :: "xsk \<Rightarrow> bool" where
  "frames_inside X \<longleftrightarrow> (\<forall>d \<in> set (pending (rx X)). unat (d_addr d) + unat (d_len d) \<le> length (umem_area X))"

definition kernel_ok :: "(nat \<Rightarrow> xsk \<Rightarrow> xsk) \<Rightarrow> bool" where
  "kernel_ok kern \<longleftrightarrow> (\<forall>i X. xsk_inv X \<and> frames_inside X \<longrightarrow> xsk_inv (kern i X) \<and> frames_inside (kern i X))"

definition frame_of :: "xsk \<Rightarrow> xdp_desc \<Rightarrow> byte list \<times> u32" where
  "frame_of X d = (drop (unat (d_addr d)) (umem_area X), d_len d)"

lemma record_frames:
  "foldM (handle (\<lambda>frame len fs. Some (fs @ [(frame, len)])) (umem_area X)) ds fs = Some (fs @ map (frame_of X) ds)"
  by (induction ds arbitrary: fs) (simp_all add: handle_def frame_of_def)

lemma handle_frames:
  "foldM (handle h (umem_area X)) ds s = foldM (\<lambda>(frame, len). h frame len) (map (frame_of X) ds) s"
  by (induction ds arbitrary: s) (auto simp: handle_def frame_of_def split: bind_split)

lemma xsk_poll_frames:
  assumes "xsk_inv X" "frames_inside X"
  shows "\<exists>X' n. xsk_poll (\<lambda>frame len fs. Some (fs @ [(frame, len)])) X [] = Some (n, X', map (frame_of X) (batch X)) \<and> xsk_inv X' \<and> frames_inside X' \<and>
    (\<forall>s s'. foldM (\<lambda>(frame, len). h frame len) (map (frame_of X) (batch X)) s = Some s' \<longrightarrow> xsk_poll h X s = Some (n, X', s'))"
proof -
  let ?r = "\<lambda>frame len fs. Some (fs @ [(frame, len)])"
  have r: "foldM (handle ?r (umem_area X)) (batch X) [] = Some (map (frame_of X) (batch X))" by (simp add: record_frames)
  from xsk_poll_ok [OF assms(1) r] obtain X' where
    X: "xsk_poll ?r X [] = Some (length (batch X), X', map (frame_of X) (batch X))" "xsk_inv X'" "umem_area X' = umem_area X"
      "pending (rx X) = batch X @ pending (rx X')" by blast
  moreover have "frames_inside X'" using assms(2) X(3,4) by (simp add: frames_inside_def)
  moreover have "xsk_poll h X s = Some (length (batch X), X', s')"
    if "foldM (\<lambda>(frame, len). h frame len) (map (frame_of X) (batch X)) s = Some s'" for s s'
    using xsk_poll_handler_independent [OF assms(1) _ r X(1), of h s s'] that by (simp add: handle_frames)
  ultimately show ?thesis by blast
qed

definition whole_frame :: "byte list \<times> u32 \<Rightarrow> bool" where
  "whole_frame f \<longleftrightarrow> unat (snd f) \<le> length (fst f)"

lemma frame_length: "frames_inside X \<Longrightarrow> list_all whole_frame (map (frame_of X) (batch X))"
  by (auto simp: list_all_iff whole_frame_def frames_inside_def frame_of_def batch_def dest!: in_set_takeD)

lemma poll_loop_frames:
  assumes "kernel_ok kern" "xsk_inv X" "frames_inside X"
    and "foldM (\<lambda>fs s. foldM (\<lambda>(frame, len). h frame len) fs (reset s)) (arrivals kern is X) s = Some s'"
  shows "\<exists>X'. poll_loop h reset kern is X s = Some (X', s')"
  using assms(2-)
proof (induction "is" arbitrary: X s)
  case (Cons i "is")
  have K: "xsk_inv (kern i X)" "frames_inside (kern i X)" using assms(1) Cons.prems(1,2) by (simp_all add: kernel_ok_def)
  from xsk_poll_frames [OF this, of h] obtain X' n where
    X: "xsk_poll (\<lambda>frame len fs. Some (fs @ [(frame, len)])) (kern i X) [] = Some (n, X', map (frame_of (kern i X)) (batch (kern i X)))"
      "xsk_inv X'" "frames_inside X'"
      "\<And>s s'. foldM (\<lambda>(frame, len). h frame len) (map (frame_of (kern i X)) (batch (kern i X))) s = Some s' \<Longrightarrow> xsk_poll h (kern i X) s = Some (n, X', s')"
    by blast
  from Cons.prems(3) X(1) obtain t where
    t: "foldM (\<lambda>(frame, len). h frame len) (map (frame_of (kern i X)) (batch (kern i X))) (reset s) = Some t"
      "foldM (\<lambda>fs s. foldM (\<lambda>(frame, len). h frame len) fs (reset s)) (arrivals kern is X') t = Some s'"
    by (auto simp: bind_eq_Some_iff)
  from Cons.IH [OF X(2,3) t(2)] X(4) [OF t(1)] show ?case by simp
qed simp

lemma arrivals_lengths:
  assumes "kernel_ok kern" "xsk_inv X" "frames_inside X"
  shows "list_all whole_frame (concat (arrivals kern is X))"
  using assms(2-)
proof (induction "is" arbitrary: X)
  case (Cons i "is")
  have K: "xsk_inv (kern i X)" "frames_inside (kern i X)" using assms(1) Cons.prems by (simp_all add: kernel_ok_def)
  from xsk_poll_frames [OF this] obtain X' n where
    X: "xsk_poll (\<lambda>frame len fs. Some (fs @ [(frame, len)])) (kern i X) [] = Some (n, X', map (frame_of (kern i X)) (batch (kern i X)))"
      "xsk_inv X'" "frames_inside X'" by blast
  with Cons.IH [OF X(2,3)] frame_length [OF K(2)] show ?case by simp
qed simp

section \<open>The listener follows the feed\<close>

definition listening :: "feed_message list \<Rightarrow> listener \<Rightarrow> bool" where
  "listening msgs L \<longleftrightarrow> (\<exists>sent. pipe_inv ladder_type kMdRing md_take md_take (0, new_signals) 0 msgs sent (l_pipe L)) \<and>
     (\<exists>xs ys. hist_of (lat_rx L) xs \<and> hist_of (lat_frame L) ys \<and> length xs = length msgs \<and> length ys = length msgs)"

lemma listening_new: "listening [] new_listener"
  using pipe_inv_new [of kMdRing ladder_type md_take md_take "(0, new_signals)"] hist.fresh_law is_pow2_power [of 12]
  by (auto simp: listening_def new_listener_def kMdRing_def simp del: is_pow2_power)

lemma on_frame_ok:
  assumes l: "listening msgs L" and len: "unat len \<le> length frame" and fits: "feed_fits (msgs @ message_in_frame big (frame, len))"
  shows "\<exists>L'. on_frame big stamps sched frame len L = Some L' \<and> listening (msgs @ message_in_frame big (frame, len)) L'"
proof (cases "unat len < kHeaderBytes + sizeof_message")
  case True
  with l show ?thesis by (auto simp: on_frame_def message_in_frame_def listening_def)
next
  case False
  define m where "m = decode_message big (take sizeof_message (drop kHeaderBytes frame))"
  have mf: "message_in_frame big (frame, len) = [m]" using False by (simp add: message_in_frame_def m_def)
  let ?t0 = "stamps (l_clock L)" and ?t1 = "stamps (Suc (l_clock L))"
  let ?bs = "if batch_start L = 0 then ?t0 else batch_start L"
  from l obtain sent xs ys where p: "pipe_inv ladder_type kMdRing md_take md_take (0, new_signals) 0 msgs sent (l_pipe L)"
    and h: "hist_of (lat_rx L) xs" "hist_of (lat_frame L) ys" "length xs = length msgs" "length ys = length msgs" by (auto simp: listening_def)
  from consume_n_ok [OF p, of "sched (Suc (l_clock L))"] obtain q where
    q: "consume_n md_take md_take (sched (Suc (l_clock L))) (l_pipe L) = Some q" "pipe_inv ladder_type kMdRing md_take md_take (0, new_signals) 0 msgs sent q" by blast
  from ladder_market.process_message_ok [OF q(2), of m] fits mf obtain r sent' where
    r: "process_message ladder_type m q = Some r" "pipe_inv ladder_type kMdRing md_take md_take (0, new_signals) 0 (msgs @ [m]) sent' r" by auto
  from hist.rec_law [OF h(1), of "?t1 - ?bs"] hist.rec_law [OF h(2), of "?t1 - ?t0"] obtain hr hf where
    v: "record_value (?t1 - ?bs) (lat_rx L) = Some hr" "hist_of hr (xs @ [?t1 - ?bs])"
      "record_value (?t1 - ?t0) (lat_frame L) = Some hf" "hist_of hf (ys @ [?t1 - ?t0])" by blast
  have "listening (msgs @ [m]) (L\<lparr>l_pipe := r, l_clock := k, batch_start := c, lat_rx := hr, lat_frame := hf\<rparr>)" for k c
    unfolding listening_def using r(2) v(2,4) h(3,4)
    by (intro conjI exI [of _ sent'] exI [of _ "xs @ [?t1 - ?bs]"] exI [of _ "ys @ [?t1 - ?t0]"]) simp_all
  moreover have "on_frame big stamps sched frame len L =
      Some (L\<lparr>l_pipe := r, l_clock := Suc (Suc (l_clock L)), batch_start := ?bs, lat_rx := hr, lat_frame := hf\<rparr>)"
    using False len q(1) r(1) v(1,3) by (auto simp: on_frame_def m_def [symmetric])
  ultimately show ?thesis unfolding mf by blast
qed

lemma frames_ok:
  assumes "listening msgs L" "list_all whole_frame fs"
    and "feed_fits (msgs @ concat (map (message_in_frame big) fs) @ rest)"
  shows "\<exists>L'. foldM (\<lambda>(frame, len). on_frame big stamps sched frame len) fs L = Some L' \<and>
    listening (msgs @ concat (map (message_in_frame big) fs)) L'"
  using assms
proof (induction fs arbitrary: msgs L)
  case (Cons f fs)
  obtain frame len where f: "f = (frame, len)" by fastforce
  have "feed_fits (msgs @ message_in_frame big (frame, len))"
    using Cons.prems(3) f feed_fits_prefix [of "msgs @ message_in_frame big (frame, len)"] by simp
  from on_frame_ok [OF Cons.prems(1) _ this] Cons.prems(2) f obtain L' where
    L: "on_frame big stamps sched frame len L = Some L'" "listening (msgs @ message_in_frame big (frame, len)) L'" by (auto simp: whole_frame_def)
  from Cons.IH [OF L(2)] Cons.prems(2,3) f L(1) show ?case by simp
qed auto

lemma batches_ok:
  assumes "listening msgs L" "list_all whole_frame (concat fss)"
    and "feed_fits (msgs @ messages_of big fss)"
  shows "\<exists>L'. foldM (\<lambda>fs L. foldM (\<lambda>(frame, len). on_frame big stamps sched frame len) fs (L\<lparr>batch_start := 0\<rparr>)) fss L = Some L' \<and>
    listening (msgs @ messages_of big fss) L'"
  using assms
proof (induction fss arbitrary: msgs L)
  case (Cons fs fss)
  have "listening msgs (L\<lparr>batch_start := 0\<rparr>)" using Cons.prems(1) by (simp add: listening_def)
  moreover have "list_all whole_frame fs" using Cons.prems(2) by simp
  moreover have "feed_fits (msgs @ concat (map (message_in_frame big) fs) @ messages_of big fss)"
    using Cons.prems(3) by (simp add: messages_of_def)
  ultimately obtain L' where L: "foldM (\<lambda>(frame, len). on_frame big stamps sched frame len) fs (L\<lparr>batch_start := 0\<rparr>) = Some L'"
    "listening (msgs @ concat (map (message_in_frame big) fs)) L'" using frames_ok by meson
  from Cons.IH [OF L(2)] Cons.prems(2,3) L(1) show ?case by (simp add: messages_of_def)
qed (auto simp: messages_of_def)

lemma fold_md_take: "fold md_take got (n, s) = (n + of_nat (length got), if got = [] then s else last got)"
  by (induction got arbitrary: n s) (simp_all add: md_take_def)

text \<open>
  The same at the level of the threads' steps: when the consumer has been joined, its count is the producer's count of the
  published snapshots and its snapshot is the last one published.
\<close>

lemma listener_joined:
  assumes "is_pow2 n" "threads_reachable md_take md_take new_signals n (0, new_signals) T" "t_pc T = Joined"
  shows "t_state T = (t_published T, if pushed (t_ring T) = [] then new_signals else last (pushed (t_ring T)))"
  using joined_fold [OF assms] by (simp add: fold_md_take)

text \<open>The loop and the join of the consumer thread together.\<close>

lemma listen_ok:
  assumes "kernel_ok kern" "xsk_inv X" "frames_inside X" "feed_fits (messages_of big (arrivals kern is X))"
  shows "\<exists>X' L p sent. poll_loop (on_frame big stamps sched) (\<lambda>L. L\<lparr>batch_start := 0\<rparr>) kern is X new_listener = Some (X', L) \<and>
    consumer_join md_take md_take (sched (l_clock L)) (l_pipe L) = Some p \<and>
    pipe_core ladder_type kMdRing md_take md_take (0, new_signals) 0 (messages_of big (arrivals kern is X)) sent sent p"
proof -
  from batches_ok [OF listening_new arrivals_lengths [OF assms(1-3)], of big "is" stamps sched] assms(4) obtain L where
    L: "foldM (\<lambda>fs L. foldM (\<lambda>(frame, len). on_frame big stamps sched frame len) fs (L\<lparr>batch_start := 0\<rparr>)) (arrivals kern is X) new_listener = Some L"
      "listening (messages_of big (arrivals kern is X)) L" by auto
  from poll_loop_frames [OF assms(1-3) L(1)] obtain X' where
    "poll_loop (on_frame big stamps sched) (\<lambda>L. L\<lparr>batch_start := 0\<rparr>) kern is X new_listener = Some (X', L)" by blast
  moreover from L(2) obtain sent where "pipe_inv ladder_type kMdRing md_take md_take (0, new_signals) 0 (messages_of big (arrivals kern is X)) sent (l_pipe L)"
    by (auto simp: listening_def)
  note consumer_join_ok [OF this, of "sched (l_clock L)"]
  ultimately show ?thesis by blast
qed

section \<open>Properties\<close>

text \<open>
  C21.  The consumer's check at shutdown: whatever frames arrive, however the consumer thread
  progresses and whatever the clocks show, the listener processes every frame that is long enough,
  in order, into the book that a replay of their messages gives; after the consumer has been
  joined it has received every published snapshot; published and dropped snapshots add up to the
  messages; and when none was dropped, the consumer's last snapshot is that of the final book, so
  that the comparison of the two succeeds.
\<close>

theorem listener_follows_feed:
  assumes "kernel_ok kern" "xsk_inv X" "frames_inside X" "msgs = messages_of big (arrivals kern is X)" "feed_fits msgs"
  shows "\<exists>X' L p. poll_loop (on_frame big stamps sched) (\<lambda>L. L\<lparr>batch_start := 0\<rparr>) kern is X new_listener = Some (X', L) \<and>
    consumer_join md_take md_take (sched (l_clock L)) (l_pipe L) = Some p \<and> replay add_order cancel_order msgs fresh_book = Some (p_book p) \<and>
    fst (c_state p) = published (p_pub p) \<and> published (p_pub p) + dropped (p_pub p) = of_nat (length msgs) \<and>
    (dropped (p_pub p) = 0 \<and> msgs \<noteq> [] \<and> length msgs < 2 ^ 64 \<longrightarrow>
      (\<exists>signals. compute_signals (\<lambda>s n. top_levels s n (p_book p)) new_signals = Some signals \<and> same_signals (snd (c_state p)) signals))"
proof -
  from listen_ok [OF assms(1-3), of big "is" stamps sched] assms(4,5) obtain X' L p sent where
    r: "poll_loop (on_frame big stamps sched) (\<lambda>L. L\<lparr>batch_start := 0\<rparr>) kern is X new_listener = Some (X', L)"
      "consumer_join md_take md_take (sched (l_clock L)) (l_pipe L) = Some p" and inv: "pipe_core ladder_type kMdRing md_take md_take (0, new_signals) 0 msgs sent sent p" by auto
  from joined_state [OF inv] obtain xs ys where "sent = xs @ ys" "c_state p = fold md_take ys (fold md_take xs (0, new_signals))" .
  then have got: "c_state p = (of_nat (length sent), if sent = [] then new_signals else last sent)" by (simp add: fold_md_take)
  from inv have I: "replay add_order cancel_order msgs fresh_book = Some (p_book p)" "length sent \<le> length msgs"
    "msgs \<noteq> [] \<Longrightarrow> compute_signals (\<lambda>s n. top_levels s n (p_book p)) new_signals = Some (p_sig p)"
    "published (p_pub p) = of_nat (length sent)" "dropped (p_pub p) = of_nat (length msgs - length sent)"
    "length sent = length msgs \<Longrightarrow> msgs \<noteq> [] \<Longrightarrow> last sent = p_sig p"
    "c_state p = (of_nat (length sent), if sent = [] then new_signals else last sent)"
    using got by (simp_all add: pipe_core_def)
  have "published (p_pub p) + dropped (p_pub p) = of_nat (length msgs)"
    using I(2) unfolding I(4,5) of_nat_add [symmetric] by simp
  moreover have "snd (c_state p) = p_sig p" if "dropped (p_pub p) = 0" "msgs \<noteq> []" "length msgs < 2 ^ 64"
  proof -
    have "length msgs - length sent = 0"
      using that(1,3) unfolding I(5) by (metis diff_le_self le_less_trans unat_0 unat_small)
    with I(2) have "length sent = length msgs" by simp
    with I(6,7) that(2) show ?thesis by auto
  qed
  ultimately show ?thesis
    using r I(1,3,4,7) by (intro exI [of _ X'] exI [of _ L] exI [of _ p]) (auto simp: same_signals_def list_all_iff)
qed

text \<open>An area with one frame that carries an order, and one that is too short.\<close>

definition frame_message :: feed_message where
  "frame_message = \<lparr>fm_type = AddOrder, fm_side = 0, fm_id = 1, fm_price = 100, fm_qty = 5, fm_ts = 0\<rparr>"

definition demo_xsk :: xsk where
  "demo_xsk = \<lparr>umem_area = replicate 42 0 @ encode_message False (replicate 6 0) frame_message,
     rx = \<lparr>xr_producer = 2, xr_consumer = 0, xr_descs = [\<lparr>d_addr = 0, d_len = 82\<rparr>, \<lparr>d_addr = 0, d_len = 10\<rparr>], xr_mask = 1\<rparr>,
     fill_ring = \<lparr>xr_producer = 0, xr_consumer = 0, xr_descs = [0, 0], xr_mask = 1\<rparr>\<rparr>"

lemma demo_xsk_ok:
  "xsk_inv demo_xsk \<and> frames_inside demo_xsk \<and> messages_of False (arrivals (\<lambda>_ X. X) [0] demo_xsk) = [frame_message]"
proof -
  have p: "pending (rx demo_xsk) = [\<lparr>d_addr = 0, d_len = 82\<rparr>, \<lparr>d_addr = 0, d_len = 10\<rparr>]" "pending (fill_ring demo_xsk) = []"
    by (simp_all add: demo_xsk_def pending_def cells_from_def upt_rec numeral_2_eq_2 [symmetric])
  have len: "length (umem_area demo_xsk) = 82" by (simp add: demo_xsk_def sizeof_message_def)
  have "is_pow2 2" using is_pow2_power [of 1] by simp
  then have "is_pow2 (Suc (Suc 0))" by (simp add: numeral_2_eq_2)
  then have inv: "xsk_inv demo_xsk" by (simp add: xsk_inv_def p) (simp add: demo_xsk_def xr_inv_def)
  moreover have fi: "frames_inside demo_xsk" by (simp add: frames_inside_def p len)
  moreover have "decode_message False (encode_message False (replicate 6 0) frame_message) = frame_message"
    by (intro decode_encode) (simp_all add: message_ok_def frame_message_def fits_int64_def)
  then have "message_in_frame False (frame_of demo_xsk \<lparr>d_addr = 0, d_len = 82\<rparr>) = [frame_message]"
    by (simp add: message_in_frame_def frame_of_def demo_xsk_def kHeaderBytes_def sizeof_message_def)
  moreover have "message_in_frame False (frame_of demo_xsk \<lparr>d_addr = 0, d_len = 10\<rparr>) = []"
    by (simp add: message_in_frame_def frame_of_def kHeaderBytes_def sizeof_message_def)
  moreover from xsk_poll_frames [OF inv fi] obtain X' n where
    "xsk_poll (\<lambda>frame len fs. Some (fs @ [(frame, len)])) demo_xsk [] = Some (n, X', map (frame_of demo_xsk) (batch demo_xsk))" by blast
  ultimately show ?thesis by (simp add: messages_of_def batch_def p)
qed

lemma frame_message_fits: "feed_fits [frame_message]"
  by (simp add: feed_fits_def prices_ok_def quantities_ok_def add_prices_def add_qty_def frame_message_def price_ok_def scalable_def fits_int64_def kSignalScale_def)

theorem listener_follows_feed_witness:
  "\<exists>X' L p. poll_loop (on_frame False (\<lambda>i. of_nat i) (\<lambda>_. 1)) (\<lambda>L. L\<lparr>batch_start := 0\<rparr>) (\<lambda>_ X. X) [0] demo_xsk new_listener = Some (X', L) \<and>
    consumer_join md_take md_take 1 (l_pipe L) = Some p \<and> replay add_order cancel_order [frame_message] fresh_book = Some (p_book p)"
  using listener_follows_feed [of "\<lambda>_ X. X" demo_xsk "[frame_message]" False "[0]" "\<lambda>i. of_nat i" "\<lambda>_. 1"] demo_xsk_ok frame_message_fits
  by (auto simp: kernel_ok_def)

text \<open>
  C20.  The listener reports what the replay reports: when the socket opens and its frames carry
  the messages of a feed file, in order and among frames of other lengths, the listener ends
  normally, and the lines about fills, best prices, resting quantity, refusals and signals are the
  very ones that the replay command prints for the file.  The socket is released.
\<close>

theorem listen_report_is_replay_report:
  assumes "4 \<le> length argv" "sys_ok (le_sys V) 4096"
    and "xdp_open (le_sys V) (new_socket (argv ! 2) (ucast (strtoull (argv ! 3))) (if 5 \<le> length argv then argv ! 4 else le_obj_path V) 4096 2048) = Some (None, S)"
    and "kernel_ok (le_kernel V)" "calibrate_stamps (le_monotonic V) (le_stamps V) 200000000 = Some cal" "cal_ticks cal \<noteq> 0" "cal_ns cal \<noteq> 0"
    and "messages_of (le_big V) (arrivals (le_kernel V) [0..<le_polls V] (s_memory S)) = msgs" "feed_fits msgs"
    and "load_feed_file (big_endian E) (alloc_limit E) path [] fs = Inr (True, msgs)"
  shows "\<exists>report rest S'. run_replay E path fs =
      Some (Exit 0 (''replayed '' @ digits (length msgs) @ '' messages from '' @ path @ newline @ report) []) \<and>
    run_xdp_listen V argv = Some (Exit 0 (''xdp-listen: bound to '' @ argv ! 2 @ '' queue '' @ digits (unat (ucast (strtoull (argv ! 3)) :: u32)) @
      '' (bpf obj: '' @ (if 5 \<le> length argv then argv ! 4 else le_obj_path V) @ ''), ctrl+C to stop'' @ newline @ report @ rest) [], Some S') \<and>
    held removes (s_log S') = Some (left_over removes S)"
proof -
  from open_new_ok [of "le_sys V" 4096 "argv ! 2" "ucast (strtoull (argv ! 3))" "if 5 \<le> length argv then argv ! 4 else le_obj_path V" 2048 removes]
    assms(2,3) have S: "accounted removes S" "ready 4096 2048 (s_memory S)" by auto
  then have X: "xsk_inv (s_memory S)" "frames_inside (s_memory S)" by (simp_all add: ready_def frames_inside_def)
  from listen_ok [OF assms(4) X, of "le_big V" "[0..<le_polls V]" "le_stamps V" "le_sched V"] assms(8,9) obtain X' L p sent where
    r: "poll_loop (on_frame (le_big V) (le_stamps V) (le_sched V)) (\<lambda>L. L\<lparr>batch_start := 0\<rparr>) (le_kernel V) [0..<le_polls V] (s_memory S) new_listener = Some (X', L)"
      "consumer_join md_take md_take (le_sched V (l_clock L)) (l_pipe L) = Some p" "pipe_core ladder_type kMdRing md_take md_take (0, new_signals) 0 msgs sent sent p" by auto
  then have b: "replay add_order cancel_order msgs fresh_book = Some (p_book p)" by (simp add: pipe_core_def)
  from run_replay_ok [OF assms(10,9) surjective_pairing] obtain out where out: "run_replay E path fs = Some out" by blast
  then obtain n q body where rep: "foldM report_fill (fill_log (p_book p)) (0, 0) = Some (n, q)" "book_report (p_book p) = Some body"
    "out = Exit 0 (''replayed '' @ digits (length msgs) @ '' messages from '' @ path @ newline @
      ''fills: '' @ digits (unat n) @ '', traded qty: '' @ show_int q @ newline @ body) []"
    using assms(10) b by (auto simp: run_replay_def bind_eq_Some_iff)
  from ladder_market.book_signals_of_feed [unfolded ladder_feasible book_type_sel, OF assms(9) b, of new_signals] obtain sig where
    sig: "compute_signals (\<lambda>s n. top_levels s n (p_book p)) new_signals = Some sig" by (auto simp: new_signals_def kImbalanceDepths_def)
  obtain r1 r2 mz where rows: "print_latency_row ''rx->pub'' (lat_rx L) cal = Some r1" "print_latency_row ''frame'' (lat_frame L) cal = Some r2" "mhz cal = Some mz"
    using latency_row_printable [of "''rx->pub''" "lat_rx L" cal] latency_row_printable [of "''frame''" "lat_frame L" cal] assms(6,7)
    by (auto simp: mhz_def)
  let ?S = "S\<lparr>s_memory := X'\<rparr>"
  have "accounted removes ?S" using S(1) by (simp add: accounted_def owned_def)
  from close_releases [OF this] have "held removes (s_log (xdp_close ?S)) = Some (left_over removes S)" by (simp add: left_over_def)
  moreover have "run_xdp_listen V argv = Some (Exit 0 (''xdp-listen: bound to '' @ argv ! 2 @ '' queue '' @ digits (unat (ucast (strtoull (argv ! 3)) :: u32)) @
      '' (bpf obj: '' @ (if 5 \<le> length argv then argv ! 4 else le_obj_path V) @ ''), ctrl+C to stop'' @ newline @
      (''fills: '' @ digits (unat n) @ '', traded qty: '' @ show_int q @ newline @ body) @
      (if get_stats (le_sys V) ?S then stats_line (le_stats V) else []) @ md_line p sig @ ''latency on this machine (stamp clock '' @
      digits (unat mz) @ '' MHz):'' @ newline @ print_latency_header @ r1 @ r2) [], Some (xdp_close ?S))"
    using assms(1,3,5) r(1,2) listen_report_eq [OF rep(2) sig] rows rep(1) unfolding run_xdp_listen_def Let_def
    by (simp add: not_less [symmetric] listen_fill_eq del: append_Cons)
  ultimately show ?thesis unfolding out rep(3) by blast
qed

text \<open>A kernel that delivers the two frames above before the first poll, and a file with the same message.\<close>

definition demo_listen :: listen_env where
  "demo_listen = \<lparr>le_big = False, le_sys = demo_sys True 4096, le_kernel = (\<lambda>i X. if i = 0 then demo_xsk else X), le_polls = 1, le_sched = (\<lambda>_. 1),
     le_stamps = (\<lambda>i. of_nat (3 * i)), le_monotonic = (\<lambda>i. \<lparr>tv_sec = int i, tv_nsec = 0\<rparr>),
     le_stats = \<lparr>rx_dropped = 0, rx_invalid_descs = 0, rx_ring_full = 0, rx_fill_ring_empty_descs = 0, tx_invalid_descs = 0, tx_ring_empty_descs = 0\<rparr>,
     le_obj_path = ''x.o'', le_message = (\<lambda>_. [])\<rparr>"

lemma demo_arrivals: "messages_of False (arrivals (\<lambda>i X. if i = 0 then demo_xsk else X) [0..<1] X) = [frame_message]"
  using demo_xsk_ok by (auto split: option.splits)

lemma demo_listen_calibrates: "calibrate_stamps (le_monotonic demo_listen) (le_stamps demo_listen) 200000000 = Some \<lparr>cal_ticks = 3, cal_ns = 1000000000\<rparr>"
  by (simp add: calibrate_stamps_def wait_loop.simps demo_listen_def monotonic_ns_def)

theorem listen_report_is_replay_report_witness:
  "\<exists>report rest S'. run_replay demo_env ''f'' [''f'' \<mapsto> file_image False (\<lambda>_. replicate 6 0) [frame_message]] =
      Some (Exit 0 (''replayed '' @ digits 1 @ '' messages from '' @ ''f'' @ newline @ report) []) \<and>
    run_xdp_listen demo_listen [''ob'', ''xdp-listen'', ''veth0'', ''0''] = Some (Exit 0 (''xdp-listen: bound to '' @ ''veth0'' @ '' queue '' @
      digits (unat (ucast (strtoull ''0'') :: u32)) @ '' (bpf obj: '' @ ''x.o'' @ ''), ctrl+C to stop'' @ newline @ report @ rest) [], Some S') \<and>
    held (\<lambda>_ _. True) (s_log S') = Some {#}"
proof -
  let ?argv = "[''ob'', ''xdp-listen'', ''veth0'', ''0'']"
  have k: "sys_ok (le_sys demo_listen) 4096" using demo_sys_ok by (simp add: demo_listen_def)
  from open_new_ok [of "le_sys demo_listen" 4096 "''veth0''" "ucast (strtoull ''0'')" "''x.o''" 2048 "\<lambda>_ _. True"] k obtain e S where
    "xdp_open (le_sys demo_listen) (new_socket ''veth0'' (ucast (strtoull ''0'')) ''x.o'' 4096 2048) = Some (e, S)" by auto
  moreover from this have "e = None"
    using demo_open_result [of True 4096 "''veth0''" _ _ 4096 2048 e S] by (simp add: demo_listen_def is_power_of_two_def)
  ultimately have S: "xdp_open (le_sys demo_listen) (new_socket (?argv ! 2) (ucast (strtoull (?argv ! 3)))
      (if 5 \<le> length ?argv then ?argv ! 4 else le_obj_path demo_listen) 4096 2048) = Some (None, S)"
    by (simp add: demo_listen_def)
  have "kernel_ok (le_kernel demo_listen)" using demo_xsk_ok by (simp add: kernel_ok_def demo_listen_def)
  moreover have "messages_of (le_big demo_listen) (arrivals (le_kernel demo_listen) [0..<le_polls demo_listen] (s_memory S)) = [frame_message]"
    using demo_arrivals [of "s_memory S"] by (simp add: demo_listen_def)
  moreover have "load_feed_file (big_endian demo_env) (alloc_limit demo_env) ''f'' [] [''f'' \<mapsto> file_image False (\<lambda>_. replicate 6 0) [frame_message]] = Inr (True, [frame_message])"
    using load_image [of "\<lambda>_. replicate 6 0" "[frame_message]" "alloc_limit demo_env" "[''f'' \<mapsto> file_image False (\<lambda>_. replicate 6 0) [frame_message]]" "''f''"
        "length (file_image False (\<lambda>_. replicate 6 0) [frame_message])" False]
    by (simp add: pads_ok_def demo_env_def message_ok_def frame_message_def fits_int64_def)
  ultimately show ?thesis
    using listen_report_is_replay_report [OF _ k S _ demo_listen_calibrates _ _ _ frame_message_fits, of demo_env "''f''"
        "[''f'' \<mapsto> file_image False (\<lambda>_. replicate 6 0) [frame_message]]" "\<lambda>_ _. True"]
    by (simp add: left_over_def demo_listen_def del: append_Cons)
qed

text \<open>
  C36.  From the wire to the book: a datagram whose headers say that it belongs to the feed and
  whose payload is a message passes the filter, and the frame handler of the listener applies exactly that message to its book and computes
  the signals of the result, whatever follows the message in the frame and however far the consumer thread has come; a frame that
  is too short for a message reaches neither the book nor the publisher.
\<close>

theorem wire_roundtrip:
  assumes "length hdr = kHeaderBytes" "feed_frame hdr" "length pad = 6" "message_ok m" "frame = hdr @ encode_message big pad m @ rest"
    and "kHeaderBytes + sizeof_message \<le> unat len" "unat len \<le> length frame" "listening msgs L" "feed_fits (msgs @ [m])"
  shows "xdp_redirect_feed big redirect q frame = Some (redirect q XDP_PASS) \<and>
    (\<exists>L'. on_frame big stamps sched frame len L = Some L' \<and> listening (msgs @ [m]) L' \<and>
      apply_message add_order cancel_order m (p_book (l_pipe L)) = Some (p_book (l_pipe L')) \<and>
      compute_signals (\<lambda>s n. top_levels s n (p_book (l_pipe L'))) new_signals = Some (p_sig (l_pipe L'))) \<and>
    (\<forall>k. unat k < kHeaderBytes + sizeof_message \<longrightarrow> (\<exists>L'. on_frame big stamps sched frame k L = Some L' \<and> l_pipe L' = l_pipe L))"
proof -
  have "feed_frame (hdr @ bs)" for bs using assms(1,2) by (simp add: feed_frame_def kHeaderBytes_def nth_append)
  then have "xdp_redirect_feed big redirect q frame = Some (redirect q XDP_PASS)" by (simp add: filter_decision assms(5))
  moreover have "message_in_frame big (frame, len) = [m]"
    using assms(1,3,5,6) decode_encode [OF assms(3,4), of big] by (simp add: message_in_frame_def kHeaderBytes_def sizeof_message_def)
  with on_frame_ok [OF assms(8,7), of big stamps sched] assms(9) obtain L' where
    L': "on_frame big stamps sched frame len L = Some L'" "listening (msgs @ [m]) L'" by auto
  from assms(8) have "replay add_order cancel_order msgs fresh_book = Some (p_book (l_pipe L))"
    by (auto simp: listening_def pipe_inv_def pipe_core_def)
  moreover from L'(2) have "replay add_order cancel_order (msgs @ [m]) fresh_book = Some (p_book (l_pipe L'))"
    "compute_signals (\<lambda>s n. top_levels s n (p_book (l_pipe L'))) new_signals = Some (p_sig (l_pipe L'))"
    by (auto simp: listening_def pipe_inv_def pipe_core_def)
  moreover have "\<exists>L'. on_frame big stamps sched frame k L = Some L' \<and> l_pipe L' = l_pipe L" if "unat k < kHeaderBytes + sizeof_message" for k
    using that by (simp add: on_frame_def)
  ultimately show ?thesis using L' by (auto simp: replay_snoc)
qed

definition demo_headers :: "byte list" where
  "demo_headers = replicate 12 0 @ [0x08, 0x00, 0x45] @ replicate 8 0 @ [17] @ replicate 12 0 @ [0x27, 0x0F] @ replicate 4 0"

theorem wire_roundtrip_witness:
  "xdp_redirect_feed False (\<lambda>q a. XDP_REDIRECT) (0 :: u32) (demo_headers @ encode_message False (replicate 6 0) frame_message @ [7]) = Some XDP_REDIRECT \<and>
    (\<exists>L. on_frame False (\<lambda>i. of_nat i) (\<lambda>_. 0) (demo_headers @ encode_message False (replicate 6 0) frame_message @ [7]) 83 new_listener = Some L \<and>
      apply_message add_order cancel_order frame_message fresh_book = Some (p_book (l_pipe L)))"
proof -
  let ?f = "demo_headers @ encode_message False (replicate 6 0) frame_message @ [7]"
  have h: "length demo_headers = kHeaderBytes" "feed_frame demo_headers" "length (replicate 6 0) = 6" "message_ok frame_message"
    by (simp_all add: demo_headers_def kHeaderBytes_def feed_frame_def message_ok_def frame_message_def fits_int64_def nth_append)
  then have l: "kHeaderBytes + sizeof_message \<le> unat (83 :: u32)" "unat (83 :: u32) \<le> length ?f"
    by (simp_all add: kHeaderBytes_def sizeof_message_def)
  have "feed_fits ([] @ [frame_message])" using frame_message_fits by simp
  from wire_roundtrip [OF h refl l listening_new this, of "\<lambda>q a. XDP_REDIRECT" 0 "\<lambda>i. of_nat i" "\<lambda>_. 0"] show ?thesis
    by (auto simp: new_listener_def new_pipeline_def)
qed

end
