(* ===== verification/Latency_Bench.thy ===== *)
theory Latency_Bench
  imports Main_Program Tsc_Clock
begin

text \<open>
  The latency benchmark, \<^verbatim>\<open>bench/latency_bench.cpp\<close>: a warm-up pass and a timed pass of a feed through the
  pipeline with a consumer thread at the other end, per-stage histograms, the report and the command
  line.  It is a template over the book, which the command line makes the ladder book or the map book.
  The readings of the stamp counter, the progress of the consumer and the calls for processor
  affinity are parameters.
\<close>

section \<open>One pass\<close>

definition kRing :: nat where
  "kRing = 2 ^ 12"

definition count_fill :: "fill \<Rightarrow> u64 \<Rightarrow> u64" where
  "count_fill f g_fills = g_fills + 1"

record stage_histograms =
  h_add :: histogram
  h_cancel :: histogram
  h_signals :: histogram
  h_publish :: histogram
  h_whole :: histogram

definition new_stages :: stage_histograms where
  "new_stages = \<lparr>h_add = new_histogram, h_cancel = new_histogram, h_signals = new_histogram, h_publish = new_histogram, h_whole = new_histogram\<rparr>"

text \<open>The consumer's two loops: the second one only counts.\<close>

definition consumer_take :: "book_signals \<Rightarrow> u64 \<times> int \<Rightarrow> u64 \<times> int" where
  "consumer_take s = (\<lambda>(received, sink). (received + 1, sink XOR microprice s))"

definition consumer_drain :: "book_signals \<Rightarrow> u64 \<times> int \<Rightarrow> u64 \<times> int" where
  "consumer_drain s = (\<lambda>(received, sink). (received + 1, sink))"

definition record_stages :: "feed_message \<Rightarrow> u64 \<Rightarrow> u64 \<Rightarrow> u64 \<Rightarrow> u64 \<Rightarrow> stage_histograms \<Rightarrow> stage_histograms option" where
  "record_stages msg t0 t1 t2 t3 h = do {
     h \<leftarrow> (if fm_type msg = AddOrder then do { x \<leftarrow> record_value (t1 - t0) (h_add h); Some (h\<lparr>h_add := x\<rparr>) }
          else do { x \<leftarrow> record_value (t1 - t0) (h_cancel h); Some (h\<lparr>h_cancel := x\<rparr>) });
     x \<leftarrow> record_value (t2 - t1) (h_signals h);
     y \<leftarrow> record_value (t3 - t2) (h_publish h);
     z \<leftarrow> record_value (t3 - t0) (h_whole h);
     Some (h\<lparr>h_signals := x, h_publish := y, h_whole := z\<rparr>) }"

record 'b pass_state =
  b_pipe :: "('b, u64 \<times> int) pipeline"
  b_clock :: nat
  b_stages :: "stage_histograms option"
  b_acc :: int

text \<open>
  The body of the loop of \<^verbatim>\<open>run_pass\<close>.  The four stamps are taken around the three calls of the
  pipeline; before the message the consumer thread makes \<open>sched\<close> turns.
\<close>

definition pass_step :: "('r, 'b) book_type \<Rightarrow> (nat \<Rightarrow> u64) \<Rightarrow> (nat \<Rightarrow> nat) \<Rightarrow> feed_message \<Rightarrow> 'b pass_state \<Rightarrow> 'b pass_state option" where
  "pass_step B stamps sched msg T = do {
     p \<leftarrow> consume_n consumer_take consumer_drain (sched (b_clock T)) (b_pipe T);
     t0 \<leftarrow> Some (stamps (b_clock T));
     p \<leftarrow> process_message B msg p;
     t1 \<leftarrow> Some (stamps (b_clock T + 1));
     t2 \<leftarrow> Some (stamps (b_clock T + 2));
     t3 \<leftarrow> Some (stamps (b_clock T + 3));
     im \<leftarrow> vread (imbalance (p_sig p)) 0;
     acc \<leftarrow> Some (b_acc T XOR (microprice (p_sig p) XOR im));
     h \<leftarrow> (case b_stages T of None \<Rightarrow> Some None | Some h \<Rightarrow> map_option Some (record_stages msg t0 t1 t2 t3 h));
     Some (T\<lparr>b_pipe := p, b_clock := b_clock T + 4, b_stages := h, b_acc := acc\<rparr>) }"

definition run_pass :: "('r, 'b) book_type \<Rightarrow> (nat \<Rightarrow> u64) \<Rightarrow> (nat \<Rightarrow> nat) \<Rightarrow> feed_message list \<Rightarrow> 'b pass_state \<Rightarrow> 'b pass_state option" where
  "run_pass B stamps sched msgs T = foldM (pass_step B stamps sched) msgs (T\<lparr>b_pipe := (b_pipe T)\<lparr>p_sig := new_signals\<rparr>, b_acc := 0\<rparr>)"

definition measure_overhead :: "(nat \<Rightarrow> u64) \<Rightarrow> nat \<Rightarrow> nat \<Rightarrow> histogram option" where
  "measure_overhead stamps c n = foldM (\<lambda>i h. record_value (stamps (c + 2 * i + 1) - stamps (c + 2 * i)) h) [0..<n] new_histogram"

section \<open>The benchmark\<close>

record bench_result =
  r_fills :: u64
  r_published :: u64
  r_dropped :: u64
  r_received :: u64
  r_stages :: stage_histograms
  r_overhead :: histogram

definition bench_run :: "('r, 'b) book_type \<Rightarrow> (nat \<Rightarrow> u64) \<Rightarrow> (nat \<Rightarrow> nat) \<Rightarrow> feed_message list \<Rightarrow> bench_result option" where
  "bench_run B stamps sched msgs = do {
     T \<leftarrow> Some \<lparr>b_pipe = new_pipeline B kRing (0, 0), b_clock = 2, b_stages = None, b_acc = 0\<rparr>;
     T \<leftarrow> run_pass B stamps sched msgs T;
     pub_before \<leftarrow> Some (published (p_pub (b_pipe T)));
     drop_before \<leftarrow> Some (dropped (p_pub (b_pipe T)));
     T \<leftarrow> Some (T\<lparr>b_pipe := (b_pipe T)\<lparr>p_book := bt_new B\<rparr>, b_stages := Some new_stages\<rparr>);
     T \<leftarrow> run_pass B stamps sched msgs T;
     g_fills \<leftarrow> Some (fold count_fill (bt_log B (p_book (b_pipe T))) 0);
     pub \<leftarrow> Some (published (p_pub (b_pipe T)) - pub_before);
     drp \<leftarrow> Some (dropped (p_pub (b_pipe T)) - drop_before);
     p \<leftarrow> consumer_join consumer_take consumer_drain (sched (b_clock T)) (b_pipe T);
     overhead \<leftarrow> measure_overhead stamps (b_clock T) 1000000;
     h \<leftarrow> b_stages T;
     Some \<lparr>r_fills = g_fills, r_published = pub, r_dropped = drp, r_received = fst (c_state p), r_stages = h, r_overhead = overhead\<rparr> }"

definition bench :: "('r, 'b) book_type \<Rightarrow> (nat \<Rightarrow> u64) \<Rightarrow> (nat \<Rightarrow> nat) \<Rightarrow> feed_message list \<Rightarrow> string \<Rightarrow> stamp_calibration \<Rightarrow> string option" where
  "bench B stamps sched msgs book_name cal = do {
     r \<leftarrow> bench_run B stamps sched msgs;
     mz \<leftarrow> mhz cal;
     row_add \<leftarrow> print_latency_row ''add'' (h_add (r_stages r)) cal;
     row_cancel \<leftarrow> print_latency_row ''cancel'' (h_cancel (r_stages r)) cal;
     row_signals \<leftarrow> print_latency_row ''signals'' (h_signals (r_stages r)) cal;
     row_publish \<leftarrow> print_latency_row ''publish'' (h_publish (r_stages r)) cal;
     row_total \<leftarrow> print_latency_row ''total'' (h_whole (r_stages r)) cal;
     row_overhead \<leftarrow> print_latency_row ''overhead'' (r_overhead r) cal;
     Some (''book: '' @ book_name @ '' | messages: '' @ digits (length msgs) @ '' | fills: '' @ digits (unat (r_fills r)) @
       '' | stamp clock: '' @ digits (unat mz) @ '' MHz'' @ newline @
       ''md publish (timed pass): '' @ digits (unat (r_published r)) @ '' published, '' @ digits (unat (r_dropped r)) @
       '' dropped (ring full) | consumer received '' @ digits (unat (r_received r)) @ '' over both passes'' @ newline @
       print_latency_header @ row_add @ row_cancel @ row_signals @ row_publish @ row_total @ row_overhead) }"

section \<open>The command line\<close>

definition bench_usage :: "string \<Rightarrow> string" where
  "bench_usage argv0 = ''usage: '' @ argv0 @ '' <feed.dat> [--book ladder|map] [--cpu N] [--consumer-cpu M]'' @ newline"

text \<open>\<^verbatim>\<open>atoi\<close>: undefined when the number is not an \<^verbatim>\<open>int\<close>.\<close>

definition atoi :: "string \<Rightarrow> int option" where
  "atoi s =
     (let t = dropWhile is_space s;
          neg = (t \<noteq> [] \<and> hd t = CHR ''-'');
          t = (if t \<noteq> [] \<and> (hd t = CHR ''-'' \<or> hd t = CHR ''+'') then tl t else t);
          v = int (numeral_value (takeWhile is_digit t));
          v = (if neg then - v else v)
      in if - (2 ^ 31) \<le> v \<and> v < 2 ^ 31 then Some v else None)"

text \<open>The options: book, cpu, consumer cpu.  The inner \<^const>\<open>None\<close> is a wrong command line.\<close>

fun parse_args :: "string list \<Rightarrow> string \<times> int \<times> int \<Rightarrow> (string \<times> int \<times> int) option option" where
  "parse_args [] opts = Some (Some opts)"
| "parse_args [x] opts = Some None"
| "parse_args (x # v # rest) (book, cpu, consumer_cpu) =
     (if x = ''--book'' then parse_args rest (v, cpu, consumer_cpu)
      else if x = ''--cpu'' then do { n \<leftarrow> atoi v; parse_args rest (book, n, consumer_cpu) }
      else if x = ''--consumer-cpu'' then do { n \<leftarrow> atoi v; parse_args rest (book, cpu, n) }
      else Some None)"

record bench_env =
  a_big :: bool
  a_limit :: nat
  a_affinity :: "int \<Rightarrow> int"
  a_ncpu :: int
  a_release :: bool
  a_errno :: string
  a_stamps :: "nat \<Rightarrow> u64"
  a_sched :: "nat \<Rightarrow> nat"
  a_monotonic :: "nat \<Rightarrow> timespec"

definition pin_to_cpu :: "bench_env \<Rightarrow> int \<Rightarrow> bool" where
  "pin_to_cpu A cpu = (if cpu < 0 then True else a_affinity A cpu = 0)"

definition perror :: "bench_env \<Rightarrow> string \<Rightarrow> string" where
  "perror A what = what @ '': '' @ a_errno A @ newline"

definition default_consumer_cpu :: "bench_env \<Rightarrow> int \<Rightarrow> int \<Rightarrow> int option" where
  "default_consumer_cpu A cpu consumer_cpu =
     (if cpu \<ge> 0 \<and> consumer_cpu < 0 \<and> a_ncpu A > 1
      then (if cpu + 1 < 2 ^ 31 then Some ((cpu + 1) mod a_ncpu A) else None)
      else Some consumer_cpu)"

definition show_cpu :: "int \<Rightarrow> string" where
  "show_cpu cpu = (if cpu \<ge> 0 then show_int cpu else ''unpinned'')"

definition bench_main :: "bench_env \<Rightarrow> string list \<Rightarrow> files \<Rightarrow> outcome option" where
  "bench_main A argv fs =
     (let argc = length argv; usage = Exit 1 [] (bench_usage (argv ! 0)) in
      if argc = 0 then None
      else if argc < 2 then Some usage
      else do {
        opts \<leftarrow> parse_args (drop 2 argv) (''ladder'', -1, -1);
        case opts of
          None \<Rightarrow> Some usage
        | Some (book, cpu, consumer_cpu) \<Rightarrow>
            if book \<noteq> ''ladder'' \<and> book \<noteq> ''map'' then Some usage
            else do {
              warning \<leftarrow> Some (if a_release A then [] else ''WARNING: not a Release build (NDEBUG unset) '' @ [CHR 0xE2, CHR 0x80, CHR 0x94] @
                '' these numbers mean nothing.'' @ newline);
              consumer_cpu \<leftarrow> default_consumer_cpu A cpu consumer_cpu;
              if \<not> pin_to_cpu A cpu then Some (Exit 1 [] (warning @ perror A ''sched_setaffinity''))
              else case load_feed_file (a_big A) (a_limit A) (argv ! 1) [] fs of
                Inl e \<Rightarrow> Some Terminated
              | Inr (ok, msgs) \<Rightarrow>
                  if \<not> ok then Some (Exit 1 [] (warning @ ''failed to read feed file: '' @ argv ! 1 @ newline))
                  else do {
                    cal \<leftarrow> calibrate_stamps (a_monotonic A) (a_stamps A) 200000000;
                    body \<leftarrow> (if book = ''map'' then bench map_type (a_stamps A) (a_sched A) msgs ''map (pre-Phase-4)'' cal
                      else bench ladder_type (a_stamps A) (a_sched A) msgs ''ladder'' cal);
                    Some (Exit 0 (''cpu: '' @ show_cpu cpu @ '' | consumer cpu: '' @ show_cpu consumer_cpu @ '' | ladder window: '' @
                        digits kDefaultLadderWindow @ '' ticks/side'' @ newline @ body)
                      (warning @ (if pin_to_cpu A consumer_cpu then [] else perror A ''consumer sched_setaffinity''))) } } })"

section \<open>Passes keep the pipeline in order\<close>

definition stages_of :: "stage_histograms \<Rightarrow> nat \<Rightarrow> bool" where
  "stages_of h n \<longleftrightarrow> (\<exists>as cs xs ys zs. hist_of (h_add h) as \<and> hist_of (h_cancel h) cs \<and> hist_of (h_signals h) xs \<and> hist_of (h_publish h) ys \<and>
     hist_of (h_whole h) zs \<and> length as + length cs = n \<and> length xs = n \<and> length ys = n \<and> length zs = n)"

lemma stages_of_new: "stages_of new_stages 0"
  using hist.fresh_law by (auto simp: stages_of_def new_stages_def)

lemma record_stages_ok:
  assumes "stages_of h n"
  shows "\<exists>h'. record_stages msg t0 t1 t2 t3 h = Some h' \<and> stages_of h' (Suc n)"
proof -
  from assms obtain as cs xs ys zs where h: "hist_of (h_add h) as" "hist_of (h_cancel h) cs" "hist_of (h_signals h) xs" "hist_of (h_publish h) ys"
    "hist_of (h_whole h) zs" "length as + length cs = n" "length xs = n" "length ys = n" "length zs = n" by (auto simp: stages_of_def)
  from hist.rec_law [OF h(1), of "t1 - t0"] hist.rec_law [OF h(2), of "t1 - t0"] hist.rec_law [OF h(3), of "t2 - t1"]
    hist.rec_law [OF h(4), of "t3 - t2"] hist.rec_law [OF h(5), of "t3 - t0"] obtain a c x y z where
    r: "record_value (t1 - t0) (h_add h) = Some a" "hist_of a (as @ [t1 - t0])" "record_value (t1 - t0) (h_cancel h) = Some c" "hist_of c (cs @ [t1 - t0])"
      "record_value (t2 - t1) (h_signals h) = Some x" "hist_of x (xs @ [t2 - t1])" "record_value (t3 - t2) (h_publish h) = Some y" "hist_of y (ys @ [t3 - t2])"
      "record_value (t3 - t0) (h_whole h) = Some z" "hist_of z (zs @ [t3 - t0])" by blast
  define as' where "as' = (if fm_type msg = AddOrder then as @ [t1 - t0] else as)"
  define cs' where "cs' = (if fm_type msg = AddOrder then cs else cs @ [t1 - t0])"
  define h' where "h' = h\<lparr>h_add := (if fm_type msg = AddOrder then a else h_add h), h_cancel := (if fm_type msg = AddOrder then h_cancel h else c),
    h_signals := x, h_publish := y, h_whole := z\<rparr>"
  have "record_stages msg t0 t1 t2 t3 h = Some h'" using r by (simp add: record_stages_def h'_def)
  moreover have "hist_of (h_add h') as'" "hist_of (h_cancel h') cs'" "length as' + length cs' = Suc n"
    using r h by (auto simp: h'_def as'_def cs'_def)
  then have "stages_of h' (Suc n)" unfolding stages_of_def using r(6,8,10) h
    by (intro exI [of _ as'] exI [of _ cs'] exI [of _ "xs @ [t2 - t1]"] exI [of _ "ys @ [t3 - t2]"] exI [of _ "zs @ [t3 - t0]"]) (simp add: h'_def)
  ultimately show ?thesis by blast
qed

lemma overhead_ok: "\<exists>h. measure_overhead stamps c n = Some h \<and> hist_count h = of_nat n"
proof -
  let ?vs = "map (\<lambda>i. stamps (c + 2 * i + 1) - stamps (c + 2 * i)) [0..<n]"
  from hist.record_fresh [of ?vs] show ?thesis by (auto simp: measure_overhead_def foldM_map)
qed

lemma stages_counts:
  assumes "stages_of h n"
  shows "hist_count (h_add h) + hist_count (h_cancel h) = of_nat n" "hist_count (h_signals h) = of_nat n"
    "hist_count (h_publish h) = of_nat n" "hist_count (h_whole h) = of_nat n"
proof -
  from assms obtain as cs xs ys zs where "hist_of (h_add h) as" "hist_of (h_cancel h) cs" "hist_of (h_signals h) xs" "hist_of (h_publish h) ys"
    "hist_of (h_whole h) zs" "length as + length cs = n" "length xs = n" "length ys = n" "length zs = n" by (auto simp: stages_of_def)
  then show "hist_count (h_add h) + hist_count (h_cancel h) = of_nat n" "hist_count (h_signals h) = of_nat n"
    "hist_count (h_publish h) = of_nat n" "hist_count (h_whole h) = of_nat n" by (auto simp: hist.total_law)
qed

lemma consumer_counts:
  "fst (fold consumer_take got c) = fst c + of_nat (length got)" "fst (fold consumer_drain got c) = fst c + of_nat (length got)"
  by (induction got arbitrary: c) (simp_all add: consumer_take_def consumer_drain_def case_prod_beta)

lemma fold_count_fill: "fold count_fill fs n = n + of_nat (length fs)"
  by (induction fs arbitrary: n) (simp_all add: count_fill_def)

definition passing :: "('r, 'b) book_type \<Rightarrow> nat \<Rightarrow> feed_message list \<Rightarrow> 'b pass_state \<Rightarrow> bool" where
  "passing B k msgs T \<longleftrightarrow> (\<exists>sent. pipe_inv B kRing consumer_take consumer_drain (0, 0) k msgs sent (b_pipe T)) \<and>
     (\<forall>h. b_stages T = Some h \<longrightarrow> stages_of h (length msgs))"

abbreviation timed :: "'b pass_state \<Rightarrow> unit option" where
  "timed T \<equiv> map_option (\<lambda>_. ()) (b_stages T)"

text \<open>
  A report that accounts for every message: the fills are those of the specification, each message is
  in exactly one of the add and cancel rows and in each other row and its snapshot is counted as published or
  dropped, and the consumer has received what was published, \<open>warm\<close> snapshots of it in the warm-up.
\<close>

definition bench_report_ok :: "feed_message list \<Rightarrow> nat \<Rightarrow> bench_result \<Rightarrow> bool" where
  "bench_report_ok msgs warm r \<longleftrightarrow>
     r_fills r = of_nat (length (snd (spec_replay (2 ^ 16) msgs \<lparr>s_bids = [], s_asks = []\<rparr>))) \<and>
     r_published r + r_dropped r = of_nat (length msgs) \<and> r_received r = of_nat warm + r_published r \<and>
     hist_count (h_add (r_stages r)) + hist_count (h_cancel (r_stages r)) = of_nat (length msgs) \<and>
     hist_count (h_signals (r_stages r)) = of_nat (length msgs) \<and> hist_count (h_publish (r_stages r)) = of_nat (length msgs) \<and>
     hist_count (h_whole (r_stages r)) = of_nat (length msgs) \<and> hist_count (r_overhead r) = 1000000"

context market_book
begin

lemma pass_step_ok:
  assumes "passing T k msgs X" "feasible (msgs @ [m])"
  shows "\<exists>X'. pass_step T stamps sched m X = Some X' \<and> passing T k (msgs @ [m]) X' \<and> timed X' = timed X"
proof -
  from assms(1) obtain sent where p: "pipe_inv T kRing consumer_take consumer_drain (0, 0) k msgs sent (b_pipe X)" by (auto simp: passing_def)
  from consume_n_ok [OF p, of "sched (b_clock X)"] obtain q where
    q: "consume_n consumer_take consumer_drain (sched (b_clock X)) (b_pipe X) = Some q" "pipe_inv T kRing consumer_take consumer_drain (0, 0) k msgs sent q" by blast
  from process_message_ok [OF q(2) assms(2)] obtain r sent' where
    r: "process_message T m q = Some r" "pipe_inv T kRing consumer_take consumer_drain (0, 0) k (msgs @ [m]) sent' r" by blast
  have im: "vread (imbalance (p_sig r)) 0 = Some (imbalance (p_sig r) ! 0)" using r(2) by (auto simp: pipe_inv_def pipe_core_def vread_def)
  let ?c = "b_clock X" let ?rec = "record_stages m (stamps ?c) (stamps (?c + 1)) (stamps (?c + 2)) (stamps (?c + 3))"
  have "\<exists>h'. (case b_stages X of None \<Rightarrow> Some None | Some h \<Rightarrow> map_option Some (?rec h)) = Some h' \<and> map_option (\<lambda>_. ()) h' = timed X \<and>
      (\<forall>h. h' = Some h \<longrightarrow> stages_of h (Suc (length msgs)))"
  proof (cases "b_stages X")
    case (Some h)
    with assms(1) record_stages_ok [of h "length msgs" m "stamps ?c" "stamps (?c + 1)" "stamps (?c + 2)" "stamps (?c + 3)"]
    show ?thesis by (auto simp: passing_def)
  qed simp
  then obtain h' where h': "(case b_stages X of None \<Rightarrow> Some None | Some h \<Rightarrow> map_option Some (?rec h)) = Some h'"
    "map_option (\<lambda>_. ()) h' = timed X" "\<forall>h. h' = Some h \<longrightarrow> stages_of h (Suc (length msgs))" by blast
  let ?X = "X\<lparr>b_pipe := r, b_clock := ?c + 4, b_stages := h', b_acc := b_acc X XOR (microprice (p_sig r) XOR imbalance (p_sig r) ! 0)\<rparr>"
  have "pass_step T stamps sched m X = Some ?X" using q(1) r(1) im h'(1) by (simp add: pass_step_def cong: option.case_cong)
  moreover have "passing T k (msgs @ [m]) ?X" using r(2) h'(3) by (auto simp: passing_def)
  moreover have "timed ?X = timed X" using h'(2) by simp
  ultimately show ?thesis by blast
qed

lemma passes_ok:
  assumes "passing T k msgs X" "feasible (msgs @ ms)"
  shows "\<exists>X'. foldM (pass_step T stamps sched) ms X = Some X' \<and> passing T k (msgs @ ms) X' \<and> timed X' = timed X"
  using assms
proof (induction ms arbitrary: msgs X)
  case (Cons m ms)
  have "feasible (msgs @ [m])" using Cons.prems(2) feasible_prefix [of "msgs @ [m]" ms] by simp
  from pass_step_ok [OF Cons.prems(1) this, of stamps sched] obtain U where
    U: "pass_step T stamps sched m X = Some U" "passing T k (msgs @ [m]) U" "timed U = timed X" by blast
  have "feasible ((msgs @ [m]) @ ms)" using Cons.prems(2) by simp
  from Cons.IH [OF U(2) this] obtain V where
    "foldM (pass_step T stamps sched) ms U = Some V" "passing T k ((msgs @ [m]) @ ms) V" "timed V = timed U" by blast
  with U(1,3) show ?case by simp
qed simp

lemma run_pass_ok:
  assumes "passing T k [] X" "feasible msgs"
  shows "\<exists>X'. run_pass T stamps sched msgs X = Some X' \<and> passing T k msgs X' \<and> timed X' = timed X"
proof -
  have "passing T k [] (X\<lparr>b_pipe := (b_pipe X)\<lparr>p_sig := new_signals\<rparr>, b_acc := 0\<rparr>)"
    using assms(1) by (simp add: passing_def pipe_inv_def pipe_core_def new_signals_def kImbalanceDepths_def)
  from passes_ok [OF this, of msgs stamps sched] assms(2) show ?thesis by (simp add: run_pass_def)
qed

lemma passing_counts:
  assumes "passing T k msgs X"
  shows "\<exists>n \<le> k + length msgs. published (p_pub (b_pipe X)) = of_nat n \<and> dropped (p_pub (b_pipe X)) = of_nat (k + length msgs - n) \<and>
    replay (bt_add T) (bt_cancel T) msgs (bt_new T) = Some (p_book (b_pipe X)) \<and>
    (\<exists>p. consumer_join consumer_take consumer_drain j (b_pipe X) = Some p \<and> fst (c_state p) = of_nat n)"
proof -
  from assms obtain sent got where p: "pipe_inv T kRing consumer_take consumer_drain (0, 0) k msgs sent (b_pipe X)"
    and core: "pipe_core T kRing consumer_take consumer_drain (0, 0) k msgs sent got (b_pipe X)" by (auto simp: passing_def pipe_inv_def)
  from consumer_join_ok [OF p, of j] obtain q where
    q: "consumer_join consumer_take consumer_drain j (b_pipe X) = Some q" "pipe_core T kRing consumer_take consumer_drain (0, 0) k msgs sent sent q" by blast
  from joined_state [OF q(2)] obtain xs ys where "sent = xs @ ys" "c_state q = fold consumer_drain ys (fold consumer_take xs (0, 0))" .
  then have "fst (c_state q) = of_nat (length sent)" by (simp add: consumer_counts)
  with q(1) core show ?thesis by (intro exI [of _ "length sent"]) (auto simp: pipe_core_def)
qed

lemma bench_run_ok:
  assumes "feasible msgs"
  shows "\<exists>r warm. bench_run T stamps sched msgs = Some r \<and> warm \<le> length msgs \<and> bench_report_ok msgs warm r"
proof -
  let ?X = "\<lparr>b_pipe = new_pipeline T kRing (0, 0), b_clock = 2, b_stages = None, b_acc = 0\<rparr> "
  have "is_pow2 kRing" unfolding kRing_def by (rule is_pow2_power)
  then have "passing T 0 [] ?X" using pipe_inv_new [of kRing T consumer_take consumer_drain "(0, 0)"] by (auto simp: passing_def)
  from run_pass_ok [OF this assms, of stamps sched] obtain U where
    U: "run_pass T stamps sched msgs ?X = Some U" "passing T 0 msgs U" by blast
  from passing_counts [OF U(2), of 0] obtain w where
    w: "w \<le> length msgs" "published (p_pub (b_pipe U)) = of_nat w" "dropped (p_pub (b_pipe U)) = of_nat (length msgs - w)" by auto
  let ?U = "U\<lparr>b_pipe := (b_pipe U)\<lparr>p_book := bt_new T\<rparr>, b_stages := Some new_stages\<rparr>"
  have "passing T (length msgs) [] ?U"
    using U(2) stages_of_new by (auto simp: passing_def pipe_inv_def pipe_core_def replay_def)
  from run_pass_ok [OF this assms, of stamps sched] obtain V where
    V: "run_pass T stamps sched msgs ?U = Some V" "passing T (length msgs) msgs V" "timed V = timed ?U" by blast
  then obtain h where h: "b_stages V = Some h" "stages_of h (length msgs)" by (cases "b_stages V") (auto simp: passing_def)
  from passing_counts [OF V(2), of "sched (b_clock V)"] obtain n p where n: "n \<le> length msgs + length msgs" "published (p_pub (b_pipe V)) = of_nat n"
    "dropped (p_pub (b_pipe V)) = of_nat (length msgs + length msgs - n)" "replay (bt_add T) (bt_cancel T) msgs (bt_new T) = Some (p_book (b_pipe V))"
    "consumer_join consumer_take consumer_drain (sched (b_clock V)) (b_pipe V) = Some p" "fst (c_state p) = of_nat n" by blast
  obtain B fs where S: "spec_replay (2 ^ 16) msgs \<lparr>s_bids = [], s_asks = []\<rparr> = (B, fs)" by fastforce
  from feed_replayable [OF assms S] n(4) have f: "bt_log T (p_book (b_pipe V)) = fs" by simp
  from overhead_ok [of stamps "b_clock V" 1000000] obtain ovh where ovh: "measure_overhead stamps (b_clock V) 1000000 = Some ovh" "hist_count ovh = 1000000" by auto
  have sum: "(of_nat n - of_nat w) + (of_nat (length msgs + length msgs - n) - of_nat (length msgs - w)) = (of_nat (length msgs) :: u64)"
    using n(1) w(1) by (simp add: of_nat_diff)
  let ?r = "\<lparr>r_fills = of_nat (length fs), r_published = of_nat n - of_nat w, r_dropped = of_nat (length msgs + length msgs - n) - of_nat (length msgs - w),
    r_received = of_nat n, r_stages = h, r_overhead = ovh\<rparr>"
  have "bench_run T stamps sched msgs = Some ?r"
    using U(1) V(1) h(1) w(2,3) n(2,3,5,6) ovh(1) f by (simp add: bench_run_def fold_count_fill)
  moreover note stages_counts [OF h(2)]
  ultimately show ?thesis using w(1) ovh(2) S sum by (intro exI [of _ ?r] exI [of _ w]) (simp add: bench_report_ok_def)
qed

end

section \<open>Properties\<close>

text \<open>
  C37.  What the benchmark reports: for every feed in range, whatever the clock shows and however
  the consumer progresses, both passes return on the ladder book; the fills are those of the specification
  on a fresh book, so that the warm-up leaves no trace; in the timed pass every message is in exactly one
  of the add and cancel rows and in each other row, and its snapshot is counted as published or dropped;
  and the consumer has received the snapshots published in both passes.  When no add message carries the
  id of a resting order, the same holds on the map book, so that the two runs compare the same work.
\<close>

theorem bench_counts:
  assumes "feed_fits msgs"
  shows "(\<exists>r warm. bench_run ladder_type stamps sched msgs = Some r \<and> warm \<le> length msgs \<and> bench_report_ok msgs warm r) \<and>
    (admitted new_id (2 ^ 16) msgs \<lparr>s_bids = [], s_asks = []\<rparr> \<longrightarrow>
      (\<exists>r warm. bench_run map_type stamps' sched' msgs = Some r \<and> warm \<le> length msgs \<and> bench_report_ok msgs warm r))"
  using assms ladder_market.bench_run_ok [of msgs stamps sched] map_market.bench_run_ok [of msgs stamps' sched']
  by (simp add: map_market.feasible_def)

theorem bench_counts_witness:
  "(\<exists>r. bench_run ladder_type (\<lambda>i. of_nat i) (\<lambda>_. 1) demo_feed = Some r \<and> r_published r + r_dropped r = 3 \<and> hist_count (h_whole (r_stages r)) = 3) \<and>
    (\<exists>r. bench_run map_type (\<lambda>i. of_nat i) (\<lambda>_. 1) demo_feed = Some r \<and> r_published r + r_dropped r = 3)"
proof -
  have "feed_fits demo_feed"
    using demo_feed_ok by (auto simp: feed_fits_def quantities_ok_def add_prices_def add_qty_def demo_feed_def AddOrder_def scalable_def fits_int64_def kSignalScale_def)
  moreover have "admitted new_id (2 ^ 16) demo_feed \<lparr>s_bids = [], s_asks = []\<rparr>"
    by (simp add: demo_feed_def spec_apply_def AddOrder_def CancelOrder_def side_of_byte_def spec_add_def book_ids_def side_orders_def pbetter_def Let_def)
  ultimately show ?thesis
    using bench_counts [of demo_feed "\<lambda>i. of_nat i" "\<lambda>_. 1" "\<lambda>i. of_nat i" "\<lambda>_. 1"] by (auto simp: demo_feed_def bench_report_ok_def)
qed

end
