(* ===== verification/Spec2Isabelle.thy ===== *)
theory Spec2Isabelle
  imports Ladder_Contract Book_Run Xdp_Listen Latency_Bench
begin

text \<open>
  A verification of the limit order book engine of this repository: the matching core, the
  market data path behind it, the feed files in front of it, the command line program, the
  AF_XDP listener and the latency benchmark.

  \<^bold>\<open>The program.\<close>  An \<^verbatim>\<open>OrderBook\<close> (\<^verbatim>\<open>include/order_book.hpp\<close>) keeps two \<^verbatim>\<open>LevelLadder\<close>s of price levels
  (\<^verbatim>\<open>include/level_ladder.hpp\<close>: a window of slots around the best price with an occupancy bitmap, and
  a sorted \<^verbatim>\<open>LevelTail\<close> for the prices outside it).  A \<^verbatim>\<open>PriceLevel\<close> is a doubly linked queue of
  orders, which live in a \<^verbatim>\<open>MemoryPool\<close> and are found by id through an \<^verbatim>\<open>OrderIdMap\<close>.  Messages
  (\<^verbatim>\<open>feed_message.hpp\<close>) come from a feed file (\<^verbatim>\<open>feed_replay.hpp\<close>, written by the generators of \<^verbatim>\<open>src/main.cpp\<close>)
  or from the network (\<^verbatim>\<open>ebpf/xdp_redirect.c\<close> selects frames in the kernel, \<^verbatim>\<open>src/xdp_socket.cpp\<close> receives
  them, \<^verbatim>\<open>src/xdp_listen_cmd.cpp\<close> decodes them).  After each message the signals of the book are computed
  (\<^verbatim>\<open>signals.hpp\<close>) and published (\<^verbatim>\<open>md_publisher.hpp\<close>) through a lock-free ring
  (\<^verbatim>\<open>spsc_ring_buffer.hpp\<close>) to a consumer thread.  \<^verbatim>\<open>bench/latency_bench.cpp\<close> times the same path with
  \<^verbatim>\<open>tsc_clock.hpp\<close> and \<^verbatim>\<open>latency_histogram.hpp\<close>.

  \<^bold>\<open>Conventions.\<close>  A C++ function is a function of the same name on explicit states.  What C++ leaves
  undefined (a dead pointer, signed overflow, an index out of range), a failed \<^verbatim>\<open>assert\<close> and a loop that
  does not stop are \<^const>\<open>None\<close>; a theorem that an operation returns \<^const>\<open>Some\<close> excludes all of them.
  Unsigned integers are words of their width and wrap.  Signed ones, prices and quantities among them, are
  integers with a range: an argument outside \<open>fits_int64\<close> is no argument of the C++ function, and each addition, subtraction and
  multiplication on them, in the ladder, in the queues, in the matching loop and in the totals as well as in the signals, carries its
  overflow check (\<open>checked64\<close>, \<open>checked128\<close>).  Pointers are addresses of an object store.  Loops that need not stop are
  \<^theory_text>\<open>partial_function\<close>s, and the lemmas on them show that they stop.  Exceptions and error returns are
  values.  Code outside the repository (file system, kernel, libbpf, clocks, random engine, byte order,
  padding bytes, scheduling) is an argument of the definitions that use it.

  \<^bold>\<open>Theories.\<close>

  \<^item> \<open>Prelude\<close>: shared vocabulary, monadic folds, checked 64-bit arithmetic.  \<open>Machine_Int\<close>: 128-bit arithmetic, division that
    truncates, decimal output.
  \<^item> \<open>Order_Types\<close> (\<^verbatim>\<open>order.hpp\<close>): ids, sides, orders, fills.
  \<^item> \<open>Price_Level\<close> (\<^verbatim>\<open>price_level.hpp\<close>): the intrusive queue; \<open>push_back\<close>, \<open>remove\<close> and \<open>reduce_head\<close> act on
    the list that the links represent and keep the quantity total; \<open>push_back\<close> is undefined exactly when the total overflows.
  \<^item> \<open>Memory_Pool\<close> (\<^verbatim>\<open>memory_pool.hpp\<close>): \<open>allocate\<close> and \<open>release\<close>; interface \<open>slab\<close>, instance \<open>order_pool\<close>.
  \<^item> \<open>Order_Id_Map\<close> (\<^verbatim>\<open>order_id_map.hpp\<close>): linear probing with backward-shift erase; probes stop, the table
    is a map; interface \<open>id_index\<close>, instance \<open>oids\<close>.
  \<^item> \<open>Bitmap\<close>, \<open>Level_Tail\<close>, \<open>Level_Ladder\<close> (\<^verbatim>\<open>level_ladder.hpp\<close>): bit scans, the sorted tail, the window that
    recentres on a better price; the invariant \<open>ladder_inv\<close> and the effect of each operation on the map from
    prices to levels.  \<open>Ladder_Contract\<close>: interface \<open>level_store\<close>, instance \<open>ladder_store\<close>.
  \<^item> \<open>Book_Spec\<close>: the abstract book, two sorted lists of queues.  \<open>Book_Laws\<close>: price-time priority, conservation
    and no crossing, on the abstract book.  \<open>Book_Core\<close>: pool, queues and id map as the abstract book sees them,
    for any container of levels.  \<open>Book_Engine\<close>: the interfaces \<open>level_book\<close> (one trade, the best level,
    closing a level) and \<open>order_entry\<close> (allocating, resting, releasing, cancelling), and matching verified
    over them.
  \<^item> \<open>Order_Book\<close> (\<^verbatim>\<open>order_book.hpp\<close>): the class itself.  \<open>Book_Refine\<close>: its instance \<open>ladder_engine\<close> of
    \<open>order_entry\<close>, and that both operations implement the abstract ones.
    \<open>Book_Queries\<close>: the read-only operations.  \<open>Book_Run\<close>: reachable books, as an inductive relation.
  \<^item> \<open>Map_Book\<close> (\<^verbatim>\<open>tests/support/map_order_book.hpp\<close>): the book on \<^verbatim>\<open>std::map\<close>, oracle of the differential tests and
    baseline of the benchmark; instance \<open>map_engine\<close> of \<open>order_entry\<close>.
  \<^item> \<open>Spsc_Ring\<close> (\<^verbatim>\<open>spsc_ring_buffer.hpp\<close>): the two operations in sequence (interface \<open>bounded_fifo\<close>, instance
    \<open>spsc\<close>), and as a step relation of two threads in which an acquire load may return any earlier value
    of the other thread's index.
  \<^item> \<open>Signals\<close> (\<^verbatim>\<open>signals.hpp\<close>), \<open>Md_Publisher\<close> (\<^verbatim>\<open>md_publisher.hpp\<close>): fixed-point microprice and
    imbalance, printing, and the publisher that drops when the ring is full.
  \<^item> \<open>Md_Threads\<close> (the consumer thread of \<^verbatim>\<open>xdp_listen_cmd.cpp\<close> and \<^verbatim>\<open>latency_bench.cpp\<close>): its loop and the end of
    it by a stop flag, turn by turn and as a step relation over that of the ring, where the load of the flag may be stale
    too; the turns are runs of the steps.
  \<^item> \<open>Feed_Message\<close> (\<^verbatim>\<open>feed_message.hpp\<close>), \<open>Feed_File\<close>, \<open>Feed_Replay\<close> (\<^verbatim>\<open>feed_replay.hpp\<close>): the byte layout,
    saving and loading (interface \<open>record_codec\<close>, instances \<open>message_codec\<close> and \<open>header_codec\<close>), replay (interface \<open>matching_book\<close>, instances \<open>ladder_book\<close> and \<open>map_book\<close>).  \<open>Feed_Range\<close>: the values that
    a replay can reach are bounded by the feed.
  \<^item> \<open>Feed_Generator\<close>, \<open>Main_Program\<close> (\<^verbatim>\<open>src/main.cpp\<close>): the generators and the command line.
  \<^item> \<open>Md_Pipeline\<close>: apply, compute, publish and consume, the path shared by listener and benchmark, as a template
    over the book (interface \<open>market_book\<close>, instances \<open>ladder_market\<close> and \<open>map_market\<close>).
  \<^item> \<open>Latency_Histogram\<close> (\<^verbatim>\<open>latency_histogram.hpp\<close>), \<open>Tsc_Clock\<close> (\<^verbatim>\<open>tsc_clock.hpp\<close>,
    \<^verbatim>\<open>latency_report.hpp\<close>), \<open>Latency_Bench\<close> (\<^verbatim>\<open>latency_bench.cpp\<close>): quantiles (interface \<open>recorder\<close>,
    instance \<open>hist\<close>), calibration, the benchmark.
  \<^item> \<open>Xdp_Filter\<close> (\<^verbatim>\<open>ebpf/xdp_redirect.c\<close>), \<open>Xdp_Rings\<close> (\<^verbatim>\<open>xdp_socket.hpp\<close>), \<open>Xdp_Socket\<close>
    (\<^verbatim>\<open>xdp_socket.cpp\<close>), \<open>Xdp_Listen\<close> (\<^verbatim>\<open>xdp_listen_cmd.cpp\<close>): the frame filter, polling with 32-bit ring
    positions, set-up and tear-down under every pattern of failing kernel calls, and the listener.

  \<^bold>\<open>What is shown.\<close>  This theory: the book implements the abstract book, returning exactly when no level total
  overflows, and hence never gets stuck on quantities that fit, never crosses, conserves quantity, serves in price-time order and refuses without side effects; its queries.
  Equivalence: the ladder book and the map book cannot be told apart on feeds without duplicate resting ids, and
  the window of a ladder is invisible.  Composition: a generated file replays to the report of the abstract book, the listener prints the
  same report for the same messages received as frames, the consumer sees a gap-free sequence of
  snapshots and has them all when it is joined, and the benchmark counts each message once.  Components: the properties listed above.

  \<^bold>\<open>Ranges.\<close>  \<open>price_ok\<close>: prices below \<open>2 ^ 62\<close> in magnitude, and windows that are powers of two from 64 to
  \<open>2 ^ 62\<close>, so that no window arithmetic leaves 64 bits.  The program does not bound quantities, so a level total can overflow:
  \<open>book_fits\<close> (all level totals of an abstract book are below \<open>2 ^ 63\<close>), its sufficient condition on one call (the total at the price,
  \<open>total_at\<close>, plus the quantity is below \<open>2 ^ 63\<close>) and \<open>totals_fit\<close> (it holds after every message of a feed) say when it does not; the
  theorems on \<open>add_order\<close> and on replay show that the result is \<^const>\<open>None\<close> exactly outside them.  \<open>feed_fits\<close>: the quantities of a feed are not negative and sum to less than
  \<open>2 ^ 63\<close> and its prices can be scaled by \<open>10 ^ 6\<close>; then every total, signal and counter fits.  Ring positions are
  32 bits and wrap; rings have at most \<open>2 ^ 31\<close> entries.

  \<^bold>\<open>Interleaving.\<close>  The ring and the two threads with their stop flag are verified at the level of their atomic accesses.
  In the pipeline above them producer and consumer are interleaved call by call, with the consumer's progress as a parameter;
  \<open>calls_are_runs\<close> shows that these are runs of the steps.

  \<^bold>\<open>Not modelled.\<close>  The tests, the shell scripts and the build files have no logic of their own.
  Timing, memory ordering weaker than acquire and release, and the processor and kernel
  behind the parameters named above.
\<close>

section \<open>The book implements its specification\<close>

text \<open>
  C1.  \<open>add_order\<close> implements the specification: on a book that represents \<open>B\<close>, with a price in range and any 64-bit quantity,
  the call returns exactly when the total of the level that the order joins still fits in 64 bits.  Then the new book represents
  the state that \<open>spec_add\<close> gives, the returned flag and the calls of the fill handler are those of the specification, and only
  the matching refusal counter moves.  Otherwise, and only then, the behaviour is undefined.
\<close>

theorem add_order_refines:
  assumes "refines b B" "price_ok p" "fits_int64 q"
  shows "if book_fits (fst (snd (spec_add (p_capacity (book_pool b)) i s p q B)))
    then \<exists>R. add_order i s p q ts b = Some R \<and> add_result b B i (spec_add (p_capacity (book_pool b)) i s p q B) R
    else add_order i s p q ts b = None"
  using add_order_ok [OF assms, of i s ts] unfolding add_outcome_def .

theorem add_order_refines_witness:
  "\<exists>b. add_order 7 Buy 100 9223372036854775807 1 (new_book True 4 64) = Some (True, b) \<and>
    refines b \<lparr>s_bids = [(100, [(7, 9223372036854775807)])], s_asks = []\<rparr> \<and> add_order 8 Buy 100 1 2 b = None"
proof -
  let ?B = "\<lparr>s_bids = [(100, [(7, 9223372036854775807)])], s_asks = []\<rparr> :: spec_book"
  have n: "refines (new_book True 4 64) \<lparr>s_bids = [], s_asks = []\<rparr>"
    using refines_new [of 64 True 4] is_pow2_power [of 6] by simp
  have p: "price_ok 100" "fits_int64 9223372036854775807" "fits_int64 1" by (simp_all add: price_ok_def fits_int64_def)
  from add_order_refines [OF n p(1,2), of 7 Buy 1] obtain b where
    b: "add_order 7 Buy 100 9223372036854775807 1 (new_book True 4 64) = Some (True, b)" "refines b ?B" "p_capacity (book_pool b) = 4"
    by (auto simp: spec_add_def book_ids_def book_fits_def add_result_def)
  have "\<not> book_fits (fst (snd (spec_add 4 8 Buy 100 1 ?B)))"
    by (simp add: spec_add_def book_ids_def side_orders_def book_fits_def)
  with add_order_refines [OF b(2) p(1,3), of 8 Buy 2] b show ?thesis by (intro exI [of _ b]) simp
qed

text \<open>
  C2.  \<open>cancel_order\<close> implements the specification: it returns whether the id names a resting
  order, removes exactly that order, and emits no fill.
\<close>

theorem cancel_order_refines:
  assumes "refines b B"
  shows "\<exists>b'. cancel_order i b = Some (fst (spec_cancel i B), b') \<and> refines b' (snd (spec_cancel i B)) \<and>
    book_same b b' \<and> fill_log b' = fill_log b"
  using assms by (rule cancel_order_ok)

theorem cancel_order_refines_witness:
  "\<exists>b'. cancel_order 7 (new_book True 4 64) = Some (False, b') \<and> refines b' \<lparr>s_bids = [], s_asks = []\<rparr>"
proof -
  have "refines (new_book True 4 64) \<lparr>s_bids = [], s_asks = []\<rparr>"
    using refines_new [of 64 True 4] is_pow2_power [of 6] by simp
  from cancel_order_refines [OF this, of 7] show ?thesis by (auto simp: spec_cancel_def book_ids_def)
qed

text \<open>
  C3.  No history leads to undefined behaviour: on every reachable book, \<open>cancel_order\<close> runs to completion for any id, and
  \<open>add_order\<close> for any id, side and timestamp, any price inside the supported range and any 64-bit quantity that fits on top of the total
  resting at that price (no dangling pointer, no failed assertion, no endless matching loop, no overflow of a quantity or of the
  window arithmetic); both lead to a reachable book again.
\<close>

theorem reachable_never_stuck:
  assumes "reachable b"
  shows "(price_ok p \<longrightarrow> fits_int64 q \<longrightarrow> total_at (amap (ladder_of s b)) p + q < 2 ^ 63 \<longrightarrow>
      (\<exists>ok b'. add_order i s p q ts b = Some (ok, b') \<and> reachable b')) \<and>
    (\<exists>ok b'. cancel_order i b = Some (ok, b') \<and> reachable b')"
  using assms by (rule reachable_progress)

theorem reachable_never_stuck_witness:
  "\<exists>b ok b'. total_at (amap (ladder_of Sell b)) 4 = 6 \<and> add_order 9 Sell 4 9223372036854775801 0 b = Some (ok, b') \<and> reachable b'"
proof -
  from two_sided_book obtain b where b: "reachable b" "refines b \<lparr>s_bids = [(3, [(1, 5)])], s_asks = [(4, [(2, 6)])]\<rparr>" by blast
  have t: "total_at (amap (ladder_of Sell b)) 4 = 6" using total_at_refines [OF b(2), of Sell 4] by (simp add: level_qty_of_def)
  with reachable_never_stuck [OF b(1), of 4 9223372036854775801 Sell 9 0] show ?thesis by (auto simp: price_ok_def fits_int64_def)
qed

text \<open>
  C4.  The book never crosses: whenever both best prices exist, the best bid is below the best
  ask.
\<close>

theorem reachable_uncrossed:
  assumes "reachable b" "best_bid b = Some (Some x)" "best_ask b = Some (Some y)"
  shows "x < y"
  using reachable_consistent [OF assms(1)] best_prices_apart assms(2,3) by blast

theorem reachable_uncrossed_witness:
  "\<exists>b. reachable b \<and> best_bid b = Some (Some 3) \<and> best_ask b = Some (Some 4) \<and> (3::int) < 4"
proof -
  from two_sided_book obtain b where b: "reachable b" "refines b \<lparr>s_bids = [(3, [(1, 5)])], s_asks = [(4, [(2, 6)])]\<rparr>" by blast
  then have "best_bid b = Some (Some 3)" "best_ask b = Some (Some 4)" by (simp_all add: best_bid_ok best_ask_ok)
  with b(1) reachable_uncrossed [OF b(1) this] show ?thesis by blast
qed

text \<open>
  C5.  Price-time priority: the fills of an accepted order name the resting orders of the
  opposite side from the front, best price first and oldest first, without a gap, each at a
  price no worse than the limit, for a positive quantity.
\<close>

theorem fills_price_time:
  assumes "consistent b B" "price_ok p" "has_handler b" "add_order i s p q ts b = Some (True, b')"
  shows "\<exists>fs. fill_log b' = fill_log b @ fs \<and>
    map resting_id fs = take (length fs) (map fst (side_orders (side_of (opposite s) B))) \<and>
    (\<forall>f \<in> set fs. fill_ok (opposite s) i p f)"
proof -
  from add_consistent [OF assms(1,2,4)] assms(3) obtain B' fs where
    run: "spec_add (p_capacity (book_pool b)) i s p q B = (True, B', fs)" and log: "fill_log b' = fill_log b @ fs" by auto
  have so: "side_ok (opposite s) (side_of (opposite s) B)" using assms(1) by (simp add: consistent_def spec_inv_def)
  from run show ?thesis
  proof (cases rule: spec_add_cases)
    case (taken q' ls)
    with take_side_order [OF taken(4)] take_side_ok [OF taken(4) so] log show ?thesis by auto
  qed simp
qed

theorem fills_price_time_witness:
  "\<exists>b b' fs. add_order 9 Buy 4 2 0 b = Some (True, b') \<and> fill_log b' = fill_log b @ fs \<and>
    map resting_id fs = take (length fs) [2] \<and> (\<forall>f \<in> set fs. fill_ok Sell 9 4 f)"
proof -
  let ?B = "\<lparr>s_bids = [(3, [(1, 5)])], s_asks = [(4, [(2, 6)])]\<rparr>"
  from two_sided_book obtain b where b: "reachable b" "refines b ?B" "has_handler b" "p_capacity (book_pool b) = 4" by blast
  have "spec_inv ?B" unfolding spec_inv_def side_all [of _ Buy]
    by (simp add: side_ok_def queue_ok_def book_ids_def side_orders_def uncrossed_def)
  then have c: "consistent b ?B" using b(2) by (simp add: consistent_def)
  have p: "price_ok 4" by (simp add: price_ok_def)
  have "spec_add 4 9 Buy 4 2 ?B = (True, \<lparr>s_bids = [(3, [(1, 5)])], s_asks = [(4, [(2, 4)])]\<rparr>, [\<lparr>resting_id = 2, incoming_id = 9, f_price = 4, f_qty = 2\<rparr>])"
    by (simp add: spec_add_def book_ids_def side_orders_def pbetter_def)
  with add_order_runs [OF b(2) p, of 2 9 Buy] b(4) obtain b' where run: "add_order 9 Buy 4 2 0 b = Some (True, b')"
    by (fastforce simp: book_fits_def fits_int64_def)
  from fills_price_time [OF c p b(3) run] run show ?thesis by (auto simp: side_orders_def)
qed

text \<open>
  C6.  Conservation: of the quantity of an accepted order, every unit either rests or trades
  against one resting unit; a refused order changes no quantity.  The two totals are those that \<open>total_resting_qty\<close> returns, and the
  second one is defined as long as the first one plus the quantity of the order fits in 64 bits.
\<close>

theorem quantity_conserved:
  assumes "reachable b" "price_ok p" "0 \<le> q" "has_handler b" "add_order i s p q ts b = Some (ok, b')"
    and "total_resting_qty b = Some t" "t + q < 2 ^ 63"
  shows "\<exists>fs t'. fill_log b' = fill_log b @ fs \<and> total_resting_qty b' = Some t' \<and>
    t' + 2 * fills_qty fs = t + (if ok then q else 0)"
proof -
  from reachable_consistent [OF assms(1)] obtain B where B: "consistent b B" by blast
  from add_consistent [OF B assms(2,5)] assms(4) obtain B' fs where
    run: "spec_add (p_capacity (book_pool b)) i s p q B = (ok, B', fs)" "consistent b' B'" "fill_log b' = fill_log b @ fs" by auto
  from B have inv: "spec_inv B" and t: "book_qty B = t"
    using assms(6) total_resting_qty_ok(1) [of b B] by (auto simp: consistent_def checked64_def split: if_splits)
  have eq: "book_qty B' + 2 * fills_qty fs = t + (if ok then q else 0)" using spec_add_conserves [OF inv run(1) assms(3)] t by simp
  have "0 \<le> fills_qty fs" using spec_add_prices [OF inv run(1)] by (simp add: fills_nonneg)
  moreover have T: "total_resting_qty b' = checked64 (book_qty B')" "0 \<le> book_qty B'" using total_resting_qty_ok run(2) by (auto simp: consistent_def)
  ultimately have "total_resting_qty b' = Some (book_qty B')"
    using eq assms(3,7) by (auto simp: checked64_def fits_int64_nonneg split: if_splits)
  with run(3) eq show ?thesis by blast
qed

theorem quantity_conserved_witness:
  "\<exists>b ok b' fs t'. add_order 9 Buy 4 2 0 b = Some (ok, b') \<and> fill_log b' = fill_log b @ fs \<and>
    total_resting_qty b = Some 11 \<and> total_resting_qty b' = Some t' \<and> t' + 2 * fills_qty fs = 11 + (if ok then 2 else 0)"
proof -
  let ?B = "\<lparr>s_bids = [(3, [(1, 5)])], s_asks = [(4, [(2, 6)])]\<rparr>"
  from two_sided_book obtain b where b: "reachable b" "refines b ?B" "has_handler b" by blast
  have p: "price_ok 4" by (simp add: price_ok_def)
  have "total_at (amap (ladder_of Buy b)) 4 = 0" using total_at_refines [OF b(2), of Buy 4] by (simp add: level_qty_of_def)
  with reachable_progress [OF b(1), of 4 2 Buy 9 0] p obtain ok b' where run: "add_order 9 Buy 4 2 0 b = Some (ok, b')"
    by (auto simp: fits_int64_def)
  have t: "total_resting_qty b = Some 11" using total_resting_qty_ok(1) [OF b(2)] by (simp add: book_qty_def checked64_def fits_int64_def)
  from quantity_conserved [OF b(1) p _ b(3) run t] obtain fs t' where "fill_log b' = fill_log b @ fs" "total_resting_qty b' = Some t'"
    "t' + 2 * fills_qty fs = 11 + (if ok then 2 else 0)" by auto
  with run t show ?thesis by blast
qed

text \<open>
  C7.  A refused order changes nothing but one counter: the duplicate counter when the id is
  resting, the exhaustion counter when no slot is free.
\<close>

theorem refusal_changes_nothing:
  assumes "add_order i s p q ts b = Some (False, b')"
  shows "(oid_find (order_ids b) i \<noteq> None \<and> b' = b\<lparr>stats := (stats b)\<lparr>duplicate_id := duplicate_id (stats b) + 1\<rparr>\<rparr>) \<or>
    (oid_find (order_ids b) i = None \<and> available (book_pool b) = 0 \<and>
     b' = b\<lparr>stats := (stats b)\<lparr>pool_exhausted := pool_exhausted (stats b) + 1\<rparr>\<rparr>)"
  using assms
  by (auto simp: add_order_def allocate_def available_def Let_def bind_eq_Some_iff split: if_splits option.splits prod.splits)

theorem refusal_changes_nothing_witness:
  "add_order 1 Buy 2 3 4 (new_book True 0 64) =
     Some (False, (new_book True 0 64)\<lparr>stats := \<lparr>pool_exhausted = 1, duplicate_id = 0\<rparr>\<rparr>)"
proof -
  obtain b' where run: "add_order 1 Buy 2 3 4 (new_book True 0 64) = Some (False, b')"
    using add_order_runs [OF refines_new [of 64 True 0], of 2 3 1 Buy False "\<lparr>s_bids = [], s_asks = []\<rparr>" "[]" 4] is_pow2_power [of 6]
    by (auto simp: price_ok_def fits_int64_def book_fits_def spec_add_def)
  have "oid_find (order_ids (new_book True 0 64)) 1 = None"
    using oid_find_eq [of "order_ids (new_book True 0 64)" 1] oid_inv_new id_map_capacity_ok [of 0] by (simp add: new_book_def)
  with refusal_changes_nothing [OF run] run show ?thesis by (auto simp: new_book_def)
qed

text \<open>
  C8.  Cancelling undoes adding: an order that crosses nothing, and whose quantity fits on top of the total at its price, is
  accepted without a fill, and cancelling its id gives a book that represents the same state as before.
\<close>

theorem add_cancel_roundtrip:
  assumes c: "consistent b B" and p: "price_ok p" and q: "0 < q"
    and new: "i \<notin> set (book_ids B)" "length (book_ids B) < p_capacity (book_pool b)"
    and out: "\<forall>x \<in> fst ` set (side_of (opposite s) B). pbetter (opposite s) p x"
    and room: "total_at (amap (ladder_of s b)) p + q < 2 ^ 63"
  shows "\<exists>b' b''. add_order i s p q ts b = Some (True, b') \<and> fill_log b' = fill_log b \<and>
    cancel_order i b' = Some (True, b'') \<and> refines b'' B"
proof -
  from c have ref: "refines b B" and inv: "spec_inv B" by (simp_all add: consistent_def)
  let ?B = "set_side s (enqueue s p (i, q) (side_of s B)) B"
  note S = spec_add_beyond [OF new(1,2) q out]
  have q': "fits_int64 q" using room q total_at_nonneg [OF ref, of s p] by (simp add: fits_int64_def)
  have "book_fits ?B" using spec_add_fits [OF inv refines_fits [OF ref] _ S] room total_at_refines [OF ref] by simp
  from add_order_runs [OF ref p q' S this, of ts] obtain b' where
    b': "add_order i s p q ts b = Some (True, b')" "refines b' ?B" "fill_log b' = fill_log b" by (auto simp: add_result_def)
  from cancel_order_ok [OF b'(2), of i] spec_cancel_enqueue [OF inv new(1), of s p q] b' show ?thesis by auto
qed

theorem add_cancel_roundtrip_witness:
  "\<exists>b b' b''. add_order 9 Sell 8 2 0 b = Some (True, b') \<and> cancel_order 9 b' = Some (True, b'') \<and>
    refines b'' \<lparr>s_bids = [(3, [(1, 5)])], s_asks = [(4, [(2, 6)])]\<rparr>"
proof -
  let ?B = "\<lparr>s_bids = [(3, [(1, 5)])], s_asks = [(4, [(2, 6)])]\<rparr>"
  from two_sided_book obtain b where b: "refines b ?B" "p_capacity (book_pool b) = 4" by blast
  have "spec_inv ?B" unfolding spec_inv_def side_all [of _ Buy]
    by (simp add: side_ok_def queue_ok_def book_ids_def side_orders_def uncrossed_def)
  then have c: "consistent b ?B" using b(1) by (simp add: consistent_def)
  have "price_ok 8" by (simp add: price_ok_def)
  moreover have "total_at (amap (ladder_of Sell b)) 8 = 0" using total_at_refines [OF b(1), of Sell 8] by (simp add: level_qty_of_def)
  ultimately show ?thesis using add_cancel_roundtrip [OF c, of 8 2 9 Sell 0] b(2)
    by (auto simp: book_ids_def side_orders_def pbetter_def)
qed

text \<open>
  An order with no positive quantity is accepted and is a no-op: the call returns true, no
  fill is emitted and the book represents the same state.
\<close>

theorem nonpositive_order_is_noop:
  assumes c: "refines b B" and p: "price_ok p" and q: "fits_int64 q" "q \<le> 0"
    and new: "i \<notin> set (book_ids B)" "length (book_ids B) < p_capacity (book_pool b)"
  shows "\<exists>b'. add_order i s p q ts b = Some (True, b') \<and> refines b' B \<and> fill_log b' = fill_log b \<and> stats b' = stats b"
  using add_order_runs [OF c p q(1) spec_add_nonpositive [OF new q(2)] refines_fits [OF c], of s ts] by (auto simp: add_result_def)

theorem nonpositive_order_is_noop_witness:
  "\<exists>b'. add_order 5 Buy 1 (- 3) 0 (new_book False 1 64) = Some (True, b') \<and> refines b' \<lparr>s_bids = [], s_asks = []\<rparr>"
proof -
  have "refines (new_book False 1 64) \<lparr>s_bids = [], s_asks = []\<rparr>"
    using refines_new [of 64 False 1] is_pow2_power [of 6] by simp
  moreover have "price_ok 1" by (simp add: price_ok_def)
  ultimately show ?thesis
    using nonpositive_order_is_noop [of "new_book False 1 64" "\<lparr>s_bids = [], s_asks = []\<rparr>" 1 "- 3" 5 Buy 0]
    by (auto simp: book_ids_def fits_int64_def)
qed

text \<open>
  C9.  The depth query: \<open>top_levels\<close> returns the best \<open>n\<close> levels of a side, best first, each with
  the sum of the open quantities of its queue.
\<close>

theorem top_levels_spec:
  assumes "refines b B"
  shows "top_levels s n b = take n (depth (side_of s B))"
  using assms by (rule top_levels_ok)

theorem top_levels_spec_witness:
  "\<exists>b. top_levels Sell 10 b = [\<lparr>lq_price = 4, lq_qty = 6\<rparr>] \<and> top_levels Buy 0 b = []"
proof -
  from two_sided_book obtain b where b: "refines b \<lparr>s_bids = [(3, [(1, 5)])], s_asks = [(4, [(2, 6)])]\<rparr>" by blast
  from top_levels_spec [OF b, of Sell 10] top_levels_spec [OF b, of Buy 0] show ?thesis
    by (auto simp: depth_def)
qed

text \<open>
  C10.  The best prices and the total: \<open>best_bid\<close> and \<open>best_ask\<close> return the first price of their
  side, or none, and \<open>total_resting_qty\<close> is the sum of all open quantities; it is undefined exactly when this sum exceeds 64 bits.
\<close>

theorem queries_spec:
  assumes "refines b B"
  shows "best_bid b = Some (map_option fst (first_opt (s_bids B))) \<and>
    best_ask b = Some (map_option fst (first_opt (s_asks B))) \<and>
    total_resting_qty b = (if book_qty B < 2 ^ 63 then Some (book_qty B) else None)"
  using assms total_resting_qty_ok [OF assms] by (simp add: best_bid_ok best_ask_ok checked64_def fits_int64_nonneg)

theorem queries_spec_witness:
  "\<exists>b. best_bid b = Some (Some 3) \<and> best_ask b = Some (Some 4) \<and> total_resting_qty b = Some 11"
proof -
  from two_sided_book obtain b where b: "refines b \<lparr>s_bids = [(3, [(1, 5)])], s_asks = [(4, [(2, 6)])]\<rparr>" by blast
  from queries_spec [OF b] show ?thesis by (auto simp: book_qty_def)
qed

end
